theory Spec2Isabelle
  imports Complex_Main "HOL-Library.AList"
begin

section \<open>Python values\<close>

text \<open>
  Documents are JSON-like Python values. A \<open>dict\<close> is an association list in insertion
  order (Python dictionaries iterate in insertion order, and \<open>data.items()\<close> fixes the
  order in which edits are applied); a well-formed dictionary has distinct keys. A
  \<open>float\<close> carries the real number it denotes: rounding is not modelled. Values are
  trees: two fields never share one mutable object.
\<close>

datatype pyval =
    PNone
  | PBool bool
  | PInt int
  | PFloat real
  | PStr string
  | PList "pyval list"
  | PDict "(string \<times> pyval) list"

type_synonym doc = "(string \<times> pyval) list"

text \<open>The exception classes that occur in \<open>voicelink/mongodb.py\<close>; messages are dropped.\<close>

datatype exn =
    ValueError
  | TypeError
  | KeyError
  | AttributeError
  | PyMongoError
  | DuplicateKeyError
  | RecursionError
  | Exception
  | ConnectionError

subsection \<open>Dictionary primitives\<close>

definition has_key :: "'k \<Rightarrow> ('k \<times> 'v) list \<Rightarrow> bool" where
  \<comment> \<open>\<open>k in d\<close>\<close>
  "has_key k d = (map_of d k \<noteq> None)"

definition keys :: "('k \<times> 'v) list \<Rightarrow> 'k set" where
  "keys d = fst ` set d"

definition py_del :: "'k \<Rightarrow> ('k \<times> 'v) list \<Rightarrow> exn + ('k \<times> 'v) list" where
  \<comment> \<open>\<open>del d[k]\<close> raises KeyError on a missing key\<close>
  "py_del k d = (if has_key k d then Inr (AList.delete k d) else Inl KeyError)"

definition get_default :: "('k \<times> 'v) list \<Rightarrow> 'k \<Rightarrow> 'v \<Rightarrow> 'v" where
  \<comment> \<open>\<open>d.get(k, default)\<close>, and the value \<open>d.setdefault(k, default)\<close> returns\<close>
  "get_default d k dflt = (case map_of d k of Some v \<Rightarrow> v | None \<Rightarrow> dflt)"

definition cached :: "('k \<times> ('a \<times> 'b) list) list \<Rightarrow> 'k \<Rightarrow> ('a \<times> 'b) list" where
  \<comment> \<open>\<open>buffer[k]\<close> where the key is present\<close>
  "cached buffer k = get_default buffer k []"

definition merge_into :: "('k \<times> 'v) list \<Rightarrow> ('k \<times> 'v) list \<Rightarrow> ('k \<times> 'v) list" where
  \<comment> \<open>the dictionary display \<open>{**d, **e}\<close>: a later key replaces the value of an earlier one
      and keeps its position\<close>
  "merge_into d e = foldl (\<lambda>acc (k, v). AList.update k v acc) d e"

subsection \<open>Numbers, equality, membership\<close>

fun is_number :: "pyval \<Rightarrow> bool" where
  \<comment> \<open>\<open>isinstance(v, (int, float))\<close>; \<open>bool\<close> is a subclass of \<open>int\<close>\<close>
  "is_number (PBool _) = True"
| "is_number (PInt _) = True"
| "is_number (PFloat _) = True"
| "is_number _ = False"

fun int_of :: "pyval \<Rightarrow> int option" where
  "int_of (PBool b) = Some (if b then 1 else 0)"
| "int_of (PInt i) = Some i"
| "int_of _ = None"

fun num_of :: "pyval \<Rightarrow> real option" where
  "num_of (PBool b) = Some (if b then 1 else 0)"
| "num_of (PInt i) = Some (of_int i)"
| "num_of (PFloat r) = Some r"
| "num_of _ = None"

definition py_add :: "pyval \<Rightarrow> pyval \<Rightarrow> exn + pyval" where
  \<comment> \<open>\<open>a + b\<close> for a numeric left operand, the only way the handler calls it\<close>
  "py_add a b =
     (case (int_of a, int_of b) of
        (Some i, Some j) \<Rightarrow> Inr (PInt (i + j))
      | _ \<Rightarrow> (case (num_of a, num_of b) of
                (Some x, Some y) \<Rightarrow> Inr (PFloat (x + y))
              | _ \<Rightarrow> Inl TypeError))"

fun py_eq :: "pyval \<Rightarrow> pyval \<Rightarrow> bool"
  and py_eq_list :: "pyval list \<Rightarrow> pyval list \<Rightarrow> bool"
  and py_eq_items :: "(string \<times> pyval) list \<Rightarrow> (string \<times> pyval) list \<Rightarrow> bool" where
  \<comment> \<open>Python's \<open>==\<close>: numbers by value, lists pointwise, dictionaries regardless of order\<close>
  "py_eq PNone w = (w = PNone)"
| "py_eq (PBool b) w = (num_of w = Some (if b then 1 else 0))"
| "py_eq (PInt i) w = (num_of w = Some (of_int i))"
| "py_eq (PFloat r) w = (num_of w = Some r)"
| "py_eq (PStr s) w = (w = PStr s)"
| "py_eq (PList xs) w = (case w of PList ys \<Rightarrow> py_eq_list xs ys | _ \<Rightarrow> False)"
| "py_eq (PDict d) w =
     (case w of PDict e \<Rightarrow> length d = length e \<and> py_eq_items d e | _ \<Rightarrow> False)"
| "py_eq_list [] ys = (ys = [])"
| "py_eq_list (x # xs) ys = (case ys of [] \<Rightarrow> False | y # ys' \<Rightarrow> py_eq x y \<and> py_eq_list xs ys')"
| "py_eq_items [] e = True"
| "py_eq_items (kv # d) e =
     ((case map_of e (fst kv) of Some w \<Rightarrow> py_eq (snd kv) w | None \<Rightarrow> False) \<and> py_eq_items d e)"

fun starts_with :: "string \<Rightarrow> string \<Rightarrow> bool" where
  "starts_with [] s = True"
| "starts_with (c # t) [] = False"
| "starts_with (c # t) (c' # s) = (c = c' \<and> starts_with t s)"

fun substring :: "string \<Rightarrow> string \<Rightarrow> bool" where
  \<comment> \<open>\<open>t in s\<close> on strings\<close>
  "substring t [] = (t = [])"
| "substring t (c # s) = (starts_with t (c # s) \<or> substring t s)"

fun py_in :: "pyval \<Rightarrow> pyval \<Rightarrow> exn + bool" where
  \<comment> \<open>\<open>item in container\<close>\<close>
  "py_in item (PList ys) = Inr (list_ex (py_eq item) ys)"
| "py_in item (PStr s) = (case item of PStr t \<Rightarrow> Inr (substring t s) | _ \<Rightarrow> Inl TypeError)"
| "py_in item (PDict d) =
     (case item of
        PStr k \<Rightarrow> Inr (has_key k d)
      | PList _ \<Rightarrow> Inl TypeError
      | PDict _ \<Rightarrow> Inl TypeError
      | _ \<Rightarrow> Inr False)"
| "py_in item _ = Inl TypeError"

fun py_iter :: "pyval \<Rightarrow> exn + pyval list" where
  \<comment> \<open>the items \<open>list.extend\<close> takes from its argument\<close>
  "py_iter (PList xs) = Inr xs"
| "py_iter (PStr s) = Inr (map (\<lambda>c. PStr [c]) s)"
| "py_iter (PDict d) = Inr (map (\<lambda>kv. PStr (fst kv)) d)"
| "py_iter _ = Inl TypeError"

definition slice_from :: "int \<Rightarrow> 'a list \<Rightarrow> 'a list" where
  \<comment> \<open>\<open>xs[n:]\<close>: a negative start counts from the end and is clipped at 0\<close>
  "slice_from n xs =
     (if 0 \<le> n then drop (nat n) xs else drop (nat (int (length xs) + n)) xs)"

fun py_slice_from :: "pyval \<Rightarrow> pyval list \<Rightarrow> exn + pyval list" where
  \<comment> \<open>\<open>xs[v:]\<close>: the start is an \<open>int\<close> (or \<open>bool\<close>) or \<open>None\<close>\<close>
  "py_slice_from PNone xs = Inr xs"
| "py_slice_from (PBool b) xs = Inr (slice_from (if b then 1 else 0) xs)"
| "py_slice_from (PInt n) xs = Inr (slice_from n xs)"
| "py_slice_from _ xs = Inl TypeError"

fun split_on :: "char \<Rightarrow> string \<Rightarrow> string \<Rightarrow> string list" where
  \<comment> \<open>\<open>s.split(sep)\<close> with the current piece accumulated in reverse\<close>
  "split_on sep acc [] = [rev acc]"
| "split_on sep acc (c # s) =
     (if c = sep then rev acc # split_on sep [] s else split_on sep (c # acc) s)"

definition split_dot :: "string \<Rightarrow> string list" where
  "split_dot key = split_on (CHR ''.'') [] key"

section \<open>The cache edit of \<open>_update_db\<close>\<close>

text \<open>
  The five branches of the \<open>if mode == ...\<close> chain, each acting on the object \<open>nested\<close>
  that the path walk has reached. Python raises where \<open>nested\<close> is not a dictionary; the
  exception class is kept until the enclosing \<open>except\<close> replaces it.
\<close>

definition set_field :: "string \<Rightarrow> pyval \<Rightarrow> pyval \<Rightarrow> exn + pyval" where
  \<comment> \<open>\<open>nested[field] = value\<close>\<close>
  "set_field field val nested =
     (case nested of
        PDict d \<Rightarrow> Inr (PDict (AList.update field val d))
      | _ \<Rightarrow> Inl TypeError)"

definition unset_field :: "string \<Rightarrow> pyval \<Rightarrow> exn + pyval" where
  \<comment> \<open>\<open>nested.pop(field, None)\<close>\<close>
  "unset_field field nested =
     (case nested of
        PDict d \<Rightarrow> Inr (PDict (AList.delete field d))
      | PList _ \<Rightarrow> Inl TypeError
      | _ \<Rightarrow> Inl AttributeError)"

definition inc_field :: "string \<Rightarrow> pyval \<Rightarrow> pyval \<Rightarrow> exn + pyval" where
  "inc_field field val nested =
     (case nested of
        PDict d \<Rightarrow>
          if \<not> is_number (get_default d field (PInt 0)) then Inl ValueError
          else (case py_add (get_default d field (PInt 0)) val of
                  Inl e \<Rightarrow> Inl e
                | Inr v \<Rightarrow> Inr (PDict (AList.update field v d)))
      | _ \<Rightarrow> Inl AttributeError)"

definition push_items :: "pyval \<Rightarrow> pyval list \<Rightarrow> exn + pyval list" where
  \<comment> \<open>\<open>arr.extend(value["$each"])\<close> then \<open>arr[:] = arr[value["$slice"]:]\<close>, or \<open>arr.append(value)\<close>\<close>
  "push_items val arr =
     (case val of
        PDict v \<Rightarrow>
          if has_key ''$each'' v then
            (case py_iter (get_default v ''$each'' PNone) of
               Inl e \<Rightarrow> Inl e
             | Inr items \<Rightarrow>
                 if has_key ''$slice'' v
                 then py_slice_from (get_default v ''$slice'' PNone) (arr @ items)
                 else Inr (arr @ items))
          else Inr (arr @ [val])
      | _ \<Rightarrow> Inr (arr @ [val]))"

definition push_field :: "string \<Rightarrow> pyval \<Rightarrow> pyval \<Rightarrow> exn + pyval" where
  "push_field field val nested =
     (case nested of
        PDict d \<Rightarrow>
          (case get_default d field (PList []) of
             PList arr \<Rightarrow>
               (case push_items val arr of
                  Inl e \<Rightarrow> Inl e
                | Inr arr' \<Rightarrow> Inr (PDict (AList.update field (PList arr') d)))
           | _ \<Rightarrow> Inl ValueError)
      | _ \<Rightarrow> Inl AttributeError)"

fun remove_items :: "pyval \<Rightarrow> pyval list \<Rightarrow> exn + pyval list" where
  \<comment> \<open>\<open>[item for item in xs if item not in values]\<close>\<close>
  "remove_items vals [] = Inr []"
| "remove_items vals (x # xs) =
     (case py_in x vals of
        Inl e \<Rightarrow> Inl e
      | Inr b \<Rightarrow>
          (case remove_items vals xs of
             Inl e \<Rightarrow> Inl e
           | Inr r \<Rightarrow> Inr (if b then r else x # r)))"

definition pull_field :: "string \<Rightarrow> pyval \<Rightarrow> pyval \<Rightarrow> exn + pyval" where
  \<comment> \<open>\<open>if field in nested\<close> is Python's membership test on whatever \<open>nested\<close> is\<close>
  "pull_field field val nested =
     (case py_in (PStr field) nested of
        Inl e \<Rightarrow> Inl e
      | Inr False \<Rightarrow> Inr nested
      | Inr True \<Rightarrow>
          (case nested of
             PDict d \<Rightarrow>
               (case get_default d field PNone of
                  PList xs \<Rightarrow>
                    (case remove_items
                            (case val of
                               PDict v \<Rightarrow> get_default v ''$in'' (PList [])
                             | _ \<Rightarrow> PList [val]) xs of
                       Inl e \<Rightarrow> Inl e
                     | Inr r \<Rightarrow> Inr (PDict (AList.update field (PList r) d)))
                | _ \<Rightarrow> Inl ValueError)
           | _ \<Rightarrow> Inl TypeError))"

definition edit_field :: "string \<Rightarrow> string \<Rightarrow> pyval \<Rightarrow> pyval \<Rightarrow> exn + pyval" where
  \<comment> \<open>the inner \<open>try\<close>: every exception leaves it as a ValueError\<close>
  "edit_field mode field val nested =
     (case (if mode = ''$set'' then set_field field val nested
            else if mode = ''$unset'' then unset_field field nested
            else if mode = ''$inc'' then inc_field field val nested
            else if mode = ''$push'' then push_field field val nested
            else if mode = ''$pull'' then pull_field field val nested
            else Inr nested) of
        Inl e \<Rightarrow> Inl ValueError
      | Inr v \<Rightarrow> Inr v)"

fun walk :: "string list \<Rightarrow> (pyval \<Rightarrow> exn + pyval) \<Rightarrow> pyval \<Rightarrow> exn + pyval" where
  \<comment> \<open>\<open>for c in cursors[:-1]: nested = nested.setdefault(c, {})\<close>, then the edit at the
      object reached; the result is the object the walk started from, after the mutation\<close>
  "walk [] f nested = f nested"
| "walk (c # cs) f nested =
     (case nested of
        PDict d \<Rightarrow>
          (case walk cs f (get_default d c (PDict [])) of
             Inl e \<Rightarrow> Inl e
           | Inr v \<Rightarrow> Inr (PDict (AList.update c v d)))
      | _ \<Rightarrow> Inl ValueError)"

definition apply_edit :: "string \<Rightarrow> string \<Rightarrow> pyval \<Rightarrow> pyval \<Rightarrow> exn + pyval" where
  "apply_edit mode key val cache =
     walk (butlast (split_dot key)) (edit_field mode (last (split_dot key)) val) cache"

fun apply_action :: "string \<Rightarrow> (string \<times> pyval) list \<Rightarrow> pyval \<Rightarrow> exn + pyval" where
  \<comment> \<open>\<open>for key, value in action.items()\<close>\<close>
  "apply_action mode [] cache = Inr cache"
| "apply_action mode (kv # rest) cache =
     (case apply_edit mode (fst kv) (snd kv) cache of
        Inl e \<Rightarrow> Inl e
      | Inr cache' \<Rightarrow> apply_action mode rest cache')"

type_synonym update_data = "(string \<times> (string \<times> pyval) list) list"

fun apply_data :: "update_data \<Rightarrow> pyval \<Rightarrow> exn + pyval" where
  \<comment> \<open>\<open>for mode, action in data.items()\<close>\<close>
  "apply_data [] cache = Inr cache"
| "apply_data (ma # rest) cache =
     (case apply_action (fst ma) (snd ma) cache of
        Inl e \<Rightarrow> Inl e
      | Inr cache' \<Rightarrow> apply_data rest cache')"

definition valid_operations :: "string list" where
  "valid_operations = [''$set'', ''$unset'', ''$inc'', ''$push'', ''$pull'']"

definition update_cache :: "update_data \<Rightarrow> pyval \<Rightarrow> exn + pyval" where
  \<comment> \<open>validation of the operator names, then the edits in order; a failed edit discards
      the partly edited object (the caller evicts it)\<close>
  "update_cache data cache =
     (if \<not> list_all (\<lambda>op. op \<in> set valid_operations) (map fst data) then Inl ValueError
      else apply_data data cache)"

section \<open>The document backend\<close>

subsection \<open>Update operators as the specification words them\<close>

text \<open>
  Modelled from the spec: the server side of \<open>update_one\<close>. The MongoDB server is not
  part of the repository, so the operators follow section 4.1 of the specification:
  \<open>$set\<close> assigns at a nested path and creates intermediate mappings, \<open>$unset\<close> removes the
  field if present, \<open>$inc\<close> adds to a numeric field (0 if absent), \<open>$push\<close> appends to a
  sequence (created if absent) with \<open>$each\<close> and \<open>$slice\<close> (a non-negative n keeps the
  first n, a negative n the last \<open>|n|\<close>), \<open>$pull\<close> removes the matching items and does
  nothing on an absent field; an unknown operator fails the call before any edit.
\<close>

fun alter_path ::
  "string list \<Rightarrow> bool \<Rightarrow> (pyval option \<Rightarrow> exn + pyval option) \<Rightarrow> doc \<Rightarrow> exn + doc" where
  "alter_path [] create f d = Inr d"
| "alter_path [k] create f d =
     (case f (map_of d k) of
        Inl e \<Rightarrow> Inl e
      | Inr None \<Rightarrow> Inr (AList.delete k d)
      | Inr (Some v) \<Rightarrow> Inr (AList.update k v d))"
| "alter_path (k # k' # ks) create f d =
     (case map_of d k of
        None \<Rightarrow>
          if create then
            (case alter_path (k' # ks) create f [] of
               Inl e \<Rightarrow> Inl e
             | Inr sub \<Rightarrow> Inr (AList.update k (PDict sub) d))
          else Inr d
      | Some (PDict sub) \<Rightarrow>
          (case alter_path (k' # ks) create f sub of
             Inl e \<Rightarrow> Inl e
           | Inr sub' \<Rightarrow> Inr (AList.update k (PDict sub') d))
      | Some _ \<Rightarrow> if create then Inl TypeError else Inr d)"

definition spec_slice :: "int \<Rightarrow> 'a list \<Rightarrow> 'a list" where
  "spec_slice n xs = (if 0 \<le> n then take (nat n) xs else drop (length xs - nat (- n)) xs)"

definition spec_inc :: "pyval \<Rightarrow> pyval option \<Rightarrow> exn + pyval option" where
  "spec_inc delta cur =
     (case (cur, delta) of
        (None, PInt j) \<Rightarrow> Inr (Some (PInt j))
      | (None, PFloat y) \<Rightarrow> Inr (Some (PFloat y))
      | (Some (PInt i), PInt j) \<Rightarrow> Inr (Some (PInt (i + j)))
      | (Some (PInt i), PFloat y) \<Rightarrow> Inr (Some (PFloat (of_int i + y)))
      | (Some (PFloat x), PInt j) \<Rightarrow> Inr (Some (PFloat (x + of_int j)))
      | (Some (PFloat x), PFloat y) \<Rightarrow> Inr (Some (PFloat (x + y)))
      | _ \<Rightarrow> Inl TypeError)"

definition spec_push :: "pyval \<Rightarrow> pyval option \<Rightarrow> exn + pyval option" where
  "spec_push val cur =
     (case (case cur of None \<Rightarrow> Some [] | Some (PList xs) \<Rightarrow> Some xs | Some _ \<Rightarrow> None) of
        None \<Rightarrow> Inl TypeError
      | Some xs \<Rightarrow>
          (case val of
             PDict v \<Rightarrow>
               (case map_of v ''$each'' of
                  None \<Rightarrow> Inr (Some (PList (xs @ [val])))
                | Some (PList items) \<Rightarrow>
                    (case map_of v ''$slice'' of
                       None \<Rightarrow> Inr (Some (PList (xs @ items)))
                     | Some (PInt n) \<Rightarrow> Inr (Some (PList (spec_slice n (xs @ items))))
                     | Some _ \<Rightarrow> Inl TypeError)
                | Some _ \<Rightarrow> Inl TypeError)
           | _ \<Rightarrow> Inr (Some (PList (xs @ [val])))))"

definition spec_pull :: "pyval \<Rightarrow> pyval option \<Rightarrow> exn + pyval option" where
  "spec_pull val cur =
     (case cur of
        None \<Rightarrow> Inr None
      | Some (PList xs) \<Rightarrow>
          (case val of
             PDict v \<Rightarrow>
               (case map_of v ''$in'' of
                  Some (PList vs) \<Rightarrow>
                    Inr (Some (PList (filter (\<lambda>x. \<not> list_ex (py_eq x) vs) xs)))
                | _ \<Rightarrow> Inr (Some (PList (filter (\<lambda>x. \<not> py_eq x val) xs))))
           | _ \<Rightarrow> Inr (Some (PList (filter (\<lambda>x. \<not> py_eq x val) xs))))
      | Some _ \<Rightarrow> Inl TypeError)"

definition spec_edit :: "string \<Rightarrow> string \<Rightarrow> pyval \<Rightarrow> doc \<Rightarrow> exn + doc" where
  "spec_edit mode key val d =
     (if mode = ''$set'' then alter_path (split_dot key) True (\<lambda>_. Inr (Some val)) d
      else if mode = ''$unset'' then alter_path (split_dot key) False (\<lambda>_. Inr None) d
      else if mode = ''$inc'' then alter_path (split_dot key) True (spec_inc val) d
      else if mode = ''$push'' then alter_path (split_dot key) True (spec_push val) d
      else if mode = ''$pull'' then alter_path (split_dot key) False (spec_pull val) d
      else Inl ValueError)"

fun spec_action :: "string \<Rightarrow> (string \<times> pyval) list \<Rightarrow> doc \<Rightarrow> exn + doc" where
  "spec_action mode [] d = Inr d"
| "spec_action mode (kv # rest) d =
     (case spec_edit mode (fst kv) (snd kv) d of
        Inl e \<Rightarrow> Inl e
      | Inr d' \<Rightarrow> spec_action mode rest d')"

fun spec_data :: "update_data \<Rightarrow> doc \<Rightarrow> exn + doc" where
  "spec_data [] d = Inr d"
| "spec_data (ma # rest) d =
     (case spec_action (fst ma) (snd ma) d of
        Inl e \<Rightarrow> Inl e
      | Inr d' \<Rightarrow> spec_data rest d')"

definition spec_update :: "update_data \<Rightarrow> doc \<Rightarrow> exn + doc" where
  "spec_update data d =
     (if \<not> list_all (\<lambda>op. op \<in> set valid_operations) (map fst data) then Inl ValueError
      else spec_data data d)"

subsection \<open>Collections\<close>

text \<open>
  Modelled from the spec: the backend contract of section 6 (\<open>find_one\<close>, \<open>insert_one\<close>,
  \<open>update_one\<close>, \<open>delete_one\<close>, \<open>find(...).skip(n).limit(m)\<close>), whose implementation
  (the motor driver and the server) is not part of the repository. A collection is the
  list of its documents; the primary key of a document is its \<open>_id\<close> field, and the
  handler only ever filters by an integer \<open>_id\<close>. A query filter is the predicate it
  denotes. A cursor limit of 0 means no limit, as in MongoDB; a negative limit counts
  like its absolute value.
\<close>

definition has_id :: "int \<Rightarrow> doc \<Rightarrow> bool" where
  "has_id k d = (map_of d ''_id'' = Some (PInt k))"

definition find_one :: "int \<Rightarrow> doc list \<Rightarrow> doc option" where
  "find_one k docs = find (has_id k) docs"

definition insert_one :: "doc \<Rightarrow> doc list \<Rightarrow> exn + doc list" where
  \<comment> \<open>a document without \<open>_id\<close> would be given a generated ObjectId, which the value
      model does not have; the handler always supplies \<open>_id\<close>\<close>
  "insert_one d docs =
     (case map_of d ''_id'' of
        None \<Rightarrow> Inl PyMongoError
      | Some v \<Rightarrow>
          if list_ex (\<lambda>d'. map_of d' ''_id'' = Some v) docs then Inl DuplicateKeyError
          else Inr (docs @ [d]))"

fun update_one :: "int \<Rightarrow> update_data \<Rightarrow> doc list \<Rightarrow> exn + (nat \<times> doc list)" where
  \<comment> \<open>the first document with that key is edited; the count is \<open>modified_count\<close>\<close>
  "update_one k data [] = Inr (0, [])"
| "update_one k data (d # ds) =
     (if has_id k d then
        (case spec_update data d of
           Inl e \<Rightarrow> Inl PyMongoError
         | Inr d' \<Rightarrow> Inr (if d' = d then 0 else 1, d' # ds))
      else
        (case update_one k data ds of
           Inl e \<Rightarrow> Inl e
         | Inr r \<Rightarrow> Inr (fst r, d # snd r)))"

fun delete_one :: "int \<Rightarrow> doc list \<Rightarrow> nat \<times> doc list" where
  \<comment> \<open>the count is \<open>deleted_count\<close>\<close>
  "delete_one k [] = (0, [])"
| "delete_one k (d # ds) =
     (if has_id k d then (1, ds) else (fst (delete_one k ds), d # snd (delete_one k ds)))"

definition cursor_limit :: "int \<Rightarrow> 'a list \<Rightarrow> 'a list" where
  "cursor_limit n docs = (if n = 0 then docs else take (nat \<bar>n\<bar>) docs)"

section \<open>The handler\<close>

text \<open>
  The class attributes of \<open>MongoDBHandler\<close> are the state. Both collections are taken as
  initialised. \<open>faults\<close> schedules the backend: each backend call consumes the head, and
  the call raises when the head is \<open>True\<close> (an exhausted schedule means no more faults),
  so a theorem about every state covers every pattern of backend failure. Each reading
  of \<open>time.time()\<close> is an argument of the operation that reads it.
\<close>

record 'd handler_state =
  settings_db :: "doc list"
  users_db :: "doc list"
  faults :: "bool list"
  CACHE_TTL :: int
  settings_buffer :: "(int \<times> 'd) list"
  users_buffer :: "(int \<times> 'd) list"
  last_access :: "(int \<times> real) list"
  MAX_CACHE_SIZE :: int

type_synonym handler = "doc handler_state"

datatype coll = Settings | Users

definition user_base :: doc where
  "user_base =
     [(''_id'', PInt 0),
      (''playlist'',
         PDict [(''200'',
           PDict [(''tracks'', PList []),
                  (''perms'', PDict [(''read'', PList []), (''write'', PList []),
                                     (''remove'', PList [])]),
                  (''name'', PStr ''Favourite''),
                  (''type'', PStr ''playlist'')])]),
      (''history'', PList []),
      (''inbox'', PList [])]"

definition db_of :: "coll \<Rightarrow> 'd handler_state \<Rightarrow> doc list" where
  "db_of c s = (case c of Settings \<Rightarrow> settings_db s | Users \<Rightarrow> users_db s)"

definition db_put :: "coll \<Rightarrow> doc list \<Rightarrow> 'd handler_state \<Rightarrow> 'd handler_state" where
  "db_put c docs s =
     (case c of Settings \<Rightarrow> s\<lparr>settings_db := docs\<rparr> | Users \<Rightarrow> s\<lparr>users_db := docs\<rparr>)"

definition backend_call :: "'d handler_state \<Rightarrow> bool \<times> 'd handler_state" where
  "backend_call s = (case faults s of [] \<Rightarrow> (False, s) | f # fs \<Rightarrow> (f, s\<lparr>faults := fs\<rparr>))"

definition db_find_one :: "coll \<Rightarrow> int \<Rightarrow> 'd handler_state \<Rightarrow> (exn + doc option) \<times> 'd handler_state" where
  "db_find_one c k s =
     (case backend_call s of
        (True, s1) \<Rightarrow> (Inl PyMongoError, s1)
      | (False, s1) \<Rightarrow> (Inr (find_one k (db_of c s1)), s1))"

definition db_insert_one :: "coll \<Rightarrow> doc \<Rightarrow> 'd handler_state \<Rightarrow> (exn + unit) \<times> 'd handler_state" where
  "db_insert_one c d s =
     (case backend_call s of
        (True, s1) \<Rightarrow> (Inl PyMongoError, s1)
      | (False, s1) \<Rightarrow>
          (case insert_one d (db_of c s1) of
             Inl e \<Rightarrow> (Inl e, s1)
           | Inr docs \<Rightarrow> (Inr (), db_put c docs s1)))"

definition db_update_one ::
  "coll \<Rightarrow> int \<Rightarrow> update_data \<Rightarrow> 'd handler_state \<Rightarrow> (exn + nat) \<times> 'd handler_state" where
  "db_update_one c k data s =
     (case backend_call s of
        (True, s1) \<Rightarrow> (Inl PyMongoError, s1)
      | (False, s1) \<Rightarrow>
          (case update_one k data (db_of c s1) of
             Inl e \<Rightarrow> (Inl e, s1)
           | Inr r \<Rightarrow> (Inr (fst r), db_put c (snd r) s1)))"

definition db_delete_one :: "coll \<Rightarrow> int \<Rightarrow> 'd handler_state \<Rightarrow> (exn + nat) \<times> 'd handler_state" where
  "db_delete_one c k s =
     (case backend_call s of
        (True, s1) \<Rightarrow> (Inl PyMongoError, s1)
      | (False, s1) \<Rightarrow>
          (Inr (fst (delete_one k (db_of c s1))), db_put c (snd (delete_one k (db_of c s1))) s1))"

subsection \<open>References to documents\<close>

text \<open>
  A Python reference to a dictionary either is the object stored in \<open>_users_buffer\<close>
  (the result of \<open>get_user\<close> with \<open>need_copy=False\<close>: the entry itself, or the sub-object
  under one of its fields), or it is the result of \<open>copy.deepcopy\<close>, an object that
  nothing else refers to. Mutating through the first kind changes the cache; mutating the
  second kind changes no state of the handler.
\<close>

datatype docref =
    Live int
  | Live_field int string
  | Detached pyval

definition deref :: "handler \<Rightarrow> docref \<Rightarrow> pyval option" where
  "deref s r =
     (case r of
        Live k \<Rightarrow> map_option PDict (map_of (users_buffer s) k)
      | Live_field k f \<Rightarrow>
          (case map_of (users_buffer s) k of None \<Rightarrow> None | Some d \<Rightarrow> map_of d f)
      | Detached v \<Rightarrow> Some v)"

definition mutate :: "docref \<Rightarrow> pyval \<Rightarrow> handler \<Rightarrow> handler" where
  \<comment> \<open>the object behind the reference is mutated in place into \<open>v\<close>\<close>
  "mutate r v s =
     (case r of
        Live k \<Rightarrow>
          (case v of
             PDict d \<Rightarrow>
               if has_key k (users_buffer s)
               then s\<lparr>users_buffer := AList.update k d (users_buffer s)\<rparr> else s
           | _ \<Rightarrow> s)
      | Live_field k f \<Rightarrow>
          (case map_of (users_buffer s) k of
             None \<Rightarrow> s
           | Some d \<Rightarrow>
               if has_key f d
               then s\<lparr>users_buffer := AList.update k (AList.update f v d) (users_buffer s)\<rparr>
               else s)
      | Detached _ \<Rightarrow> s)"

subsection \<open>\<open>cleanup_cache\<close>\<close>

fun min_by_time :: "(int \<times> real) \<Rightarrow> (int \<times> real) list \<Rightarrow> (int \<times> real)" where
  \<comment> \<open>\<open>min(items, key=lambda x: x[1])\<close>: the first item with the least timestamp\<close>
  "min_by_time m [] = m"
| "min_by_time m (x # xs) = min_by_time (if snd x < snd m then x else m) xs"

definition expired_settings :: "real \<Rightarrow> 'd handler_state \<Rightarrow> int list" where
  "expired_settings current_time s =
     map fst (filter (\<lambda>(guild_id, t).
        current_time - t > real_of_int (CACHE_TTL s) \<and> has_key guild_id (settings_buffer s))
        (last_access s))"

fun remove_expired :: "int list \<Rightarrow> 'd handler_state \<Rightarrow> exn option \<times> 'd handler_state" where
  \<comment> \<open>\<open>for guild_id in expired_settings: del ...; del ...\<close>; an exception stops the loop
      with the state as it is\<close>
  "remove_expired [] s = (None, s)"
| "remove_expired (guild_id # rest) s =
     (case py_del guild_id (settings_buffer s) of
        Inl e \<Rightarrow> (Some e, s)
      | Inr sb \<Rightarrow>
          (case py_del guild_id (last_access s) of
             Inl e \<Rightarrow> (Some e, s\<lparr>settings_buffer := sb\<rparr>)
           | Inr la \<Rightarrow> remove_expired rest (s\<lparr>settings_buffer := sb, last_access := la\<rparr>)))"

function remove_oldest :: "'d handler_state \<Rightarrow> exn option \<times> 'd handler_state" where
  \<comment> \<open>\<open>while len(cls._settings_buffer) > cls._MAX_CACHE_SIZE\<close>\<close>
  "remove_oldest s =
     (if int (length (settings_buffer s)) > MAX_CACHE_SIZE s then
        (case last_access s of
           [] \<Rightarrow> (Some ValueError, s)
         | x # xs \<Rightarrow>
             (case py_del (fst (min_by_time x xs)) (settings_buffer s) of
                Inl e \<Rightarrow> (Some e, s)
              | Inr sb \<Rightarrow>
                  (case py_del (fst (min_by_time x xs)) (last_access s) of
                     Inl e \<Rightarrow> (Some e, s\<lparr>settings_buffer := sb\<rparr>)
                   | Inr la \<Rightarrow> remove_oldest (s\<lparr>settings_buffer := sb, last_access := la\<rparr>))))
      else (None, s))"
  by pat_completeness auto


lemma py_del_shorter: "py_del k d = Inr d' \<Longrightarrow> length d' < length d"
proof -
  assume a: "py_del k d = Inr d'"
  then have k: "map_of d k \<noteq> None" and d': "d' = AList.delete k d"
    by (auto simp: py_del_def has_key_def split: if_splits)
  from k obtain v where "(k, v) \<in> set d"
    by (auto dest: map_of_SomeD)
  then have "length (filter (\<lambda>(k', _). k \<noteq> k') d) < length d"
    by (intro length_filter_less[where x = "(k, v)"]) auto
  with d' show ?thesis
    by (simp add: AList.delete_eq)
qed

termination remove_oldest
  by (relation "measure (\<lambda>s. length (settings_buffer s))") (auto dest: py_del_shorter)

declare remove_oldest.simps [simp del]

definition cleanup_cache :: "real \<Rightarrow> 'd handler_state \<Rightarrow> exn option \<times> 'd handler_state" where
  \<comment> \<open>the result is the exception that the \<open>except\<close> clause logs, if any\<close>
  "cleanup_cache current_time s =
     (case remove_expired (expired_settings current_time s) s of
        (Some e, s1) \<Rightarrow> (Some e, s1)
      | (None, s1) \<Rightarrow> remove_oldest s1)"

subsection \<open>\<open>_update_db\<close>\<close>

definition rollback :: "int \<Rightarrow> handler \<Rightarrow> handler" where
  \<comment> \<open>the outer \<open>except\<close>: both buffers drop the key\<close>
  "rollback k s =
     s\<lparr>settings_buffer := AList.delete k (settings_buffer s),
       users_buffer := AList.delete k (users_buffer s)\<rparr>"

definition update_db ::
  "real \<Rightarrow> coll \<Rightarrow> docref \<Rightarrow> int \<Rightarrow> update_data \<Rightarrow> handler \<Rightarrow> (exn + bool) \<times> handler" where
  \<comment> \<open>\<open>filter_\<close> is always \<open>{"_id": k}\<close>; \<open>now\<close> is the reading of \<open>time.time()\<close>\<close>
  "update_db now db cache k data s =
     (case (case deref s cache of None \<Rightarrow> Inl KeyError | Some c \<Rightarrow> update_cache data c) of
        Inl e \<Rightarrow> (Inl Exception, rollback k s)
      | Inr c' \<Rightarrow>
          (case db_update_one db k data (mutate cache c' s) of
             (Inl e, s1) \<Rightarrow> (Inl Exception, rollback k s1)
           | (Inr n, s1) \<Rightarrow>
               (Inr (n > 0), s1\<lparr>last_access := AList.update k now (last_access s1)\<rparr>)))"

subsection \<open>Settings\<close>

definition fetch_settings :: "real \<Rightarrow> int \<Rightarrow> bool \<Rightarrow> handler \<Rightarrow> (exn + unit) \<times> handler" where
  \<comment> \<open>the block under \<open>if force_refresh or guild_id not in cls._settings_buffer\<close>\<close>
  "fetch_settings now guild_id force_refresh s =
     (if force_refresh \<or> \<not> has_key guild_id (settings_buffer s) then
        (case db_find_one Settings guild_id s of
           (Inl e, s1) \<Rightarrow> (Inl e, s1)
         | (Inr found, s1) \<Rightarrow>
             (case (if found = None \<or> found = Some []
                    then (case db_insert_one Settings [(''_id'', PInt guild_id)] s1 of
                            (Inl e, s2) \<Rightarrow> (Inl ConnectionError, s2)
                          | (Inr _, s2) \<Rightarrow> (Inr [(''_id'', PInt guild_id)], s2))
                    else (Inr (the found), s1)) of
                (Inl e, s2) \<Rightarrow> (Inl e, s2)
              | (Inr settings, s2) \<Rightarrow>
                  (Inr (),
                   s2\<lparr>settings_buffer := AList.update guild_id settings (settings_buffer s2),
                      last_access := AList.update guild_id now (last_access s2)\<rparr>)))
      else (Inr (), s))"

definition get_settings ::
  "real \<Rightarrow> int \<Rightarrow> bool \<Rightarrow> handler \<Rightarrow> (exn + docref) \<times> handler" where
  \<comment> \<open>the result is \<open>copy.deepcopy(cls._settings_buffer[guild_id])\<close>\<close>
  "get_settings now guild_id force_refresh s =
     (case fetch_settings now guild_id force_refresh s of
        (Inl e, s1) \<Rightarrow> (Inl ConnectionError, s1)
      | (Inr _, s1) \<Rightarrow> (Inr (Detached (PDict (cached (settings_buffer s1) guild_id))), s1))"

definition update_settings ::
  "real \<Rightarrow> real \<Rightarrow> int \<Rightarrow> update_data \<Rightarrow> bool \<Rightarrow> handler \<Rightarrow> (exn + bool) \<times> handler" where
  \<comment> \<open>\<open>t_get\<close> and \<open>t_upd\<close> are the clock readings of \<open>get_settings\<close> and \<open>_update_db\<close>\<close>
  "update_settings t_get t_upd guild_id data upsert s =
     (case get_settings t_get guild_id False s of
        (Inl e, s1) \<Rightarrow> (Inl ConnectionError, s1)
      | (Inr settings, s1) \<Rightarrow>
          (case update_db t_upd Settings settings guild_id data s1 of
             (Inl e, s2) \<Rightarrow> (Inl ConnectionError, s2)
           | (Inr result, s2) \<Rightarrow>
               if \<not> result \<and> upsert then
                 (case db_insert_one Settings
                         (merge_into [(''_id'', PInt guild_id)] (get_default data ''$set'' [])) s2 of
                    (Inl e, s3) \<Rightarrow> (Inl ConnectionError, s3)
                  | (Inr _, s3) \<Rightarrow>
                      (Inr True,
                       s3\<lparr>settings_buffer :=
                            AList.update guild_id
                              (merge_into [(''_id'', PInt guild_id)] (get_default data ''$set'' []))
                              (settings_buffer s3)\<rparr>))
               else (Inr result, s2)))"

subsection \<open>Users\<close>

definition fetch_user :: "real \<Rightarrow> int \<Rightarrow> bool \<Rightarrow> handler \<Rightarrow> (exn + unit) \<times> handler" where
  \<comment> \<open>the block under \<open>if force_refresh or user_id not in cls._users_buffer\<close>\<close>
  "fetch_user now user_id force_refresh s =
     (if force_refresh \<or> \<not> has_key user_id (users_buffer s) then
        (case db_find_one Users user_id s of
           (Inl e, s1) \<Rightarrow> (Inl e, s1)
         | (Inr found, s1) \<Rightarrow>
             (case (if found = None \<or> found = Some []
                    then (case db_insert_one Users
                                 (merge_into [(''_id'', PInt user_id)] user_base) s1 of
                            (Inl e, s2) \<Rightarrow> (Inl ConnectionError, s2)
                          | (Inr _, s2) \<Rightarrow>
                              (Inr (merge_into [(''_id'', PInt user_id)] user_base), s2))
                    else (Inr (the found), s1)) of
                (Inl e, s2) \<Rightarrow> (Inl e, s2)
              | (Inr user, s2) \<Rightarrow>
                  (Inr (),
                   s2\<lparr>users_buffer := AList.update user_id user (users_buffer s2),
                      last_access := AList.update user_id now (last_access s2)\<rparr>)))
      else (Inr (), s))"

definition get_user ::
  "real \<Rightarrow> int \<Rightarrow> string option \<Rightarrow> bool \<Rightarrow> bool \<Rightarrow> handler \<Rightarrow> (exn + docref) \<times> handler" where
  \<comment> \<open>\<open>if d_type:\<close> is false for \<open>None\<close> and for the empty string; \<open>setdefault\<close> stores the
      template's value in the cached document when the field is missing\<close>
  "get_user now user_id d_type need_copy force_refresh s =
     (case fetch_user now user_id force_refresh s of
        (Inl e, s1) \<Rightarrow> (Inl ConnectionError, s1)
      | (Inr _, s1) \<Rightarrow>
          (if d_type \<noteq> None \<and> d_type \<noteq> Some [] then
             (if \<not> has_key (the d_type) user_base then (Inl ConnectionError, s1)
              else
                (if need_copy
                 then Inr (Detached
                        (get_default (cached (users_buffer s1) user_id) (the d_type)
                           (get_default user_base (the d_type) PNone)))
                 else Inr (Live_field user_id (the d_type)),
                 if has_key (the d_type) (cached (users_buffer s1) user_id) then s1
                 else s1\<lparr>users_buffer :=
                        AList.update user_id
                          (AList.update (the d_type) (get_default user_base (the d_type) PNone)
                             (cached (users_buffer s1) user_id))
                          (users_buffer s1)\<rparr>))
           else
             (if need_copy
              then Inr (Detached (PDict (cached (users_buffer s1) user_id)))
              else Inr (Live user_id),
              s1)))"

definition update_user ::
  "real \<Rightarrow> real \<Rightarrow> int \<Rightarrow> update_data \<Rightarrow> bool \<Rightarrow> handler \<Rightarrow> (exn + bool) \<times> handler" where
  "update_user t_get t_upd user_id data upsert s =
     (case get_user t_get user_id None False False s of
        (Inl e, s1) \<Rightarrow> (Inl ConnectionError, s1)
      | (Inr user, s1) \<Rightarrow>
          (case update_db t_upd Users user user_id data s1 of
             (Inl e, s2) \<Rightarrow> (Inl ConnectionError, s2)
           | (Inr result, s2) \<Rightarrow>
               if \<not> result \<and> upsert then
                 (case db_insert_one Users
                         (merge_into [(''_id'', PInt user_id)] (get_default data ''$set'' [])) s2 of
                    (Inl e, s3) \<Rightarrow> (Inl ConnectionError, s3)
                  | (Inr _, s3) \<Rightarrow>
                      (Inr True,
                       s3\<lparr>users_buffer :=
                            AList.update user_id
                              (merge_into [(''_id'', PInt user_id)] (get_default data ''$set'' []))
                              (users_buffer s3)\<rparr>))
               else (Inr result, s2)))"

definition delete_user :: "int \<Rightarrow> handler \<Rightarrow> (exn + bool) \<times> handler" where
  "delete_user user_id s =
     (case db_delete_one Users user_id s of
        (Inl e, s1) \<Rightarrow> (Inl ConnectionError, s1)
      | (Inr n, s1) \<Rightarrow>
          if n > 0 then
            (Inr True,
             s1\<lparr>users_buffer := AList.delete user_id (users_buffer s1),
                last_access := AList.delete user_id (last_access s1)\<rparr>)
          else (Inr False, s1))"

fun cache_users :: "real \<Rightarrow> doc list \<Rightarrow> handler \<Rightarrow> exn option \<times> handler" where
  \<comment> \<open>\<open>for user in users: ...\<close>; \<open>user["_id"]\<close> raises KeyError on a document without the
      field. The buffers are declared \<open>Dict[int, ...]\<close> and \<open>UserData._id\<close> is an \<open>int\<close>:
      the model raises TypeError on any other key, which Python would store as it is\<close>
  "cache_users current_time [] s = (None, s)"
| "cache_users current_time (user # rest) s =
     (case map_of user ''_id'' of
        None \<Rightarrow> (Some KeyError, s)
      | Some (PInt user_id) \<Rightarrow>
          cache_users current_time rest
            (s\<lparr>users_buffer := AList.update user_id user (users_buffer s),
               last_access := AList.update user_id current_time (last_access s)\<rparr>)
      | Some _ \<Rightarrow> (Some TypeError, s))"

definition cursor :: "(doc \<Rightarrow> bool) \<Rightarrow> int option \<Rightarrow> int \<Rightarrow> doc list \<Rightarrow> doc list" where
  \<comment> \<open>\<open>cursor = find(criteria).skip(skip)\<close>, then \<open>if limit: cursor = cursor.limit(limit)\<close>;
      the truth value of \<open>limit\<close> is false for \<open>None\<close> and for 0\<close>
  "cursor criteria limit skip docs =
     (if limit \<noteq> None \<and> limit \<noteq> Some 0
      then cursor_limit (the limit) (drop (nat skip) (filter criteria docs))
      else drop (nat skip) (filter criteria docs))"

definition get_users_by_criteria ::
  "real \<Rightarrow> (doc \<Rightarrow> bool) \<Rightarrow> int option \<Rightarrow> int \<Rightarrow> handler \<Rightarrow> (exn + doc list) \<times> handler" where
  \<comment> \<open>\<open>cursor.skip\<close> raises on a negative count; \<open>to_list\<close> is the one backend call\<close>
  "get_users_by_criteria current_time criteria limit skip s =
     (if skip < 0 then (Inl ConnectionError, s)
      else
        (case backend_call s of
           (True, s1) \<Rightarrow> (Inl ConnectionError, s1)
         | (False, s1) \<Rightarrow>
             (case cache_users current_time (cursor criteria limit skip (users_db s1)) s1 of
                (Some e, s2) \<Rightarrow> (Inl ConnectionError, s2)
              | (None, s2) \<Rightarrow> (Inr (cursor criteria limit skip (users_db s1)), s2))))"

section \<open>The handler over an object store\<close>

text \<open>
  Python hands out references: \<open>_settings_buffer\<close> and \<open>_users_buffer\<close> hold the documents
  as objects, and what \<open>get_settings\<close> and \<open>get_user\<close> return is an object too. To tell
  a copy from the cached object itself, this section writes the two reads once more, over
  an explicit store: a list of objects addressed by position, in which a container holds
  atoms and addresses of other objects. Nothing is freed; a new object is appended to the
  store, so an address stays valid once it is allocated.
\<close>

subsection \<open>Objects\<close>

datatype atom = ANone | ABool bool | AInt int | AFloat real | AStr string

datatype cell = Atom atom | Ref nat

datatype obj = OList "cell list" | ODict "(string \<times> cell) list"

type_synonym store = "obj list"

text \<open>The cells a container holds, and the same container over other cells.\<close>

fun cells_of :: "obj \<Rightarrow> cell list" where
  "cells_of (OList cs) = cs"
| "cells_of (ODict kcs) = map snd kcs"

fun with_cells :: "obj \<Rightarrow> cell list \<Rightarrow> obj" where
  "with_cells (OList _) cs = OList cs"
| "with_cells (ODict kcs) cs = ODict (zip (map fst kcs) cs)"

text \<open>
  A value that enters the process (a document decoded by the driver, a dictionary display,
  a copy of a class constant) is built from new objects, the contained ones first.
\<close>

fun alloc :: "pyval \<Rightarrow> store \<Rightarrow> cell \<times> store"
  and alloc_list :: "pyval list \<Rightarrow> store \<Rightarrow> cell list \<times> store"
  and alloc_items :: "(string \<times> pyval) list \<Rightarrow> store \<Rightarrow> (string \<times> cell) list \<times> store" where
  "alloc PNone h = (Atom ANone, h)"
| "alloc (PBool b) h = (Atom (ABool b), h)"
| "alloc (PInt i) h = (Atom (AInt i), h)"
| "alloc (PFloat r) h = (Atom (AFloat r), h)"
| "alloc (PStr s) h = (Atom (AStr s), h)"
| "alloc (PList vs) h =
     (case alloc_list vs h of (cs, h1) \<Rightarrow> (Ref (length h1), h1 @ [OList cs]))"
| "alloc (PDict kvs) h =
     (case alloc_items kvs h of (kcs, h1) \<Rightarrow> (Ref (length h1), h1 @ [ODict kcs]))"
| "alloc_list [] h = ([], h)"
| "alloc_list (v # vs) h =
     (case alloc v h of (c, h1) \<Rightarrow>
        (case alloc_list vs h1 of (cs, h2) \<Rightarrow> (c # cs, h2)))"
| "alloc_items [] h = ([], h)"
| "alloc_items (kv # kvs) h =
     (case alloc (snd kv) h of (c, h1) \<Rightarrow>
        (case alloc_items kvs h1 of (kcs, h2) \<Rightarrow> ((fst kv, c) # kcs, h2)))"

subsection \<open>\<open>copy.deepcopy\<close>\<close>

text \<open>
  The copy of an atom is the atom; the copy of a container is a new container over the
  copies of what it holds. \<open>limit\<close> bounds the nesting that is followed, as the recursion
  limit of the interpreter does, and \<open>RecursionError\<close> is what exceeding it raises. The
  documents are trees, as the driver decodes them: the memo table of the library function
  is not modelled, so an object that is reachable along two paths is copied once for
  each, and a cyclic object runs into the limit.
\<close>

fun copy_cells ::
  "(store \<Rightarrow> cell \<Rightarrow> exn + cell \<times> store) \<Rightarrow> store \<Rightarrow> cell list \<Rightarrow> exn + cell list \<times> store" where
  "copy_cells f h [] = Inr ([], h)"
| "copy_cells f h (c # cs) =
     (case f h c of
        Inl e \<Rightarrow> Inl e
      | Inr r \<Rightarrow>
          (case copy_cells f (snd r) cs of
             Inl e \<Rightarrow> Inl e
           | Inr rs \<Rightarrow> Inr (fst r # fst rs, snd rs)))"

fun deepcopy :: "nat \<Rightarrow> store \<Rightarrow> cell \<Rightarrow> exn + cell \<times> store" where
  "deepcopy n h (Atom x) = Inr (Atom x, h)"
| "deepcopy 0 h (Ref a) = Inl RecursionError"
| "deepcopy (Suc n) h (Ref a) =
     (if a < length h then
        (case copy_cells (deepcopy n) h (cells_of (h ! a)) of
           Inl e \<Rightarrow> Inl e
         | Inr r \<Rightarrow> Inr (Ref (length (snd r)), snd r @ [with_cells (h ! a) (fst r)]))
      else Inl KeyError)"

subsection \<open>\<open>get_settings\<close> over the store\<close>

definition fetch_settings_st ::
  "real \<Rightarrow> int \<Rightarrow> bool \<Rightarrow> store \<Rightarrow> cell handler_state \<Rightarrow>
     (exn + unit) \<times> store \<times> cell handler_state" where
  \<comment> \<open>the block under \<open>if force_refresh or guild_id not in cls._settings_buffer\<close>: the
      document that was found, or the new \<open>{"_id": guild_id}\<close>, is the object the buffer holds\<close>
  "fetch_settings_st now guild_id force_refresh h s =
     (if force_refresh \<or> \<not> has_key guild_id (settings_buffer s) then
        (case db_find_one Settings guild_id s of
           (Inl e, s1) \<Rightarrow> (Inl e, h, s1)
         | (Inr found, s1) \<Rightarrow>
             (case (if found = None \<or> found = Some []
                    then (case db_insert_one Settings [(''_id'', PInt guild_id)] s1 of
                            (Inl e, s2) \<Rightarrow> (Inl ConnectionError, s2)
                          | (Inr _, s2) \<Rightarrow> (Inr [(''_id'', PInt guild_id)], s2))
                    else (Inr (the found), s1)) of
                (Inl e, s2) \<Rightarrow> (Inl e, h, s2)
              | (Inr settings, s2) \<Rightarrow>
                  (Inr (), snd (alloc (PDict settings) h),
                   s2\<lparr>settings_buffer :=
                        AList.update guild_id (fst (alloc (PDict settings) h)) (settings_buffer s2),
                      last_access := AList.update guild_id now (last_access s2)\<rparr>)))
      else (Inr (), h, s))"

definition get_settings_st ::
  "nat \<Rightarrow> real \<Rightarrow> int \<Rightarrow> bool \<Rightarrow> store \<Rightarrow> cell handler_state \<Rightarrow>
     (exn + cell) \<times> store \<times> cell handler_state" where
  \<comment> \<open>\<open>return copy.deepcopy(cls._settings_buffer[guild_id])\<close>; whatever is raised is raised
      again as ConnectionError\<close>
  "get_settings_st limit now guild_id force_refresh h s =
     (case fetch_settings_st now guild_id force_refresh h s of
        (Inl e, h1, s1) \<Rightarrow> (Inl ConnectionError, h1, s1)
      | (Inr _, h1, s1) \<Rightarrow>
          (case map_of (settings_buffer s1) guild_id of
             None \<Rightarrow> (Inl ConnectionError, h1, s1)
           | Some entry \<Rightarrow>
               (case deepcopy limit h1 entry of
                  Inl e \<Rightarrow> (Inl ConnectionError, h1, s1)
                | Inr r \<Rightarrow> (Inr (fst r), snd r, s1))))"

subsection \<open>\<open>get_user\<close> over the store\<close>

text \<open>
  \<open>dict.setdefault\<close>: the default is an argument, so its copy is allocated before the key
  is looked up; a missing key is added to the cached dictionary itself, at its address.
\<close>

definition fetch_user_st ::
  "real \<Rightarrow> int \<Rightarrow> bool \<Rightarrow> store \<Rightarrow> cell handler_state \<Rightarrow>
     (exn + unit) \<times> store \<times> cell handler_state" where
  \<comment> \<open>the block under \<open>if force_refresh or user_id not in cls._users_buffer\<close>\<close>
  "fetch_user_st now user_id force_refresh h s =
     (if force_refresh \<or> \<not> has_key user_id (users_buffer s) then
        (case db_find_one Users user_id s of
           (Inl e, s1) \<Rightarrow> (Inl e, h, s1)
         | (Inr found, s1) \<Rightarrow>
             (case (if found = None \<or> found = Some []
                    then (case db_insert_one Users
                                 (merge_into [(''_id'', PInt user_id)] user_base) s1 of
                            (Inl e, s2) \<Rightarrow> (Inl ConnectionError, s2)
                          | (Inr _, s2) \<Rightarrow>
                              (Inr (merge_into [(''_id'', PInt user_id)] user_base), s2))
                    else (Inr (the found), s1)) of
                (Inl e, s2) \<Rightarrow> (Inl e, h, s2)
              | (Inr user, s2) \<Rightarrow>
                  (Inr (), snd (alloc (PDict user) h),
                   s2\<lparr>users_buffer :=
                        AList.update user_id (fst (alloc (PDict user) h)) (users_buffer s2),
                      last_access := AList.update user_id now (last_access s2)\<rparr>)))
      else (Inr (), h, s))"

fun setdefault_st :: "cell \<Rightarrow> string \<Rightarrow> pyval \<Rightarrow> store \<Rightarrow> exn + cell \<times> store" where
  \<comment> \<open>\<open>user.setdefault(d_type, copy.deepcopy(cls._user_base.get(d_type)))\<close>; only a
      dictionary has the method\<close>
  "setdefault_st (Atom x) f dflt h = Inl AttributeError"
| "setdefault_st (Ref a) f dflt h =
     (if a < length h then
        (case h ! a of
           OList cs \<Rightarrow> Inl AttributeError
         | ODict kcs \<Rightarrow>
             (case map_of kcs f of
                Some c0 \<Rightarrow> Inr (c0, snd (alloc dflt h))
              | None \<Rightarrow>
                  Inr (fst (alloc dflt h),
                       (snd (alloc dflt h))[a := ODict (kcs @ [(f, fst (alloc dflt h))])])))
      else Inl KeyError)"

definition get_user_st ::
  "nat \<Rightarrow> real \<Rightarrow> int \<Rightarrow> string option \<Rightarrow> bool \<Rightarrow> bool \<Rightarrow> store \<Rightarrow> cell handler_state \<Rightarrow>
     (exn + cell) \<times> store \<times> cell handler_state" where
  \<comment> \<open>\<open>return copy.deepcopy(user) if need_copy else user\<close>, where \<open>user\<close> is the cached
      object or, for a \<open>d_type\<close>, the object under that key of it\<close>
  "get_user_st limit now user_id d_type need_copy force_refresh h s =
     (case fetch_user_st now user_id force_refresh h s of
        (Inl e, h1, s1) \<Rightarrow> (Inl ConnectionError, h1, s1)
      | (Inr _, h1, s1) \<Rightarrow>
          (case map_of (users_buffer s1) user_id of
             None \<Rightarrow> (Inl ConnectionError, h1, s1)
           | Some entry \<Rightarrow>
               (case (if d_type \<noteq> None \<and> d_type \<noteq> Some [] then
                        (if \<not> has_key (the d_type) user_base then Inl ValueError
                         else setdefault_st entry (the d_type)
                                (get_default user_base (the d_type) PNone) h1)
                      else Inr (entry, h1)) of
                  Inl e \<Rightarrow> (Inl ConnectionError, h1, s1)
                | Inr u \<Rightarrow>
                    if need_copy then
                      (case deepcopy limit (snd u) (fst u) of
                         Inl e \<Rightarrow> (Inl ConnectionError, snd u, s1)
                       | Inr r \<Rightarrow> (Inr (fst r), snd r, s1))
                    else (Inr (fst u), snd u, s1))))"

section \<open>Notions used by the properties\<close>

fun lookup_path :: "string list \<Rightarrow> pyval \<Rightarrow> pyval option" where
  \<comment> \<open>the value stored under a dotted path, if every step exists\<close>
  "lookup_path [] v = Some v"
| "lookup_path (c # cs) v =
     (case v of
        PDict d \<Rightarrow> (case map_of d c of Some w \<Rightarrow> lookup_path cs w | None \<Rightarrow> None)
      | _ \<Rightarrow> None)"

definition has_user_fields :: "doc \<Rightarrow> bool" where
  "has_user_fields d = (has_key ''playlist'' d \<and> has_key ''history'' d \<and> has_key ''inbox'' d)"

definition unsets_field :: "string \<Rightarrow> update_data \<Rightarrow> bool" where
  \<comment> \<open>the update holds a \<open>$unset\<close> edit whose path is the top-level field \<open>f\<close>\<close>
  "unsets_field f data =
     list_ex (\<lambda>ma. fst ma = ''$unset'' \<and> list_ex (\<lambda>kv. split_dot (fst kv) = [f]) (snd ma)) data"

subsection \<open>Objects and their values\<close>

text \<open>
  The value that is read from a cell by following addresses, at most \<open>n\<close> containers
  deep.
\<close>

fun atom_value :: "atom \<Rightarrow> pyval" where
  "atom_value ANone = PNone"
| "atom_value (ABool b) = PBool b"
| "atom_value (AInt i) = PInt i"
| "atom_value (AFloat r) = PFloat r"
| "atom_value (AStr s) = PStr s"

fun rebuild :: "obj \<Rightarrow> pyval list \<Rightarrow> pyval" where
  "rebuild (OList _) vs = PList vs"
| "rebuild (ODict kcs) vs = PDict (zip (map fst kcs) vs)"

fun read :: "nat \<Rightarrow> store \<Rightarrow> cell \<Rightarrow> pyval option" where
  "read n h (Atom x) = Some (atom_value x)"
| "read 0 h (Ref a) = None"
| "read (Suc n) h (Ref a) =
     (if a < length h
      then map_option (rebuild (h ! a)) (those (map (read n h) (cells_of (h ! a))))
      else None)"

text \<open>
  \<open>cell_in lo hi c\<close>: the cell is an atom or an address in \<open>[lo, hi)\<close>.
  \<open>region_closed lo hi h\<close>: the objects at the addresses \<open>[lo, hi)\<close> hold only atoms and
  addresses of that same range, so nothing outside the range is reachable from them.
\<close>

definition cell_in :: "nat \<Rightarrow> nat \<Rightarrow> cell \<Rightarrow> bool" where
  "cell_in lo hi c = (case c of Atom _ \<Rightarrow> True | Ref b \<Rightarrow> lo \<le> b \<and> b < hi)"

definition region_closed :: "nat \<Rightarrow> nat \<Rightarrow> store \<Rightarrow> bool" where
  "region_closed lo hi h =
     (hi \<le> length h \<and>
      list_all (\<lambda>a. list_all (cell_in lo hi) (cells_of (h ! a))) [lo..<hi])"

text \<open>
  What the induction on the depth carries for a copying function: it succeeds on every
  cell that can be read, its result lies in the part of the store it has appended and
  reads as the original; and where it succeeds, the original can be read.
\<close>

definition copies :: "nat \<Rightarrow> nat \<Rightarrow> (store \<Rightarrow> cell \<Rightarrow> exn + cell \<times> store) \<Rightarrow> bool" where
  "copies n lo f \<longleftrightarrow>
     (\<forall>h c v. region_closed 0 lo h \<and> cell_in 0 lo c \<and> read n h c = Some v \<longrightarrow>
        (\<exists>c' ext. f h c = Inr (c', h @ ext) \<and>
           cell_in (length h) (length h + length ext) c' \<and>
           region_closed (length h) (length h + length ext) (h @ ext) \<and>
           read n (h @ ext) c' = Some v))"

definition readable :: "nat \<Rightarrow> nat \<Rightarrow> (store \<Rightarrow> cell \<Rightarrow> exn + cell \<times> store) \<Rightarrow> bool" where
  "readable n lo f \<longleftrightarrow>
     (\<forall>h c r. region_closed 0 lo h \<and> cell_in 0 lo c \<and> f h c = Inr r \<longrightarrow>
        (\<exists>v. read n h c = Some v))"

text \<open>
  A store without dangling addresses, in which both buffers hold addresses of the store.
\<close>

definition wf_store :: "store \<Rightarrow> cell handler_state \<Rightarrow> bool" where
  "wf_store h s =
     (region_closed 0 (length h) h \<and>
      list_all (\<lambda>kc. cell_in 0 (length h) (snd kc)) (settings_buffer s) \<and>
      list_all (\<lambda>kc. cell_in 0 (length h) (snd kc)) (users_buffer s))"

text \<open>
  \<open>cache_side n h c\<close>: the cell and everything reachable from it was allocated before
  address \<open>n\<close>. \<open>fresh_side n h c\<close>: the cell and everything reachable from it was
  allocated from address \<open>n\<close> on. \<open>same_below n h h'\<close>: the store \<open>h'\<close> differs from \<open>h\<close>
  only from address \<open>n\<close> on, which is what assignments to, and through, an object of the
  fresh side produce, along with any allocation.
\<close>

definition cache_side :: "nat \<Rightarrow> store \<Rightarrow> cell \<Rightarrow> bool" where
  "cache_side n h c = (n \<le> length h \<and> cell_in 0 n c \<and> region_closed 0 n h)"

definition fresh_side :: "nat \<Rightarrow> store \<Rightarrow> cell \<Rightarrow> bool" where
  "fresh_side n h c = (cell_in n (length h) c \<and> region_closed n (length h) h)"

definition same_below :: "nat \<Rightarrow> store \<Rightarrow> store \<Rightarrow> bool" where
  "same_below n h h' = (n \<le> length h' \<and> take n h' = take n h)"

text \<open>
  The addresses met when a cell is followed at most \<open>n\<close> containers deep.
\<close>

fun reach :: "nat \<Rightarrow> store \<Rightarrow> cell \<Rightarrow> nat set" where
  "reach n h (Atom x) = {}"
| "reach 0 h (Ref a) = {a}"
| "reach (Suc n) h (Ref a) =
     insert a (if a < length h then (\<Union>x \<in> set (cells_of (h ! a)). reach n h x) else {})"

text \<open>
  The handler over the store and the handler over values describe the same state:
  the fields other than the buffers are equal, the buffers have the same keys in the same
  order, and each cached object reads as the document the other buffer holds
  (\<open>abstracts\<close>). \<open>unshared\<close>: the keys of the users buffer are distinct and the
  dictionary of a cached user is reachable from no other cache entry, so that adding a
  key to it changes no other cached document.
\<close>

definition same_cache :: "store \<Rightarrow> (int \<times> cell) list \<Rightarrow> (int \<times> doc) list \<Rightarrow> bool" where
  "same_cache h cs ds =
     list_all2 (\<lambda>kc kd. fst kc = fst kd \<and> (\<exists>n. read n h (snd kc) = Some (PDict (snd kd)))) cs ds"

definition abstracts :: "store \<Rightarrow> cell handler_state \<Rightarrow> handler \<Rightarrow> bool" where
  "abstracts h s sv =
     (settings_db sv = settings_db s \<and> users_db sv = users_db s \<and> faults sv = faults s \<and>
      CACHE_TTL sv = CACHE_TTL s \<and> last_access sv = last_access s \<and>
      MAX_CACHE_SIZE sv = MAX_CACHE_SIZE s \<and>
      same_cache h (settings_buffer s) (settings_buffer sv) \<and>
      same_cache h (users_buffer s) (users_buffer sv))"

definition unshared :: "store \<Rightarrow> cell handler_state \<Rightarrow> bool" where
  "unshared h s =
     (distinct (map fst (users_buffer s)) \<and>
      (\<forall>k a. (k, Ref a) \<in> set (users_buffer s) \<longrightarrow>
         (\<forall>k' c' n. (k', c') \<in> set (users_buffer s) \<and> k' \<noteq> k \<longrightarrow> a \<notin> reach n h c') \<and>
         (\<forall>k' c' n. (k', c') \<in> set (settings_buffer s) \<longrightarrow> a \<notin> reach n h c')))"

subsection \<open>Concrete states and inputs\<close>

definition initial :: "'d handler_state" where
  \<comment> \<open>the class attributes as the class body sets them, over empty collections\<close>
  "initial =
     \<lparr>settings_db = [], users_db = [], faults = [], CACHE_TTL = 300,
      settings_buffer = [], users_buffer = [], last_access = [], MAX_CACHE_SIZE = 10000\<rparr>"

definition guild7 :: handler where
  \<comment> \<open>after the first \<open>get_settings(7)\<close>\<close>
  "guild7 = snd (get_settings 1 7 False initial)"

definition set_prefix :: update_data where
  "set_prefix = [(''$set'', [(''prefix'', PStr ''!'')])]"

definition user42_doc :: doc where
  "user42_doc =
     [(''_id'', PInt 42), (''playlist'', PDict []), (''history'', PList []),
      (''inbox'', PList []), (''name'', PStr ''ann'')]"

definition user42 :: handler where
  \<comment> \<open>user 42 is stored in the backend and has been read once\<close>
  "user42 = snd (get_user 1 42 None True False (initial\<lparr>users_db := [user42_doc]\<rparr>))"

definition set_rank :: update_data where
  "set_rank = [(''$set'', [(''rank'', PInt 1)])]"

definition user42_ranked :: handler where
  "user42_ranked = snd (update_user 2 3 42 set_rank True user42)"

definition inc_name :: update_data where
  "inc_name = [(''$inc'', [(''name'', PInt 1)])]"

definition unset_history :: update_data where
  "unset_history = [(''$unset'', [(''history'', PInt 1)])]"

definition push_five :: pyval where
  "push_five =
     PDict [(''$each'', PList [PInt 1, PInt 2, PInt 3, PInt 4, PInt 5]), (''$slice'', PInt 3)]"

definition both42 :: handler where
  \<comment> \<open>guild 42 and user 42 are both cached\<close>
  "both42 = snd (get_settings 1 42 False user42)"

definition three_users :: handler where
  "three_users =
     initial\<lparr>users_db :=
       [[(''_id'', PInt 1)],
        [(''_id'', PInt 2), (''vip'', PBool True)],
        [(''_id'', PInt 3), (''vip'', PBool True)],
        [(''_id'', PInt 4), (''vip'', PBool True)]]\<rparr>"

definition is_expired :: "real \<Rightarrow> 'd handler_state \<Rightarrow> int \<Rightarrow> bool" where
  "is_expired now s k =
     (case map_of (last_access s) k of
        Some t \<Rightarrow> now - t > real_of_int (CACHE_TTL s)
      | None \<Rightarrow> False)"

definition unexpired :: "real \<Rightarrow> 'd handler_state \<Rightarrow> (int \<times> 'd) list" where
  \<comment> \<open>the settings entries whose timestamp, if they have one, is within the TTL\<close>
  "unexpired now s = filter (\<lambda>p. \<not> is_expired now s (fst p)) (settings_buffer s)"

definition swept :: "real \<Rightarrow> 'd handler_state \<Rightarrow> 'd handler_state" where
  \<comment> \<open>the state that one call of \<open>cleanup_cache\<close> leaves\<close>
  "swept now s = snd (cleanup_cache now s)"



definition shared42 :: handler where
  \<comment> \<open>user 42 and guild 42 read at time 2, guilds 5 and 6 at times 3 and 4, a maximum of 2\<close>
  "shared42 =
     snd (get_settings 4 6 False
       (snd (get_settings 3 5 False
         (snd (get_settings 2 42 False
           (snd (get_user 2 42 None True False
              (initial\<lparr>users_db := [user42_doc], MAX_CACHE_SIZE := 2\<rparr>))))))))"

definition user42_no_history :: handler where
  "user42_no_history = snd (update_user 2 3 42 unset_history False user42)"

text \<open>The first read of guild 7, and of user 42, from an empty store.\<close>

definition store7 :: "(exn + cell) \<times> store \<times> cell handler_state" where
  "store7 = get_settings_st 100 1 7 False [] initial"

definition store42_all :: "(exn + cell) \<times> store \<times> cell handler_state" where
  "store42_all = get_user_st 100 1 42 None True False [] (initial\<lparr>users_db := [user42_doc]\<rparr>)"

section \<open>Properties\<close>

subsection \<open>Updates of settings and the cache\<close>

text \<open>
  C1 (on the code): \<open>update_settings\<close> edits the deep copy that \<open>get_settings\<close> returned, so
  the edits never reach \<open>_settings_buffer\<close>. After a successful
  \<open>update_settings(7, {"$set": {"prefix": "!"}})\<close> on a cached guild 7 the backend holds the
  prefix, applying the edits to the cached document would give it too, and the cached
  document still is \<open>{"_id": 7}\<close>.
\<close>

theorem update_settings_leaves_cache_stale:
  "fst (update_settings 2 3 7 set_prefix False guild7) = Inr True \<and>
   map_of (settings_buffer guild7) 7 = Some [(''_id'', PInt 7)] \<and>
   update_cache set_prefix (PDict [(''_id'', PInt 7)]) =
     Inr (PDict [(''_id'', PInt 7), (''prefix'', PStr ''!'')]) \<and>
   map_of (settings_buffer (snd (update_settings 2 3 7 set_prefix False guild7))) 7 =
     Some [(''_id'', PInt 7)] \<and>
   find_one 7 (settings_db (snd (update_settings 2 3 7 set_prefix False guild7))) =
     Some [(''_id'', PInt 7), (''prefix'', PStr ''!'')]"
  by code_simp

subsection \<open>\<open>$push\<close> with \<open>$each\<close> and \<open>$slice\<close>\<close>

text \<open>
  C3 (on the code): \<open>arr[:] = arr[n:]\<close> drops the first \<open>n\<close> items for a non-negative
  \<open>n\<close>. Pushing five items with \<open>$slice: 3\<close> onto an absent field leaves the last two in
  the cache, where keeping the first three is what the specification words and what the
  backend of this model stores.
\<close>

theorem push_slice_three_keeps_last_two:
  "apply_edit ''$push'' ''history'' push_five (PDict []) =
     Inr (PDict [(''history'', PList [PInt 4, PInt 5])]) \<and>
   spec_edit ''$push'' ''history'' push_five [] =
     Inr [(''history'', PList [PInt 1, PInt 2, PInt 3])] \<and>
   map_of (cached (users_buffer
       (snd (update_user 2 3 42 [(''$push'', [(''history'', push_five)])] False user42))) 42)
     ''history'' = Some (PList [PInt 4, PInt 5]) \<and>
   map_option (\<lambda>d. map_of d ''history'') (find_one 42 (users_db
       (snd (update_user 2 3 42 [(''$push'', [(''history'', push_five)])] False user42)))) =
     Some (Some (PList [PInt 1, PInt 2, PInt 3]))"
  by code_simp

subsection \<open>A failed insert of the upsert path\<close>

text \<open>
  C5 (on the code): the rollback sits in \<open>_update_db\<close> only. When the update reports no
  modification and \<open>upsert\<close> is set, \<open>insert_one\<close> runs outside it. Repeating
  \<open>update_user(42, {"$set": {"rank": 1}}, upsert=True)\<close> makes the second call fail in the
  backend with a duplicate key; the call raises ConnectionError, user 42 stays cached, and
  the next \<open>get_user(42)\<close> answers from the cache even when the backend is unreachable.
\<close>

theorem failed_upsert_keeps_cache_entry:
  "fst (update_user 4 5 42 set_rank True user42_ranked) = Inl ConnectionError \<and>
   has_key 42 (users_buffer (snd (update_user 4 5 42 set_rank True user42_ranked))) \<and>
   fst (get_user 6 42 None True False
          (snd (update_user 4 5 42 set_rank True user42_ranked)\<lparr>faults := [True]\<rparr>)) =
     Inr (Detached (PDict (user42_doc @ [(''rank'', PInt 1)]))) \<and>
   fst (get_user 6 42 None True True
          (snd (update_user 4 5 42 set_rank True user42_ranked)\<lparr>faults := [True]\<rparr>)) =
     Inl ConnectionError"
  by code_simp

subsection \<open>Creation of the default user document\<close>

text \<open>
  C6 (on the code): \<open>{"_id": user_id, **copy.deepcopy(cls._user_base)}\<close> lets the template's
  own \<open>"_id": 0\<close> replace the user id. \<open>get_user(42)\<close> on an empty cache and backend
  returns, caches and persists the template itself; a backend read by key 42 finds
  nothing, and the next new user cannot be created because key 0 is taken.
\<close>

theorem default_user_is_stored_under_id_zero:
  "fst (get_user 1 42 None True False initial) = Inr (Detached (PDict user_base)) \<and>
   map_of user_base ''_id'' = Some (PInt 0) \<and>
   users_db (snd (get_user 1 42 None True False initial)) = [user_base] \<and>
   find_one 42 (users_db (snd (get_user 1 42 None True False initial))) = None \<and>
   fst (get_user 2 43 None True False (snd (get_user 1 42 None True False initial))) =
     Inl ConnectionError"
  by code_simp

subsection \<open>Shared facts about the backend calls\<close>

lemma backend_call_keeps:
  "backend_call s = (f, s1) \<Longrightarrow>
     users_db s1 = users_db s \<and> settings_db s1 = settings_db s \<and>
     users_buffer s1 = users_buffer s \<and> settings_buffer s1 = settings_buffer s \<and>
     last_access s1 = last_access s \<and> CACHE_TTL s1 = CACHE_TTL s \<and>
     MAX_CACHE_SIZE s1 = MAX_CACHE_SIZE s"
  by (auto simp: backend_call_def split: list.splits)

subsection \<open>A limit of 0 in \<open>get_users_by_criteria\<close>\<close>

lemma cursor_zero: "cursor crit (Some 0) skip docs = cursor crit None skip docs"
  by (simp add: cursor_def)

lemma cursor_None: "cursor crit None skip docs = drop (nat skip) (filter crit docs)"
  by (simp add: cursor_def)

text \<open>
  C10: a limit of 0 is no limit. The call with \<open>limit=0\<close> is the call with \<open>limit=None\<close>
  (same result, same effect on the cache), and when it succeeds it returns every document
  of the collection that matches the criteria, after the skipped ones.
\<close>

theorem limit_zero_means_no_limit:
  "get_users_by_criteria t crit (Some 0) skip s = get_users_by_criteria t crit None skip s \<and>
   (\<forall>docs s'. get_users_by_criteria t crit (Some 0) skip s = (Inr docs, s') \<longrightarrow>
      docs = drop (nat skip) (filter crit (users_db s)))"
proof
  show "get_users_by_criteria t crit (Some 0) skip s = get_users_by_criteria t crit None skip s"
    unfolding get_users_by_criteria_def cursor_zero by (rule refl)
next
  show "\<forall>docs s'. get_users_by_criteria t crit (Some 0) skip s = (Inr docs, s') \<longrightarrow>
      docs = drop (nat skip) (filter crit (users_db s))"
  proof (intro allI impI)
    fix docs s'
    assume a: "get_users_by_criteria t crit (Some 0) skip s = (Inr docs, s')"
    obtain f s1 where b: "backend_call s = (f, s1)" by (cases "backend_call s")
    from a b have "docs = drop (nat skip) (filter crit (users_db s1))"
      by (auto simp: get_users_by_criteria_def cursor_zero cursor_None
          split: if_splits bool.splits prod.splits option.splits)
    with backend_call_keeps[OF b] show "docs = drop (nat skip) (filter crit (users_db s))"
      by simp
  qed
qed

text \<open>
  Four stored users, three of them matching, one skipped: \<open>limit=0\<close> returns the two that
  remain, as \<open>limit=None\<close> does.
\<close>

theorem limit_zero_means_no_limit_witness:
  "get_users_by_criteria 9 (has_key ''vip'') (Some 0) 1 three_users =
     get_users_by_criteria 9 (has_key ''vip'') None 1 three_users \<and>
   fst (get_users_by_criteria 9 (has_key ''vip'') (Some 0) 1 three_users) =
     Inr [[(''_id'', PInt 3), (''vip'', PBool True)], [(''_id'', PInt 4), (''vip'', PBool True)]] \<and>
   [[(''_id'', PInt 3), (''vip'', PBool True)], [(''_id'', PInt 4), (''vip'', PBool True)]] =
     drop (nat 1) (filter (has_key ''vip'') (users_db three_users))"
proof -
  have r: "get_users_by_criteria 9 (has_key ''vip'') (Some 0) 1 three_users =
     (Inr [[(''_id'', PInt 3), (''vip'', PBool True)], [(''_id'', PInt 4), (''vip'', PBool True)]],
      snd (get_users_by_criteria 9 (has_key ''vip'') (Some 0) 1 three_users))"
    by code_simp
  note t = limit_zero_means_no_limit[of 9 "has_key ''vip''" 1 three_users]
  from t r show ?thesis
    by (metis fst_conv)
qed

subsection \<open>Facts about dictionaries, backend calls and the fetch blocks\<close>

lemma has_key_update: "has_key k (AList.update k' v d) = (k = k' \<or> has_key k d)"
  by (auto simp: has_key_def update_conv')

lemma has_key_delete: "has_key k (AList.delete k' d) = (k \<noteq> k' \<and> has_key k d)"
  by (auto simp: has_key_def delete_conv')

lemma get_default_update:
  "get_default (AList.update k' v d) k dflt = (if k = k' then v else get_default d k dflt)"
  by (simp add: get_default_def update_conv')

lemma get_default_absent: "\<not> has_key k d \<Longrightarrow> get_default d k x = x"
  by (auto simp: get_default_def has_key_def)

lemma cached_update: "cached (AList.update k' v b) k = (if k = k' then v else cached b k)"
  by (simp add: cached_def get_default_update)

lemma db_find_one_frame:
  "db_find_one c k s = (r, s1) \<Longrightarrow>
     users_db s1 = users_db s \<and> settings_db s1 = settings_db s \<and>
     users_buffer s1 = users_buffer s \<and> settings_buffer s1 = settings_buffer s \<and>
     last_access s1 = last_access s \<and> CACHE_TTL s1 = CACHE_TTL s \<and>
     MAX_CACHE_SIZE s1 = MAX_CACHE_SIZE s"
  by (auto simp: db_find_one_def backend_call_def split: list.splits bool.splits)

lemma db_insert_one_frame:
  "db_insert_one c d s = (r, s1) \<Longrightarrow>
     users_buffer s1 = users_buffer s \<and> settings_buffer s1 = settings_buffer s \<and>
     last_access s1 = last_access s \<and> CACHE_TTL s1 = CACHE_TTL s \<and>
     MAX_CACHE_SIZE s1 = MAX_CACHE_SIZE s"
  by (auto simp: db_insert_one_def backend_call_def db_put_def
      split: list.splits bool.splits sum.splits coll.splits)

lemma db_update_one_frame:
  "db_update_one c k data s = (r, s1) \<Longrightarrow>
     users_buffer s1 = users_buffer s \<and> settings_buffer s1 = settings_buffer s \<and>
     last_access s1 = last_access s \<and> CACHE_TTL s1 = CACHE_TTL s \<and>
     MAX_CACHE_SIZE s1 = MAX_CACHE_SIZE s"
  by (auto simp: db_update_one_def backend_call_def db_put_def
      split: list.splits bool.splits sum.splits coll.splits)

lemma fetch_settings_hit:
  "\<not> force \<Longrightarrow> has_key gid (settings_buffer s) \<Longrightarrow> fetch_settings now gid force s = (Inr (), s)"
  by (simp add: fetch_settings_def)

lemma fetch_user_hit:
  "\<not> force \<Longrightarrow> has_key uid (users_buffer s) \<Longrightarrow> fetch_user now uid force s = (Inr (), s)"
  by (simp add: fetch_user_def)

lemma fetch_settings_ok:
  assumes "fetch_settings now gid force s = (Inr u, s1)"
  shows "has_key gid (settings_buffer s1) \<and> users_buffer s1 = users_buffer s"
proof (cases "force \<or> \<not> has_key gid (settings_buffer s)")
  case False
  with assms show ?thesis by (simp add: fetch_settings_def)
next
  case True
  obtain r sa where f: "db_find_one Settings gid s = (r, sa)" by (cases "db_find_one Settings gid s")
  obtain q sb where i: "db_insert_one Settings [(''_id'', PInt gid)] sa = (q, sb)"
    by (cases "db_insert_one Settings [(''_id'', PInt gid)] sa")
  from assms True f i db_find_one_frame[OF f] db_insert_one_frame[OF i] show ?thesis
    by (auto simp: fetch_settings_def has_key_update split: sum.splits if_splits)
qed

lemma fetch_user_ok:
  assumes "fetch_user now uid force s = (Inr u, s1)"
  shows "has_key uid (users_buffer s1) \<and> settings_buffer s1 = settings_buffer s"
proof (cases "force \<or> \<not> has_key uid (users_buffer s)")
  case False
  with assms show ?thesis by (simp add: fetch_user_def)
next
  case True
  obtain r sa where f: "db_find_one Users uid s = (r, sa)" by (cases "db_find_one Users uid s")
  obtain q sb where i: "db_insert_one Users (merge_into [(''_id'', PInt uid)] user_base) sa = (q, sb)"
    by (cases "db_insert_one Users (merge_into [(''_id'', PInt uid)] user_base) sa")
  from assms True f i db_find_one_frame[OF f] db_insert_one_frame[OF i] show ?thesis
    by (auto simp: fetch_user_def has_key_update split: sum.splits if_splits)
qed

text \<open>
  At the level of values, \<open>get_settings\<close>, and \<open>get_user\<close> with \<open>need_copy=True\<close>, return a
  reference of the \<open>Detached\<close> kind whose value is the cached document (or the cached
  field, for a \<open>d_type\<close>); \<open>mutate\<close> on such a reference leaves the handler unchanged, and
  the next read of the same key returns the same value. That the object is indeed a
  separate one is shown over the object store, at the end.
\<close>

lemma detached_value_is_cached:
  "(get_settings now gid force s = (Inr r, s') \<longrightarrow>
      r = Detached (PDict (cached (settings_buffer s') gid)) \<and>
      has_key gid (settings_buffer s') \<and>
      mutate r v s' = s' \<and>
      get_settings now' gid False (mutate r v s') = (Inr r, s')) \<and>
   (get_user now uid d_type True force s = (Inr r, s') \<longrightarrow>
      (d_type = None \<longrightarrow> r = Detached (PDict (cached (users_buffer s') uid))) \<and>
      (\<forall>f. d_type = Some f \<and> f \<noteq> [] \<longrightarrow>
           r = Detached (get_default (cached (users_buffer s') uid) f PNone)) \<and>
      has_key uid (users_buffer s') \<and>
      mutate r v s' = s' \<and>
      get_user now' uid d_type True False (mutate r v s') = (Inr r, s'))"
proof (intro conjI impI)
  assume a: "get_settings now gid force s = (Inr r, s')"
  then have f: "fetch_settings now gid force s = (Inr (), s')"
    and r: "r = Detached (PDict (cached (settings_buffer s') gid))"
    by (auto simp: get_settings_def split: prod.splits sum.splits)
  from fetch_settings_ok[OF f] have k: "has_key gid (settings_buffer s')" by simp
  show "r = Detached (PDict (cached (settings_buffer s') gid))" by (rule r)
  show "has_key gid (settings_buffer s')" by (rule k)
  show m: "mutate r v s' = s'" by (simp add: r mutate_def)
  have "get_settings now' gid False s' = (Inr r, s')"
    by (simp add: get_settings_def fetch_settings_hit[OF _ k] r)
  then show "get_settings now' gid False (mutate r v s') = (Inr r, s')"
    by (simp only: m)
next
  assume a: "get_user now uid d_type True force s = (Inr r, s')"
  obtain s1 where f: "fetch_user now uid force s = (Inr (), s1)"
    using a by (auto simp: get_user_def split: prod.splits sum.splits)
  from fetch_user_ok[OF f] have k1: "has_key uid (users_buffer s1)" by simp
  show k: "has_key uid (users_buffer s')"
    using a f k1 by (auto simp: get_user_def has_key_update split: if_splits)
  have d: "\<exists>c. r = Detached c"
    using a f by (auto simp: get_user_def split: if_splits)
  then show m: "mutate r v s' = s'" by (auto simp: mutate_def)
  show "r = Detached (PDict (cached (users_buffer s') uid))" if "d_type = None"
    using a f that by (auto simp: get_user_def)
  show "\<forall>f. d_type = Some f \<and> f \<noteq> [] \<longrightarrow>
           r = Detached (get_default (cached (users_buffer s') uid) f PNone)"
    using a f by (auto simp: get_user_def cached_update get_default_def has_key_def update_conv'
        split: if_splits option.splits)
  have "get_user now' uid d_type True False s' = (Inr r, s')"
    using a f by (auto simp: get_user_def fetch_user_hit[OF _ k] cached_update
        get_default_update has_key_update get_default_absent split: if_splits)
  then show "get_user now' uid d_type True False (mutate r v s') = (Inr r, s')"
    by (simp only: m)
qed

text \<open>
  Guild 7 and the history of user 42: the copies are emptied or extended by the caller, and
  the cache answers as before.
\<close>

lemma detached_value_is_cached_example:
  "get_settings 1 7 False initial = (Inr (Detached (PDict [(''_id'', PInt 7)])), guild7) \<and>
   mutate (Detached (PDict [(''_id'', PInt 7)])) (PDict []) guild7 = guild7 \<and>
   get_settings 5 7 False (mutate (Detached (PDict [(''_id'', PInt 7)])) (PDict []) guild7) =
     (Inr (Detached (PDict [(''_id'', PInt 7)])), guild7) \<and>
   get_user 1 42 (Some ''history'') True False (initial\<lparr>users_db := [user42_doc]\<rparr>) =
     (Inr (Detached (PList [])), user42) \<and>
   mutate (Detached (PList [])) (PList [PInt 1]) user42 = user42 \<and>
   get_user 5 42 (Some ''history'') True False (mutate (Detached (PList [])) (PList [PInt 1]) user42) =
     (Inr (Detached (PList [])), user42)"
proof -
  have g: "get_settings 1 7 False initial = (Inr (Detached (PDict [(''_id'', PInt 7)])), guild7)"
    by code_simp
  have u: "get_user 1 42 (Some ''history'') True False (initial\<lparr>users_db := [user42_doc]\<rparr>) =
     (Inr (Detached (PList [])), user42)"
    by code_simp
  from detached_value_is_cached[where now = 1 and gid = 7 and force = False
      and s = initial and r = "Detached (PDict [(''_id'', PInt 7)])" and s' = guild7
      and v = "PDict []" and now' = 5] g
  have G: "mutate (Detached (PDict [(''_id'', PInt 7)])) (PDict []) guild7 = guild7 \<and>
   get_settings 5 7 False (mutate (Detached (PDict [(''_id'', PInt 7)])) (PDict []) guild7) =
     (Inr (Detached (PDict [(''_id'', PInt 7)])), guild7)"
    by blast
  from detached_value_is_cached[where now = 1 and uid = 42 and force = False
      and d_type = "Some ''history''" and s = "initial\<lparr>users_db := [user42_doc]\<rparr>"
      and r = "Detached (PList [])" and s' = user42
      and v = "PList [PInt 1]" and now' = 5] u
  have U: "mutate (Detached (PList [])) (PList [PInt 1]) user42 = user42 \<and>
   get_user 5 42 (Some ''history'') True False (mutate (Detached (PList [])) (PList [PInt 1]) user42) =
     (Inr (Detached (PList [])), user42)"
    by blast
  from g u G U show ?thesis by blast
qed

subsection \<open>What \<open>_update_db\<close> and its callers change\<close>

lemma mutate_frame:
  "settings_buffer (mutate r v s) = settings_buffer s \<and> last_access (mutate r v s) = last_access s \<and>
   users_db (mutate r v s) = users_db s \<and> settings_db (mutate r v s) = settings_db s \<and>
   faults (mutate r v s) = faults s \<and> CACHE_TTL (mutate r v s) = CACHE_TTL s \<and>
   MAX_CACHE_SIZE (mutate r v s) = MAX_CACHE_SIZE s"
  by (auto simp: mutate_def split: docref.splits pyval.splits option.splits)

lemma rollback_frame:
  "users_db (rollback k s) = users_db s \<and> settings_db (rollback k s) = settings_db s \<and>
   faults (rollback k s) = faults s \<and> last_access (rollback k s) = last_access s \<and>
   \<not> has_key k (users_buffer (rollback k s)) \<and> \<not> has_key k (settings_buffer (rollback k s))"
  by (simp add: rollback_def has_key_delete)

lemma update_db_success:
  assumes "update_db now db cache k data s = (Inr b, s1)"
  shows "\<exists>c c'. deref s cache = Some c \<and> update_cache data c = Inr c' \<and>
           users_buffer s1 = users_buffer (mutate cache c' s) \<and>
           settings_buffer s1 = settings_buffer s \<and>
           last_access s1 = AList.update k now (last_access s)"
proof -
  from assms obtain c where c: "deref s cache = Some c"
    by (auto simp: update_db_def split: option.splits sum.splits)
  with assms obtain c' where c': "update_cache data c = Inr c'"
    by (auto simp: update_db_def split: sum.splits)
  obtain r s2 where u: "db_update_one db k data (mutate cache c' s) = (r, s2)"
    by (cases "db_update_one db k data (mutate cache c' s)")
  from assms c c' u have "s1 = s2\<lparr>last_access := AList.update k now (last_access s2)\<rparr>"
    by (auto simp: update_db_def split: sum.splits)
  with db_update_one_frame[OF u] mutate_frame[of cache c' s] c c' show ?thesis
    by auto
qed

lemma update_db_failure:
  assumes "update_db now db cache k data s = (Inl e, s1)"
  shows "e = Exception \<and> \<not> has_key k (users_buffer s1) \<and> \<not> has_key k (settings_buffer s1)"
  using assms
  by (auto simp: update_db_def rollback_frame split: option.splits sum.splits prod.splits)

lemma update_db_rejects:
  "deref s cache = Some c \<Longrightarrow> update_cache data c = Inl e \<Longrightarrow>
     update_db now db cache k data s = (Inl Exception, rollback k s)"
  by (simp add: update_db_def)

lemma get_user_hit_live:
  "has_key k (users_buffer s) \<Longrightarrow> get_user t k None False False s = (Inr (Live k), s)"
  by (simp add: get_user_def fetch_user_hit)

lemma get_settings_hit:
  "has_key k (settings_buffer s) \<Longrightarrow>
     get_settings t k False s = (Inr (Detached (PDict (cached (settings_buffer s) k))), s)"
  by (simp add: get_settings_def fetch_settings_hit)

lemma update_user_success:
  assumes h: "has_key k (users_buffer s)"
    and u: "update_user t1 t2 k data up s = (Inr b, s')"
  shows "last_access s' = AList.update k t2 (last_access s) \<and>
         settings_buffer s' = settings_buffer s \<and> has_key k (users_buffer s')"
proof -
  obtain r s2 where d: "update_db t2 Users (Live k) k data s = (r, s2)"
    by (cases "update_db t2 Users (Live k) k data s")
  with u h obtain b2 where r: "r = Inr b2"
    by (cases r) (auto simp: update_user_def get_user_hit_live)
  from update_db_success[OF d[unfolded r]] obtain c c' where
    m: "users_buffer s2 = users_buffer (mutate (Live k) c' s)"
       "settings_buffer s2 = settings_buffer s" "last_access s2 = AList.update k t2 (last_access s)"
    by blast
  from m(1) h have k2: "has_key k (users_buffer s2)"
    by (auto simp: mutate_def has_key_update split: pyval.splits)
  obtain q s3 where i: "db_insert_one Users (merge_into [(''_id'', PInt k)] (get_default data ''$set'' [])) s2 = (q, s3)"
    by (cases "db_insert_one Users (merge_into [(''_id'', PInt k)] (get_default data ''$set'' [])) s2")
  from u h d r i db_insert_one_frame[OF i] m k2 show ?thesis
    by (auto simp: update_user_def get_user_hit_live has_key_update split: if_splits sum.splits)
qed

lemma update_settings_success:
  assumes h: "has_key k (settings_buffer s)"
    and u: "update_settings t1 t2 k data up s = (Inr b, s')"
  shows "last_access s' = AList.update k t2 (last_access s) \<and>
         users_buffer s' = users_buffer s \<and> has_key k (settings_buffer s') \<and>
         (\<not> up \<longrightarrow> settings_buffer s' = settings_buffer s)"
proof -
  let ?c = "Detached (PDict (cached (settings_buffer s) k))"
  obtain r s2 where d: "update_db t2 Settings ?c k data s = (r, s2)"
    by (cases "update_db t2 Settings ?c k data s")
  with u h obtain b2 where r: "r = Inr b2"
    by (cases r) (auto simp: update_settings_def get_settings_hit)
  from update_db_success[OF d[unfolded r]] obtain c c' where
    m: "users_buffer s2 = users_buffer (mutate ?c c' s)"
       "settings_buffer s2 = settings_buffer s" "last_access s2 = AList.update k t2 (last_access s)"
    by blast
  have m1: "users_buffer s2 = users_buffer s" using m(1) by (simp add: mutate_def)
  obtain q s3 where i: "db_insert_one Settings (merge_into [(''_id'', PInt k)] (get_default data ''$set'' [])) s2 = (q, s3)"
    by (cases "db_insert_one Settings (merge_into [(''_id'', PInt k)] (get_default data ''$set'' [])) s2")
  from u h d r i db_insert_one_frame[OF i] m m1 show ?thesis
    by (auto simp: update_settings_def get_settings_hit has_key_update split: if_splits sum.splits)
qed

subsection \<open>The timestamps that the operations write\<close>

lemma fetch_user_forced:
  assumes "fetch_user t k True s = (Inr u, s1)"
  shows "map_of (last_access s1) k = Some t"
proof -
  obtain r sa where f: "db_find_one Users k s = (r, sa)" by (cases "db_find_one Users k s")
  obtain q sb where i: "db_insert_one Users (merge_into [(''_id'', PInt k)] user_base) sa = (q, sb)"
    by (cases "db_insert_one Users (merge_into [(''_id'', PInt k)] user_base) sa")
  from assms f i show ?thesis
    by (auto simp: fetch_user_def update_conv' split: sum.splits if_splits)
qed

lemma fetch_settings_forced:
  assumes "fetch_settings t k True s = (Inr u, s1)"
  shows "map_of (last_access s1) k = Some t"
proof -
  obtain r sa where f: "db_find_one Settings k s = (r, sa)" by (cases "db_find_one Settings k s")
  obtain q sb where i: "db_insert_one Settings [(''_id'', PInt k)] sa = (q, sb)"
    by (cases "db_insert_one Settings [(''_id'', PInt k)] sa")
  from assms f i show ?thesis
    by (auto simp: fetch_settings_def update_conv' split: sum.splits if_splits)
qed

lemma get_user_last_access:
  "fetch_user t k force s = (Inr u, s1) \<Longrightarrow> get_user t k d_type nc force s = (Inr r, s') \<Longrightarrow>
     last_access s' = last_access s1"
  by (auto simp: get_user_def split: if_splits)

lemma expired_settings_iff:
  assumes "distinct (map fst (last_access s))"
  shows "k \<in> set (expired_settings now s) \<longleftrightarrow>
     has_key k (settings_buffer s) \<and>
     (\<exists>t. map_of (last_access s) k = Some t \<and> now - t > real_of_int (CACHE_TTL s))"
  using assms by (force simp: expired_settings_def)

subsection \<open>\<open>$inc\<close> on a field that is not a number\<close>

lemma split_on_nonempty: "split_on sep acc s \<noteq> []"
  by (induction s arbitrary: acc) auto

lemma split_dot_snoc: "split_dot key = butlast (split_dot key) @ [last (split_dot key)]"
  by (simp add: split_dot_def split_on_nonempty)

lemma walk_inc_non_numeric:
  "lookup_path (cs @ [f]) nested = Some v \<Longrightarrow> \<not> is_number v \<Longrightarrow>
     walk cs (edit_field ''$inc'' f delta) nested = Inl ValueError"
proof (induction cs arbitrary: nested)
  case Nil
  then show ?case
    by (auto simp: edit_field_def inc_field_def get_default_def split: pyval.splits option.splits)
next
  case (Cons c cs)
  then show ?case
    by (auto simp: get_default_def split: pyval.splits option.splits)
qed

lemma inc_non_numeric_fails:
  assumes "lookup_path (split_dot key) c = Some v" "\<not> is_number v"
  shows "apply_edit ''$inc'' key delta c = Inl ValueError"
proof -
  from assms(1) have "lookup_path (butlast (split_dot key) @ [last (split_dot key)]) c = Some v"
    using split_dot_snoc[of key] by simp
  from walk_inc_non_numeric[OF this assms(2)] show ?thesis
    by (simp add: apply_edit_def)
qed

lemma apply_action_append:
  "apply_action mode (xs @ ys) c =
     (case apply_action mode xs c of Inl e \<Rightarrow> Inl e | Inr c' \<Rightarrow> apply_action mode ys c')"
  by (induction xs arbitrary: c) (auto split: sum.splits)

lemma apply_data_append:
  "apply_data (xs @ ys) c =
     (case apply_data xs c of Inl e \<Rightarrow> Inl e | Inr c' \<Rightarrow> apply_data ys c')"
  by (induction xs arbitrary: c) (auto split: sum.splits)

lemma blocked_inc_fails:
  assumes d: "data = pre @ (''$inc'', acts1 @ (key, delta) # acts2) # post"
    and t: "\<forall>c'. apply_data (pre @ [(''$inc'', acts1)]) c = Inr c' \<longrightarrow>
              (\<exists>v. lookup_path (split_dot key) c' = Some v \<and> \<not> is_number v)"
  shows "\<exists>e. update_cache data c = Inl e"
proof (cases "apply_data (pre @ [(''$inc'', acts1)]) c")
  case (Inl e)
  then have "\<exists>e. apply_data data c = Inl e"
    by (auto simp: d apply_data_append apply_action_append split: sum.splits)
  then show ?thesis by (auto simp: update_cache_def)
next
  case (Inr c')
  with t obtain v where "lookup_path (split_dot key) c' = Some v" "\<not> is_number v" by blast
  from inc_non_numeric_fails[OF this] have "apply_edit ''$inc'' key delta c' = Inl ValueError" .
  with Inr have "\<exists>e. apply_data data c = Inl e"
    by (auto simp: d apply_data_append apply_action_append split: sum.splits)
  then show ?thesis by (auto simp: update_cache_def)
qed

lemma walk_error:
  assumes f: "\<And>n e. f n = Inl e \<Longrightarrow> e = ValueError"
  shows "walk cs f nested = Inl e \<Longrightarrow> e = ValueError"
proof (induction cs arbitrary: nested e)
  case Nil
  then show ?case using f by simp
next
  case (Cons c cs)
  show ?case
  proof (cases nested)
    case (PDict d)
    show ?thesis
    proof (cases "walk cs f (get_default d c (PDict []))")
      case (Inl e')
      from Cons.IH[OF Inl] Cons.prems PDict Inl show ?thesis by simp
    next
      case (Inr v)
      with Cons.prems PDict show ?thesis by simp
    qed
  qed (use Cons.prems in auto)
qed

lemma apply_edit_error: "apply_edit mode key val c = Inl e \<Longrightarrow> e = ValueError"
  unfolding apply_edit_def
  by (rule walk_error[of "edit_field mode (last (split_dot key)) val"])
     (auto simp: edit_field_def split: sum.splits)

lemma apply_action_error: "apply_action mode acts c = Inl e \<Longrightarrow> e = ValueError"
  by (induction acts arbitrary: c) (auto split: sum.splits dest: apply_edit_error)

lemma apply_data_error: "apply_data data c = Inl e \<Longrightarrow> e = ValueError"
  by (induction data arbitrary: c) (auto split: sum.splits dest: apply_action_error)

lemma update_cache_error: "update_cache data c = Inl e \<Longrightarrow> e = ValueError"
  by (auto simp: update_cache_def split: if_splits dest: apply_data_error)

text \<open>
  C4 (on the code): an update holding a \<open>$inc\<close> edit that finds a non-numeric value under
  its path when it is reached (in particular: the first edit, on a cached document holding
  such a value) fails for a cached key. The edit of the cache raises the ValueError of
  line 231, and that is the class the docstrings of \<open>_update_db\<close>, \<open>update_user\<close> and
  \<open>update_settings\<close> announce for invalid update data, as distinct from ConnectionError;
  but \<open>_update_db\<close> raises it again as Exception and the \<open>except\<close> clause of the caller as
  ConnectionError, so a ConnectionError is what the caller receives. No backend call is
  made: both collections and the fault schedule are as before. The key is dropped from
  both buffers, which is what is specified for an update that fails.
\<close>

theorem non_numeric_inc_raises_connection_error:
  assumes d: "data = pre @ (''$inc'', acts1 @ (key, delta) # acts2) # post"
    and t: "\<forall>c'. apply_data (pre @ [(''$inc'', acts1)]) (PDict doc) = Inr c' \<longrightarrow>
              (\<exists>v. lookup_path (split_dot key) c' = Some v \<and> \<not> is_number v)"
  shows "update_cache data (PDict doc) = Inl ValueError \<and>
         (map_of (users_buffer s) k = Some doc \<longrightarrow>
            update_user t1 t2 k data upsert s = (Inl ConnectionError, rollback k s)) \<and>
         (map_of (settings_buffer s) k = Some doc \<longrightarrow>
            update_settings t1 t2 k data upsert s = (Inl ConnectionError, rollback k s)) \<and>
         users_db (rollback k s) = users_db s \<and> settings_db (rollback k s) = settings_db s \<and>
         faults (rollback k s) = faults s \<and>
         map_of (users_buffer (rollback k s)) k = None \<and>
         map_of (settings_buffer (rollback k s)) k = None"
proof -
  from blocked_inc_fails[OF d t] obtain e where e: "update_cache data (PDict doc) = Inl e" ..
  from update_cache_error[OF e] e have v: "update_cache data (PDict doc) = Inl ValueError" by simp
  have u: "update_user t1 t2 k data upsert s = (Inl ConnectionError, rollback k s)"
    if c: "map_of (users_buffer s) k = Some doc"
  proof -
    from c have h: "has_key k (users_buffer s)" by (simp add: has_key_def)
    from c have "deref s (Live k) = Some (PDict doc)" by (simp add: deref_def)
    from update_db_rejects[OF this e] show ?thesis
      by (simp add: update_user_def get_user_hit_live[OF h])
  qed
  have g: "update_settings t1 t2 k data upsert s = (Inl ConnectionError, rollback k s)"
    if c: "map_of (settings_buffer s) k = Some doc"
  proof -
    from c have h: "has_key k (settings_buffer s)" by (simp add: has_key_def)
    from c have cd: "cached (settings_buffer s) k = doc" by (simp add: cached_def get_default_def)
    have "deref s (Detached (PDict doc)) = Some (PDict doc)" by (simp add: deref_def)
    from update_db_rejects[OF this e] show ?thesis
      by (simp add: update_settings_def get_settings_hit[OF h] cd)
  qed
  from v u g rollback_frame[of k s] show ?thesis
    by (simp add: has_key_def)
qed

text \<open>The cached user 42, whose \<open>name\<close> is a string, and \<open>{"$inc": {"name": 1}}\<close>.\<close>

theorem non_numeric_inc_raises_connection_error_witness:
  "map_of (users_buffer user42) 42 = Some user42_doc \<and>
   lookup_path (split_dot ''name'') (PDict user42_doc) = Some (PStr ''ann'') \<and>
   update_cache inc_name (PDict user42_doc) = Inl ValueError \<and>
   update_user 2 3 42 inc_name False user42 = (Inl ConnectionError, rollback 42 user42) \<and>
   users_db (rollback 42 user42) = users_db user42 \<and>
   settings_db (rollback 42 user42) = settings_db user42 \<and>
   faults (rollback 42 user42) = faults user42 \<and>
   map_of (users_buffer (rollback 42 user42)) 42 = None"
proof -
  have d: "inc_name = [] @ (''$inc'', [] @ (''name'', PInt 1) # []) # []"
    by (simp add: inc_name_def)
  have l: "lookup_path (split_dot ''name'') (PDict user42_doc) = Some (PStr ''ann'')"
    by code_simp
  have t: "\<forall>c'. apply_data ([] @ [(''$inc'', [])]) (PDict user42_doc) = Inr c' \<longrightarrow>
              (\<exists>v. lookup_path (split_dot ''name'') c' = Some v \<and> \<not> is_number v)"
    using l by auto
  have c: "map_of (users_buffer user42) 42 = Some user42_doc" by code_simp
  from non_numeric_inc_raises_connection_error[OF d t, of user42 42 2 3 False] c l
  show ?thesis by blast
qed

subsection \<open>The required fields of a user document\<close>

lemma edit_field_keeps_key:
  assumes "edit_field mode field val (PDict d) = Inr c'" "has_key f d"
    "\<not> (mode = ''$unset'' \<and> field = f)"
  shows "\<exists>d'. c' = PDict d' \<and> has_key f d'"
  using assms
  by (auto simp: edit_field_def set_field_def unset_field_def inc_field_def push_field_def
      pull_field_def has_key_update has_key_delete
      split: if_splits sum.splits pyval.splits bool.splits)

lemma walk_cons_keeps_key:
  assumes "walk (c # cs) g (PDict d) = Inr c'" "has_key f d"
  shows "\<exists>d'. c' = PDict d' \<and> has_key f d'"
  using assms by (auto simp: has_key_update split: sum.splits)

lemma apply_edit_keeps_key:
  assumes a: "apply_edit mode key val (PDict d) = Inr c'" and h: "has_key f d"
    and n: "\<not> (mode = ''$unset'' \<and> split_dot key = [f])"
  shows "\<exists>d'. c' = PDict d' \<and> has_key f d'"
proof (cases "butlast (split_dot key)")
  case Nil
  with split_dot_snoc[of key] have s: "split_dot key = [last (split_dot key)]" by simp
  with n have "\<not> (mode = ''$unset'' \<and> last (split_dot key) = f)" by auto
  with a h Nil show ?thesis
    by (auto simp: apply_edit_def intro: edit_field_keeps_key)
next
  case (Cons c cs)
  with a h show ?thesis
    by (auto simp: apply_edit_def intro: walk_cons_keeps_key)
qed

lemma apply_action_keeps_key:
  "apply_action mode acts (PDict d) = Inr c' \<Longrightarrow> has_key f d \<Longrightarrow>
     \<not> (mode = ''$unset'' \<and> list_ex (\<lambda>kv. split_dot (fst kv) = [f]) acts) \<Longrightarrow>
     \<exists>d'. c' = PDict d' \<and> has_key f d'"
proof (induction acts arbitrary: d)
  case Nil
  then show ?case by auto
next
  case (Cons kv acts)
  from Cons.prems(1) obtain c1 where
    e: "apply_edit mode (fst kv) (snd kv) (PDict d) = Inr c1" and
    r: "apply_action mode acts c1 = Inr c'"
    by (auto split: sum.splits)
  from Cons.prems(3) have "\<not> (mode = ''$unset'' \<and> split_dot (fst kv) = [f])" by auto
  from apply_edit_keeps_key[OF e Cons.prems(2) this] obtain d1 where
    d1: "c1 = PDict d1" "has_key f d1" by blast
  from Cons.prems(3) have "\<not> (mode = ''$unset'' \<and> list_ex (\<lambda>kv. split_dot (fst kv) = [f]) acts)"
    by auto
  from Cons.IH[OF r[unfolded d1(1)] d1(2) this] show ?case .
qed

lemma apply_data_keeps_key:
  "apply_data data (PDict d) = Inr c' \<Longrightarrow> has_key f d \<Longrightarrow> \<not> unsets_field f data \<Longrightarrow>
     \<exists>d'. c' = PDict d' \<and> has_key f d'"
proof (induction data arbitrary: d)
  case Nil
  then show ?case by auto
next
  case (Cons ma data)
  from Cons.prems(1) obtain c1 where
    e: "apply_action (fst ma) (snd ma) (PDict d) = Inr c1" and
    r: "apply_data data c1 = Inr c'"
    by (auto split: sum.splits)
  from Cons.prems(3) have
    "\<not> (fst ma = ''$unset'' \<and> list_ex (\<lambda>kv. split_dot (fst kv) = [f]) (snd ma))"
    by (auto simp: unsets_field_def)
  from apply_action_keeps_key[OF e Cons.prems(2) this] obtain d1 where
    d1: "c1 = PDict d1" "has_key f d1" by blast
  from Cons.prems(3) have "\<not> unsets_field f data" by (auto simp: unsets_field_def)
  from Cons.IH[OF r[unfolded d1(1)] d1(2) this] show ?case .
qed

lemma update_cache_keeps_key:
  "update_cache data (PDict d) = Inr c' \<Longrightarrow> has_key f d \<Longrightarrow> \<not> unsets_field f data \<Longrightarrow>
     \<exists>d'. c' = PDict d' \<and> has_key f d'"
  by (auto simp: update_cache_def split: if_splits intro: apply_data_keeps_key)

lemma update_user_edits_cache:
  assumes h: "has_key k (users_buffer s)"
    and u: "update_user t1 t2 k data False s = (Inr b, s')"
  shows "\<exists>c'. update_cache data (PDict (cached (users_buffer s) k)) = Inr c' \<and>
              users_buffer s' = users_buffer (mutate (Live k) c' s)"
proof -
  obtain r s2 where d: "update_db t2 Users (Live k) k data s = (r, s2)"
    by (cases "update_db t2 Users (Live k) k data s")
  with u h have r: "r = Inr b" and s2: "s2 = s'"
    by (auto simp: update_user_def get_user_hit_live split: sum.splits)
  from h have "deref s (Live k) = Some (PDict (cached (users_buffer s) k))"
    by (auto simp: deref_def cached_def get_default_def has_key_def)
  with update_db_success[OF d[unfolded r]] s2 show ?thesis by auto
qed

lemma default_user_has_fields: "has_user_fields (merge_into [(''_id'', PInt uid)] user_base)"
  by (simp add: has_user_fields_def merge_into_def user_base_def has_key_def)

lemma fetch_user_creates_default:
  assumes f: "fetch_user now uid force s = (Inr u, s1)"
    and n: "find_one uid (users_db s) = None"
    and m: "force \<or> \<not> has_key uid (users_buffer s)"
  shows "cached (users_buffer s1) uid = merge_into [(''_id'', PInt uid)] user_base"
proof -
  obtain r sa where a: "db_find_one Users uid s = (r, sa)" by (cases "db_find_one Users uid s")
  obtain q sb where i: "db_insert_one Users (merge_into [(''_id'', PInt uid)] user_base) sa = (q, sb)"
    by (cases "db_insert_one Users (merge_into [(''_id'', PInt uid)] user_base) sa")
  from a n have "r = Inr None \<or> (\<exists>e. r = Inl e)"
    by (auto simp: db_find_one_def backend_call_def db_of_def split: list.splits bool.splits)
  with f m a i show ?thesis
    by (auto simp: fetch_user_def cached_update split: sum.splits if_splits)
qed

text \<open>
  C7 as stated fails for \<open>$unset\<close>: \<open>update_user(42, {"$unset": {"history": 1}})\<close> succeeds,
  and the cached document, and what \<open>get_user(42)\<close> returns next, has no \<open>history\<close>.
\<close>

theorem unset_removes_history_field:
  "has_user_fields (cached (users_buffer user42) 42) \<and>
   fst (update_user 2 3 42 unset_history False user42) = Inr True \<and>
   map_of (cached (users_buffer (snd (update_user 2 3 42 unset_history False user42))) 42)
     ''history'' = None \<and>
   fst (get_user 4 42 None True False (snd (update_user 2 3 42 unset_history False user42))) =
     Inr (Detached (PDict [(''_id'', PInt 42), (''playlist'', PDict []), (''inbox'', PList []),
                           (''name'', PStr ''ann'')]))"
  by code_simp

text \<open>
  C7 (amended): the user document that \<open>get_user\<close> creates for a key absent from the
  backend has \<open>playlist\<close>, \<open>history\<close> and \<open>inbox\<close>; a successful \<open>update_user\<close> without
  \<open>upsert\<close> keeps the three fields of a cached document unless the update holds a \<open>$unset\<close>
  of one of these top-level names; and \<open>get_user\<close> with a \<open>d_type\<close> leaves that field
  present in the cached document.
\<close>

theorem user_fields_kept_without_unset:
  "(find_one uid (users_db s) = None \<and> (force \<or> \<not> has_key uid (users_buffer s)) \<and>
      get_user now uid None nc force s = (Inr r, s') \<longrightarrow>
      has_user_fields (cached (users_buffer s') uid)) \<and>
   (has_key uid (users_buffer s) \<and> has_user_fields (cached (users_buffer s) uid) \<and>
      \<not> unsets_field ''playlist'' data \<and> \<not> unsets_field ''history'' data \<and>
      \<not> unsets_field ''inbox'' data \<and>
      update_user t1 t2 uid data False s = (Inr b, s') \<longrightarrow>
      has_user_fields (cached (users_buffer s') uid)) \<and>
   (f \<noteq> [] \<and> get_user now uid (Some f) nc force s = (Inr r, s') \<longrightarrow>
      has_key f user_base \<and> has_key f (cached (users_buffer s') uid))"
proof (intro conjI impI)
  assume a: "find_one uid (users_db s) = None \<and> (force \<or> \<not> has_key uid (users_buffer s)) \<and>
      get_user now uid None nc force s = (Inr r, s')"
  then obtain s1 where f: "fetch_user now uid force s = (Inr (), s1)"
    by (auto simp: get_user_def split: prod.splits sum.splits)
  with a have "s' = s1" by (auto simp: get_user_def)
  with fetch_user_creates_default[OF f] a default_user_has_fields
  show "has_user_fields (cached (users_buffer s') uid)" by simp
next
  assume a: "has_key uid (users_buffer s) \<and> has_user_fields (cached (users_buffer s) uid) \<and>
      \<not> unsets_field ''playlist'' data \<and> \<not> unsets_field ''history'' data \<and>
      \<not> unsets_field ''inbox'' data \<and>
      update_user t1 t2 uid data False s = (Inr b, s')"
  then have h: "has_key uid (users_buffer s)"
    and u: "update_user t1 t2 uid data False s = (Inr b, s')" by simp_all
  from update_user_edits_cache[OF h u] obtain c' where
    c: "update_cache data (PDict (cached (users_buffer s) uid)) = Inr c'"
    and b: "users_buffer s' = users_buffer (mutate (Live uid) c' s)" by blast
  from a have k: "has_key ''playlist'' (cached (users_buffer s) uid)"
    "has_key ''history'' (cached (users_buffer s) uid)"
    "has_key ''inbox'' (cached (users_buffer s) uid)"
    by (simp_all add: has_user_fields_def)
  from a update_cache_keeps_key[OF c k(1)] obtain d' where d': "c' = PDict d'"
    and p: "has_key ''playlist'' d'" by blast
  from a update_cache_keeps_key[OF c k(2)] d' have hi: "has_key ''history'' d'" by auto
  from a update_cache_keeps_key[OF c k(3)] d' have i: "has_key ''inbox'' d'" by auto
  from b d' h have "cached (users_buffer s') uid = d'"
    by (simp add: mutate_def cached_update)
  with p hi i show "has_user_fields (cached (users_buffer s') uid)"
    by (simp add: has_user_fields_def)
next
  assume a: "f \<noteq> [] \<and> get_user now uid (Some f) nc force s = (Inr r, s')"
  then obtain s1 where f: "fetch_user now uid force s = (Inr (), s1)"
    by (auto simp: get_user_def split: prod.splits sum.splits)
  from a f show "has_key f user_base"
    by (auto simp: get_user_def split: if_splits)
  from a f show "has_key f (cached (users_buffer s') uid)"
    by (auto simp: get_user_def cached_update has_key_update split: if_splits)
qed

text \<open>
  A new user 42, \<open>{"$set": {"rank": 1}}\<close> on the stored user 42, and a read of \<open>history\<close>
  after its removal.
\<close>

theorem user_fields_kept_without_unset_witness:
  "find_one 42 (users_db initial) = None \<and>
   get_user 1 42 None True False initial =
     (Inr (Detached (PDict user_base)), snd (get_user 1 42 None True False initial)) \<and>
   has_user_fields (cached (users_buffer (snd (get_user 1 42 None True False initial))) 42) \<and>
   has_key 42 (users_buffer user42) \<and>
   update_user 2 3 42 set_rank False user42 =
     (Inr True, snd (update_user 2 3 42 set_rank False user42)) \<and>
   has_user_fields (cached (users_buffer (snd (update_user 2 3 42 set_rank False user42))) 42) \<and>
   get_user 5 42 (Some ''history'') True False user42_no_history =
     (Inr (Detached (PList [])), snd (get_user 5 42 (Some ''history'') True False user42_no_history)) \<and>
   has_key ''history''
     (cached (users_buffer (snd (get_user 5 42 (Some ''history'') True False user42_no_history))) 42)"
proof -
  have a1: "find_one 42 (users_db initial) = None" by code_simp
  have a2: "\<not> has_key 42 (users_buffer initial)" by code_simp
  have a3: "get_user 1 42 None True False initial =
     (Inr (Detached (PDict user_base)), snd (get_user 1 42 None True False initial))" by code_simp
  have b1: "has_key 42 (users_buffer user42)" by code_simp
  have b2: "has_user_fields (cached (users_buffer user42) 42)" by code_simp
  have b3: "\<not> unsets_field ''playlist'' set_rank" "\<not> unsets_field ''history'' set_rank"
    "\<not> unsets_field ''inbox'' set_rank" by code_simp+
  have b4: "update_user 2 3 42 set_rank False user42 =
     (Inr True, snd (update_user 2 3 42 set_rank False user42))" by code_simp
  have c1: "get_user 5 42 (Some ''history'') True False user42_no_history =
     (Inr (Detached (PList [])), snd (get_user 5 42 (Some ''history'') True False user42_no_history))"
    by code_simp
  from user_fields_kept_without_unset[where uid = 42 and s = initial and force = False
      and now = 1 and nc = True and r = "Detached (PDict user_base)"
      and s' = "snd (get_user 1 42 None True False initial)"] a1 a2 a3
  have A: "has_user_fields (cached (users_buffer (snd (get_user 1 42 None True False initial))) 42)"
    by blast
  from user_fields_kept_without_unset[where uid = 42 and s = user42 and data = set_rank
      and ?t1.0 = 2 and ?t2.0 = 3 and b = True
      and s' = "snd (update_user 2 3 42 set_rank False user42)"] b1 b2 b3 b4
  have B: "has_user_fields (cached (users_buffer (snd (update_user 2 3 42 set_rank False user42))) 42)"
    by blast
  from user_fields_kept_without_unset[where uid = 42 and s = user42_no_history
      and f = "''history''" and now = 5 and nc = True and force = False
      and r = "Detached (PList [])"
      and s' = "snd (get_user 5 42 (Some ''history'') True False user42_no_history)"] c1
  have C: "has_key ''history''
     (cached (users_buffer (snd (get_user 5 42 (Some ''history'') True False user42_no_history))) 42)"
    by simp
  from a1 a3 A b1 b4 B c1 C show ?thesis by blast
qed

subsection \<open>The maintenance sweep\<close>

lemma has_key_iff: "has_key k d \<longleftrightarrow> k \<in> fst ` set d"
  by (simp add: has_key_def map_of_eq_None_iff)

lemma py_del_present: "has_key k d \<Longrightarrow> py_del k d = Inr (filter (\<lambda>p. fst p \<noteq> k) d)"
  by (simp add: py_del_def AList.delete_eq case_prod_unfold eq_commute)

lemma py_del_Inr: "py_del k d = Inr d' \<Longrightarrow> has_key k d \<and> d' = filter (\<lambda>p. fst p \<noteq> k) d"
  by (auto simp: py_del_def AList.delete_eq case_prod_unfold eq_commute split: if_splits)

lemma remove_expired_all:
  "distinct ks \<Longrightarrow> \<forall>k \<in> set ks. has_key k (settings_buffer s) \<and> has_key k (last_access s) \<Longrightarrow>
     remove_expired ks s =
       (None, s\<lparr>settings_buffer := filter (\<lambda>p. fst p \<notin> set ks) (settings_buffer s),
                last_access := filter (\<lambda>p. fst p \<notin> set ks) (last_access s)\<rparr>)"
proof (induction ks arbitrary: s)
  case Nil
  then show ?case by simp
next
  case (Cons k ks)
  let ?s1 = "s\<lparr>settings_buffer := filter (\<lambda>p. fst p \<noteq> k) (settings_buffer s),
                last_access := filter (\<lambda>p. fst p \<noteq> k) (last_access s)\<rparr>"
  from Cons.prems have d: "distinct ks" and nk: "k \<notin> set ks" by simp_all
  from Cons.prems(2) nk have "\<forall>k' \<in> set ks. has_key k' (settings_buffer ?s1) \<and> has_key k' (last_access ?s1)"
    by (force simp: has_key_iff)
  from Cons.IH[OF d this] Cons.prems(2) show ?case
    by (simp add: py_del_present conj_commute)
qed

lemma expired_settings_distinct:
  "distinct (map fst (last_access s)) \<Longrightarrow> distinct (expired_settings now s)"
  by (simp add: expired_settings_def distinct_map_filter)

lemma expired_settings_present:
  "k \<in> set (expired_settings now s) \<Longrightarrow> has_key k (settings_buffer s) \<and> has_key k (last_access s)"
  by (force simp: expired_settings_def has_key_iff)

lemma ttl_phase:
  assumes "distinct (map fst (last_access s))"
  shows "remove_expired (expired_settings now s) s =
       (None, s\<lparr>settings_buffer :=
                  filter (\<lambda>p. fst p \<notin> set (expired_settings now s)) (settings_buffer s),
                last_access :=
                  filter (\<lambda>p. fst p \<notin> set (expired_settings now s)) (last_access s)\<rparr>)"
  by (rule remove_expired_all[OF expired_settings_distinct[OF assms]])
     (auto dest: expired_settings_present)

lemma min_by_time_in: "min_by_time m xs \<in> set (m # xs)"
  by (induction xs arbitrary: m) auto

lemma min_by_time_le: "y \<in> set (m # xs) \<Longrightarrow> snd (min_by_time m xs) \<le> snd y"
proof (induction xs arbitrary: m y)
  case Nil
  then show ?case by simp
next
  case (Cons x xs)
  let ?m = "if snd x < snd m then x else m"
  have a: "snd (min_by_time ?m xs) \<le> snd ?m"
    using Cons.IH[of ?m ?m] by simp
  show ?case
  proof (cases "y \<in> set xs")
    case True
    then show ?thesis using Cons.IH[of y ?m] by simp
  next
    case False
    with Cons.prems have "y = m \<or> y = x" by auto
    with a show ?thesis by (auto split: if_splits)
  qed
qed

lemma remove_oldest_done:
  "\<not> int (length (settings_buffer s)) > MAX_CACHE_SIZE s \<Longrightarrow> remove_oldest s = (None, s)"
  by (subst remove_oldest.simps) simp

lemma remove_oldest_empty:
  "int (length (settings_buffer s)) > MAX_CACHE_SIZE s \<Longrightarrow> last_access s = [] \<Longrightarrow>
     remove_oldest s = (Some ValueError, s)"
  by (subst remove_oldest.simps) simp

lemma remove_oldest_missing:
  "int (length (settings_buffer s)) > MAX_CACHE_SIZE s \<Longrightarrow> last_access s = x # xs \<Longrightarrow>
     \<not> has_key (fst (min_by_time x xs)) (settings_buffer s) \<Longrightarrow>
     remove_oldest s = (Some KeyError, s)"
  by (subst remove_oldest.simps) (simp add: py_del_def)

lemma remove_oldest_step:
  assumes "int (length (settings_buffer s)) > MAX_CACHE_SIZE s"
    and "last_access s = x # xs"
    and "has_key (fst (min_by_time x xs)) (settings_buffer s)"
  shows "remove_oldest s =
     remove_oldest
       (s\<lparr>settings_buffer := filter (\<lambda>p. fst p \<noteq> fst (min_by_time x xs)) (settings_buffer s),
          last_access := filter (\<lambda>p. fst p \<noteq> fst (min_by_time x xs)) (last_access s)\<rparr>)"
proof -
  have "has_key (fst (min_by_time x xs)) (last_access s)"
    using min_by_time_in[of x xs] assms(2) by (force simp: has_key_iff simp del: set_simps)
  with assms show ?thesis
    by (subst remove_oldest.simps) (simp add: py_del_present)
qed

lemma filter_key_shorter:
  "has_key k d \<Longrightarrow> length (filter (\<lambda>p. fst p \<noteq> k) d) < length d"
  using py_del_shorter[of k d] by (simp add: py_del_present)

lemma remove_oldest_frame:
  "users_buffer (snd (remove_oldest s)) = users_buffer s \<and>
   settings_db (snd (remove_oldest s)) = settings_db s \<and>
   users_db (snd (remove_oldest s)) = users_db s \<and>
   (\<forall>k. has_key k (settings_buffer (snd (remove_oldest s))) \<longrightarrow> has_key k (settings_buffer s))"
proof (induction "length (settings_buffer s)" arbitrary: s rule: less_induct)
  case less
  show ?case
  proof (cases "int (length (settings_buffer s)) > MAX_CACHE_SIZE s")
    case False
    then show ?thesis by (simp add: remove_oldest_done)
  next
    case True
    show ?thesis
    proof (cases "last_access s")
      case Nil
      with True show ?thesis by (simp add: remove_oldest_empty)
    next
      case (Cons x xs)
      show ?thesis
      proof (cases "has_key (fst (min_by_time x xs)) (settings_buffer s)")
        case False
        with True Cons show ?thesis by (simp add: remove_oldest_missing)
      next
        case h: True
        let ?s1 = "s\<lparr>settings_buffer := filter (\<lambda>p. fst p \<noteq> fst (min_by_time x xs)) (settings_buffer s),
          last_access := filter (\<lambda>p. fst p \<noteq> fst (min_by_time x xs)) (last_access s)\<rparr>"
        have "length (settings_buffer ?s1) < length (settings_buffer s)"
          using filter_key_shorter[OF h] by simp
        from less[OF this] show ?thesis
          by (auto simp: remove_oldest_step[OF True Cons h] has_key_iff)
      qed
    qed
  qed
qed

lemma map_of_filter_other:
  "k \<noteq> k0 \<Longrightarrow> map_of (filter (\<lambda>p. fst p \<noteq> k0) d) k = map_of d k"
  by (induction d) auto

lemma keys_filter_other: "fst ` set (filter (\<lambda>p. fst p \<noteq> k) d) = fst ` set d - {k}"
  by (induction d) auto

lemma remove_oldest_trims:
  assumes "fst ` set (last_access s) = fst ` set (settings_buffer s)"
    and "distinct (map fst (last_access s))"
    and "0 \<le> MAX_CACHE_SIZE s"
  shows "fst (remove_oldest s) = None \<and>
         int (length (settings_buffer (snd (remove_oldest s)))) \<le> MAX_CACHE_SIZE s \<and>
         (\<forall>k k' t t'.
             has_key k (settings_buffer s) \<and>
             \<not> has_key k (settings_buffer (snd (remove_oldest s))) \<and>
             has_key k' (settings_buffer (snd (remove_oldest s))) \<and>
             map_of (last_access s) k = Some t \<and> map_of (last_access s) k' = Some t'
             \<longrightarrow> t \<le> t')"
  using assms
proof (induction "length (settings_buffer s)" arbitrary: s rule: less_induct)
  case less
  show ?case
  proof (cases "int (length (settings_buffer s)) > MAX_CACHE_SIZE s")
    case False
    then show ?thesis by (auto simp: remove_oldest_done)
  next
    case True
    with less.prems(3) have "settings_buffer s \<noteq> []" by auto
    then have "fst ` set (settings_buffer s) \<noteq> {}" by simp
    with less.prems(1) have "last_access s \<noteq> []" by auto
    then obtain x xs where Cons: "last_access s = x # xs" by (cases "last_access s") auto
    let ?m = "min_by_time x xs"
    let ?k0 = "fst ?m"
    have m_in: "?m \<in> set (last_access s)" using min_by_time_in[of x xs] Cons by simp
    then have "?k0 \<in> fst ` set (last_access s)" by (rule imageI)
    with less.prems(1) have h: "has_key ?k0 (settings_buffer s)" by (simp add: has_key_iff)
    let ?s1 = "s\<lparr>settings_buffer := filter (\<lambda>p. fst p \<noteq> ?k0) (settings_buffer s),
          last_access := filter (\<lambda>p. fst p \<noteq> ?k0) (last_access s)\<rparr>"
    have step: "remove_oldest s = remove_oldest ?s1" by (rule remove_oldest_step[OF True Cons h])
    have len: "length (settings_buffer ?s1) < length (settings_buffer s)"
      using filter_key_shorter[OF h] by simp
    have "fst ` set (filter (\<lambda>p. fst p \<noteq> ?k0) (last_access s)) =
          fst ` set (filter (\<lambda>p. fst p \<noteq> ?k0) (settings_buffer s))"
      using less.prems(1) by (simp only: keys_filter_other)
    then have i1: "fst ` set (last_access ?s1) = fst ` set (settings_buffer ?s1)"
      by simp
    have i2: "distinct (map fst (last_access ?s1))"
      using less.prems(2) by (simp add: distinct_map_filter)
    have i3: "0 \<le> MAX_CACHE_SIZE ?s1" using less.prems(3) by simp
    note IH = less.hyps[OF len i1 i2 i3]
    have m_stamp: "map_of (last_access s) ?k0 = Some (snd ?m)"
      using less.prems(2) m_in by (metis map_of_is_SomeI prod.collapse)
    have lru: "t \<le> t'"
      if a: "has_key k (settings_buffer s)"
        "\<not> has_key k (settings_buffer (snd (remove_oldest s)))"
        "has_key k' (settings_buffer (snd (remove_oldest s)))"
        "map_of (last_access s) k = Some t" "map_of (last_access s) k' = Some t'"
      for k k' t t'
    proof -
      from a(3) remove_oldest_frame[of ?s1] have k1: "has_key k' (settings_buffer ?s1)"
        by (simp add: step)
      then have ne': "k' \<noteq> ?k0" by (auto simp: has_key_iff)
      show ?thesis
      proof (cases "k = ?k0")
        case True
        with a(4) m_stamp have "t = snd ?m" by simp
        moreover from a(5) have "(k', t') \<in> set (last_access s)"
          by (rule map_of_SomeD)
        then have "(k', t') \<in> set (x # xs)"
          by (simp only: Cons)
        ultimately show ?thesis using min_by_time_le[of "(k', t')" x xs] by simp
      next
        case False
        with a(1) have "has_key k (settings_buffer ?s1)" by (auto simp: has_key_iff)
        moreover from a(2) have "\<not> has_key k (settings_buffer (snd (remove_oldest ?s1)))"
          by (simp add: step)
        moreover from a(3) have "has_key k' (settings_buffer (snd (remove_oldest ?s1)))"
          by (simp add: step)
        moreover from a(4) False have "map_of (last_access ?s1) k = Some t"
          by (simp add: map_of_filter_other)
        moreover from a(5) ne' have "map_of (last_access ?s1) k' = Some t'"
          by (simp add: map_of_filter_other)
        ultimately show ?thesis using IH by blast
      qed
    qed
    from IH have "fst (remove_oldest s) = None"
      and "int (length (settings_buffer (snd (remove_oldest s)))) \<le> MAX_CACHE_SIZE s"
      by (simp_all add: step)
    with lru show ?thesis by blast
  qed
qed

lemma map_of_filter_notin:
  "k \<notin> S \<Longrightarrow> map_of (filter (\<lambda>p. fst p \<notin> S) d) k = map_of d k"
  by (induction d) auto

lemma keys_filter_notin: "fst ` set (filter (\<lambda>p. fst p \<notin> S) d) = fst ` set d - S"
  by (induction d) auto

lemma expired_settings_is_expired:
  assumes "distinct (map fst (last_access s))"
  shows "k \<in> set (expired_settings now s) \<longleftrightarrow> has_key k (settings_buffer s) \<and> is_expired now s k"
  using expired_settings_iff[OF assms, of k now]
  by (auto simp: is_expired_def split: option.splits)

text \<open>
  The trimming loop, from any state whose buffer and timestamp map are dictionaries: it
  removes a set \<open>R\<close> of keys from both; each key removed had a timestamp no later than
  every timestamp that is left; when the loop ends normally it has removed nothing from a
  buffer within the maximum and has brought a larger one down to exactly the maximum;
  when it raises, the buffer is still above the maximum, and either no timestamp is left
  (ValueError from \<open>min\<close>) or the key with the least timestamp is not in the buffer
  (KeyError from \<open>del\<close>).
\<close>

lemma filter_key_length:
  "distinct (map fst d) \<Longrightarrow> has_key k d \<Longrightarrow>
     Suc (length (filter (\<lambda>p. fst p \<noteq> k) d)) = length d"
proof (induction d)
  case Nil
  then show ?case by (simp add: has_key_def)
next
  case (Cons x d)
  show ?case
  proof (cases "fst x = k")
    case True
    with Cons.prems(1) have "\<forall>p \<in> set d. fst p \<noteq> k" by (force simp: image_iff)
    then have "filter (\<lambda>p. fst p \<noteq> k) d = d" by (simp add: filter_id_conv)
    with True show ?thesis by simp
  next
    case False
    with Cons.prems(2) have "has_key k d" by (cases x) (auto simp: has_key_def)
    with Cons.IH Cons.prems(1) False show ?thesis by simp
  qed
qed

lemma has_key_filter: "has_key k (filter (\<lambda>p. fst p \<notin> R) d) \<longleftrightarrow> has_key k d \<and> k \<notin> R"
  by (auto simp: has_key_iff)

lemma remove_oldest_spec:
  assumes "distinct (map fst (last_access s))" and "distinct (map fst (settings_buffer s))"
  shows "\<exists>R. snd (remove_oldest s) =
               s\<lparr>settings_buffer := filter (\<lambda>p. fst p \<notin> R) (settings_buffer s),
                 last_access := filter (\<lambda>p. fst p \<notin> R) (last_access s)\<rparr> \<and>
             R \<subseteq> fst ` set (settings_buffer s) \<inter> fst ` set (last_access s) \<and>
             (\<forall>k t k' t'. k \<in> R \<and> map_of (last_access s) k = Some t \<and>
                  map_of (last_access (snd (remove_oldest s))) k' = Some t' \<longrightarrow> t \<le> t') \<and>
             (fst (remove_oldest s) = None \<longrightarrow>
                (int (length (settings_buffer s)) \<le> MAX_CACHE_SIZE s \<longrightarrow> R = {}) \<and>
                (MAX_CACHE_SIZE s < int (length (settings_buffer s)) \<longrightarrow>
                   int (length (settings_buffer (snd (remove_oldest s)))) = MAX_CACHE_SIZE s)) \<and>
             (\<forall>e. fst (remove_oldest s) = Some e \<longrightarrow>
                MAX_CACHE_SIZE s < int (length (settings_buffer (snd (remove_oldest s)))) \<and>
                (e = ValueError \<and> last_access (snd (remove_oldest s)) = [] \<or>
                 e = KeyError \<and> last_access (snd (remove_oldest s)) \<noteq> [] \<and>
                 \<not> has_key
                      (fst (min_by_time (hd (last_access (snd (remove_oldest s))))
                                        (tl (last_access (snd (remove_oldest s))))))
                      (settings_buffer (snd (remove_oldest s)))))"
  using assms
proof (induction "length (settings_buffer s)" arbitrary: s rule: less_induct)
  case less
  show ?case
  proof (cases "int (length (settings_buffer s)) > MAX_CACHE_SIZE s")
    case False
    then have "remove_oldest s = (None, s)" by (rule remove_oldest_done)
    with False show ?thesis by (intro exI[of _ "{}"]) simp
  next
    case True
    show ?thesis
    proof (cases "last_access s")
      case Nil
      with True have "remove_oldest s = (Some ValueError, s)" by (simp add: remove_oldest_empty)
      with True Nil show ?thesis by (intro exI[of _ "{}"]) simp
    next
      case (Cons x xs)
      let ?m = "min_by_time x xs"
      let ?k0 = "fst ?m"
      show ?thesis
      proof (cases "has_key ?k0 (settings_buffer s)")
        case False
        with True Cons have "remove_oldest s = (Some KeyError, s)"
          by (simp add: remove_oldest_missing)
        with True Cons False show ?thesis by (intro exI[of _ "{}"]) simp
      next
        case h: True
        let ?s1 = "s\<lparr>settings_buffer := filter (\<lambda>p. fst p \<noteq> ?k0) (settings_buffer s),
                     last_access := filter (\<lambda>p. fst p \<noteq> ?k0) (last_access s)\<rparr>"
        have step: "remove_oldest s = remove_oldest ?s1" by (rule remove_oldest_step[OF True Cons h])
        have len: "length (settings_buffer ?s1) < length (settings_buffer s)"
          using filter_key_shorter[OF h] by simp
        have len1: "Suc (length (settings_buffer ?s1)) = length (settings_buffer s)"
          using filter_key_length[OF less.prems(2) h] by simp
        have d1: "distinct (map fst (last_access ?s1))" "distinct (map fst (settings_buffer ?s1))"
          using less.prems by (simp_all add: distinct_map_filter)
        from less.hyps[OF len d1] obtain R1 where IH:
          "snd (remove_oldest ?s1) =
               ?s1\<lparr>settings_buffer := filter (\<lambda>p. fst p \<notin> R1) (settings_buffer ?s1),
                   last_access := filter (\<lambda>p. fst p \<notin> R1) (last_access ?s1)\<rparr> \<and>
             R1 \<subseteq> fst ` set (settings_buffer ?s1) \<inter> fst ` set (last_access ?s1) \<and>
             (\<forall>k t k' t'. k \<in> R1 \<and> map_of (last_access ?s1) k = Some t \<and>
                  map_of (last_access (snd (remove_oldest ?s1))) k' = Some t' \<longrightarrow> t \<le> t') \<and>
             (fst (remove_oldest ?s1) = None \<longrightarrow>
                (int (length (settings_buffer ?s1)) \<le> MAX_CACHE_SIZE ?s1 \<longrightarrow> R1 = {}) \<and>
                (MAX_CACHE_SIZE ?s1 < int (length (settings_buffer ?s1)) \<longrightarrow>
                   int (length (settings_buffer (snd (remove_oldest ?s1)))) = MAX_CACHE_SIZE ?s1)) \<and>
             (\<forall>e. fst (remove_oldest ?s1) = Some e \<longrightarrow>
                MAX_CACHE_SIZE ?s1 < int (length (settings_buffer (snd (remove_oldest ?s1)))) \<and>
                (e = ValueError \<and> last_access (snd (remove_oldest ?s1)) = [] \<or>
                 e = KeyError \<and> last_access (snd (remove_oldest ?s1)) \<noteq> [] \<and>
                 \<not> has_key
                      (fst (min_by_time (hd (last_access (snd (remove_oldest ?s1))))
                                        (tl (last_access (snd (remove_oldest ?s1))))))
                      (settings_buffer (snd (remove_oldest ?s1)))))" ..
        note a = IH[THEN conjunct1]
        note b = IH[THEN conjunct2, THEN conjunct1]
        have c: "t \<le> t'" if "k \<in> R1" "map_of (last_access ?s1) k = Some t"
            "map_of (last_access (snd (remove_oldest ?s1))) k' = Some t'" for k t k' t'
          using IH[THEN conjunct2, THEN conjunct2, THEN conjunct1] that by blast
        note d = IH[THEN conjunct2, THEN conjunct2, THEN conjunct2, THEN conjunct1, THEN mp]
        note e = IH[THEN conjunct2, THEN conjunct2, THEN conjunct2, THEN conjunct2, THEN spec, THEN mp]
        let ?R = "insert ?k0 R1"
        have m_in: "?m \<in> set (last_access s)" using min_by_time_in[of x xs] Cons by simp
        have f: "filter (\<lambda>p. fst p \<notin> R1) (filter (\<lambda>p. fst p \<noteq> ?k0) l) =
                 filter (\<lambda>p. fst p \<notin> ?R) l" for l :: "(int \<times> 'b) list"
          by (simp add: conj_commute)
        have A: "snd (remove_oldest s) =
               s\<lparr>settings_buffer := filter (\<lambda>p. fst p \<notin> ?R) (settings_buffer s),
                 last_access := filter (\<lambda>p. fst p \<notin> ?R) (last_access s)\<rparr>"
          using a f by (simp add: step)
        have B: "?R \<subseteq> fst ` set (settings_buffer s) \<inter> fst ` set (last_access s)"
          using b h m_in by (auto simp: has_key_iff)
        have m_stamp: "map_of (last_access s) ?k0 = Some (snd ?m)"
          using less.prems(1) m_in by (metis map_of_is_SomeI prod.collapse)
        have C: "t \<le> t'"
          if p: "k \<in> ?R" "map_of (last_access s) k = Some t"
            "map_of (last_access (snd (remove_oldest s))) k' = Some t'" for k t k' t'
        proof (cases "k = ?k0")
          case True
          with p(2) m_stamp have t: "t = snd ?m" by simp
          from p(3) have "(k', t') \<in> set (last_access (snd (remove_oldest s)))"
            by (rule map_of_SomeD)
          with A have "(k', t') \<in> set (last_access s)" by simp
          then have "(k', t') \<in> set (x # xs)" by (simp only: Cons)
          with t show ?thesis using min_by_time_le[of "(k', t')" x xs] by simp
        next
          case False
          with p(1) have k1: "k \<in> R1" by simp
          from p(2) False have "map_of (last_access ?s1) k = Some t"
            by (simp add: map_of_filter_other)
          from c[OF k1 this, of k' t'] p(3) show ?thesis by (simp add: step)
        qed
        have D: "(int (length (settings_buffer s)) \<le> MAX_CACHE_SIZE s \<longrightarrow> ?R = {}) \<and>
                (MAX_CACHE_SIZE s < int (length (settings_buffer s)) \<longrightarrow>
                   int (length (settings_buffer (snd (remove_oldest s)))) = MAX_CACHE_SIZE s)"
          if n: "fst (remove_oldest s) = None"
        proof -
          from n have n1: "fst (remove_oldest ?s1) = None" by (simp add: step)
          note d1 = d[OF n1]
          show ?thesis
          proof (cases "MAX_CACHE_SIZE s < int (length (settings_buffer ?s1))")
            case True
            with d1 True show ?thesis using \<open>int (length (settings_buffer s)) > MAX_CACHE_SIZE s\<close>
              by (simp add: step)
          next
            case False
            with d1 have "R1 = {}" by simp
            with a have "settings_buffer (snd (remove_oldest ?s1)) = settings_buffer ?s1" by simp
            moreover from False len1 \<open>int (length (settings_buffer s)) > MAX_CACHE_SIZE s\<close>
            have "int (length (settings_buffer ?s1)) = MAX_CACHE_SIZE s" by simp
            ultimately show ?thesis using \<open>int (length (settings_buffer s)) > MAX_CACHE_SIZE s\<close>
              by (simp add: step)
          qed
        qed
        have E: "MAX_CACHE_SIZE s < int (length (settings_buffer (snd (remove_oldest s)))) \<and>
                (e = ValueError \<and> last_access (snd (remove_oldest s)) = [] \<or>
                 e = KeyError \<and> last_access (snd (remove_oldest s)) \<noteq> [] \<and>
                 \<not> has_key
                      (fst (min_by_time (hd (last_access (snd (remove_oldest s))))
                                        (tl (last_access (snd (remove_oldest s))))))
                      (settings_buffer (snd (remove_oldest s))))"
          if "fst (remove_oldest s) = Some e" for e
          using e[of e] that by (simp add: step)
        have C': "\<forall>k t k' t'. k \<in> ?R \<and> map_of (last_access s) k = Some t \<and>
                  map_of (last_access (snd (remove_oldest s))) k' = Some t' \<longrightarrow> t \<le> t'"
          using C by blast
        have D': "fst (remove_oldest s) = None \<longrightarrow>
                (int (length (settings_buffer s)) \<le> MAX_CACHE_SIZE s \<longrightarrow> ?R = {}) \<and>
                (MAX_CACHE_SIZE s < int (length (settings_buffer s)) \<longrightarrow>
                   int (length (settings_buffer (snd (remove_oldest s)))) = MAX_CACHE_SIZE s)"
          using D by (rule impI)
        have E': "\<forall>e. fst (remove_oldest s) = Some e \<longrightarrow>
                MAX_CACHE_SIZE s < int (length (settings_buffer (snd (remove_oldest s)))) \<and>
                (e = ValueError \<and> last_access (snd (remove_oldest s)) = [] \<or>
                 e = KeyError \<and> last_access (snd (remove_oldest s)) \<noteq> [] \<and>
                 \<not> has_key
                      (fst (min_by_time (hd (last_access (snd (remove_oldest s))))
                                        (tl (last_access (snd (remove_oldest s))))))
                      (settings_buffer (snd (remove_oldest s))))"
          using E by (intro allI impI)
        show ?thesis
          by (rule exI[of _ ?R], intro conjI) (fact A, fact B, fact C', fact D', fact E')
      qed
    qed
  qed
qed

lemma map_of_filter_in:
  "k \<in> S \<Longrightarrow> map_of (filter (\<lambda>p. fst p \<notin> S) d) k = None"
  by (induction d) auto

lemma map_of_filter_key:
  "map_of (filter (\<lambda>p. P (fst p)) d) k = (if P k then map_of d k else None)"
  by (induction d) auto

lemma min_by_time_strict:
  assumes "(k, t) \<in> set (x # xs)" and "\<forall>p \<in> set (x # xs). fst p \<noteq> k \<longrightarrow> t < snd p"
  shows "fst (min_by_time x xs) = k"
proof (rule ccontr)
  assume n: "fst (min_by_time x xs) \<noteq> k"
  from min_by_time_in[of x xs] assms(2) n have "t < snd (min_by_time x xs)" by blast
  moreover from min_by_time_le[OF assms(1)] have "snd (min_by_time x xs) \<le> t" by simp
  ultimately show False by simp
qed

lemma sweep_spec:
  assumes dl: "distinct (map fst (last_access s))" and ds: "distinct (map fst (settings_buffer s))"
  shows "\<exists>R. snd (cleanup_cache now s) =
               s\<lparr>settings_buffer := filter (\<lambda>p. fst p \<notin> R) (unexpired now s),
                 last_access := filter (\<lambda>p. fst p \<notin> R)
                   (filter (\<lambda>p. fst p \<notin> set (expired_settings now s)) (last_access s))\<rparr> \<and>
             R \<subseteq> fst ` set (unexpired now s) \<inter> fst ` set (last_access s) \<and>
             (\<forall>k t k' t'. k \<in> R \<and> map_of (last_access s) k = Some t \<and>
                  map_of (last_access (snd (cleanup_cache now s))) k' = Some t' \<longrightarrow> t \<le> t') \<and>
             (fst (cleanup_cache now s) = None \<longrightarrow>
                (int (length (unexpired now s)) \<le> MAX_CACHE_SIZE s \<longrightarrow> R = {}) \<and>
                (MAX_CACHE_SIZE s < int (length (unexpired now s)) \<longrightarrow>
                   int (length (settings_buffer (snd (cleanup_cache now s)))) = MAX_CACHE_SIZE s)) \<and>
             (\<forall>e. fst (cleanup_cache now s) = Some e \<longrightarrow>
                MAX_CACHE_SIZE s < int (length (settings_buffer (snd (cleanup_cache now s)))) \<and>
                (e = ValueError \<and> last_access (snd (cleanup_cache now s)) = [] \<or>
                 e = KeyError \<and> last_access (snd (cleanup_cache now s)) \<noteq> [] \<and>
                 \<not> has_key
                      (fst (min_by_time (hd (last_access (snd (cleanup_cache now s))))
                                        (tl (last_access (snd (cleanup_cache now s))))))
                      (settings_buffer (snd (cleanup_cache now s)))))"
proof -
  let ?E = "set (expired_settings now s)"
  let ?s1 = "s\<lparr>settings_buffer := filter (\<lambda>p. fst p \<notin> ?E) (settings_buffer s),
               last_access := filter (\<lambda>p. fst p \<notin> ?E) (last_access s)\<rparr>"
  have c: "cleanup_cache now s = remove_oldest ?s1"
    by (simp add: cleanup_cache_def ttl_phase[OF dl])
  have E: "k \<in> ?E \<longleftrightarrow> has_key k (settings_buffer s) \<and> is_expired now s k" for k
    by (rule expired_settings_is_expired[OF dl])
  have f1: "filter (\<lambda>p. fst p \<notin> ?E) (settings_buffer s) = unexpired now s"
    unfolding unexpired_def by (rule filter_cong) (auto simp: E has_key_iff)
  have d1: "distinct (map fst (last_access ?s1))" "distinct (map fst (settings_buffer ?s1))"
    using dl ds by (simp_all add: distinct_map_filter)
  from remove_oldest_spec[OF d1] obtain R where IH:
    "snd (remove_oldest ?s1) =
               ?s1\<lparr>settings_buffer := filter (\<lambda>p. fst p \<notin> R) (settings_buffer ?s1),
                 last_access := filter (\<lambda>p. fst p \<notin> R) (last_access ?s1)\<rparr> \<and>
             R \<subseteq> fst ` set (settings_buffer ?s1) \<inter> fst ` set (last_access ?s1) \<and>
             (\<forall>k t k' t'. k \<in> R \<and> map_of (last_access ?s1) k = Some t \<and>
                  map_of (last_access (snd (remove_oldest ?s1))) k' = Some t' \<longrightarrow> t \<le> t') \<and>
             (fst (remove_oldest ?s1) = None \<longrightarrow>
                (int (length (settings_buffer ?s1)) \<le> MAX_CACHE_SIZE ?s1 \<longrightarrow> R = {}) \<and>
                (MAX_CACHE_SIZE ?s1 < int (length (settings_buffer ?s1)) \<longrightarrow>
                   int (length (settings_buffer (snd (remove_oldest ?s1)))) = MAX_CACHE_SIZE ?s1)) \<and>
             (\<forall>e. fst (remove_oldest ?s1) = Some e \<longrightarrow>
                MAX_CACHE_SIZE ?s1 < int (length (settings_buffer (snd (remove_oldest ?s1)))) \<and>
                (e = ValueError \<and> last_access (snd (remove_oldest ?s1)) = [] \<or>
                 e = KeyError \<and> last_access (snd (remove_oldest ?s1)) \<noteq> [] \<and>
                 \<not> has_key
                      (fst (min_by_time (hd (last_access (snd (remove_oldest ?s1))))
                                        (tl (last_access (snd (remove_oldest ?s1))))))
                      (settings_buffer (snd (remove_oldest ?s1)))))" ..
  have A: "snd (cleanup_cache now s) =
               s\<lparr>settings_buffer := filter (\<lambda>p. fst p \<notin> R) (unexpired now s),
                 last_access := filter (\<lambda>p. fst p \<notin> R)
                   (filter (\<lambda>p. fst p \<notin> ?E) (last_access s))\<rparr>"
    using IH[THEN conjunct1] by (simp add: c f1[symmetric])
  have B: "R \<subseteq> fst ` set (unexpired now s) \<inter> fst ` set (last_access s)"
    using IH[THEN conjunct2, THEN conjunct1] by (auto simp: f1[symmetric])
  have C: "\<forall>k t k' t'. k \<in> R \<and> map_of (last_access s) k = Some t \<and>
                  map_of (last_access (snd (cleanup_cache now s))) k' = Some t' \<longrightarrow> t \<le> t'"
  proof (intro allI impI)
    fix k t k' t'
    assume p: "k \<in> R \<and> map_of (last_access s) k = Some t \<and>
                  map_of (last_access (snd (cleanup_cache now s))) k' = Some t'"
    with B have "k \<in> fst ` set (unexpired now s)" by auto
    then have "k \<notin> ?E" by (auto simp: f1[symmetric])
    with p have "map_of (last_access ?s1) k = Some t" by (simp add: map_of_filter_notin)
    with IH[THEN conjunct2, THEN conjunct2, THEN conjunct1] p show "t \<le> t'"
      by (simp only: c) blast
  qed
  have D: "fst (cleanup_cache now s) = None \<longrightarrow>
                (int (length (unexpired now s)) \<le> MAX_CACHE_SIZE s \<longrightarrow> R = {}) \<and>
                (MAX_CACHE_SIZE s < int (length (unexpired now s)) \<longrightarrow>
                   int (length (settings_buffer (snd (cleanup_cache now s)))) = MAX_CACHE_SIZE s)"
    using IH[THEN conjunct2, THEN conjunct2, THEN conjunct2, THEN conjunct1]
    by (simp add: c f1)
  have E': "\<forall>e. fst (cleanup_cache now s) = Some e \<longrightarrow>
                MAX_CACHE_SIZE s < int (length (settings_buffer (snd (cleanup_cache now s)))) \<and>
                (e = ValueError \<and> last_access (snd (cleanup_cache now s)) = [] \<or>
                 e = KeyError \<and> last_access (snd (cleanup_cache now s)) \<noteq> [] \<and>
                 \<not> has_key
                      (fst (min_by_time (hd (last_access (snd (cleanup_cache now s))))
                                        (tl (last_access (snd (cleanup_cache now s))))))
                      (settings_buffer (snd (cleanup_cache now s))))"
    using IH[THEN conjunct2, THEN conjunct2, THEN conjunct2, THEN conjunct2]
    by (simp add: c)
  show ?thesis
    by (rule exI[of _ R], intro conjI) (fact A, fact B, fact C, fact D, fact E')
qed

text \<open>One sweep, in terms of the state before and the state after.\<close>

lemma sweep_facts:
  assumes dl: "distinct (map fst (last_access s))"
    and ds: "distinct (map fst (settings_buffer s))"
  shows "users_buffer (swept now s) = users_buffer s \<and>
    (\<forall>k. has_key k (settings_buffer (swept now s)) \<longrightarrow>
           has_key k (settings_buffer s) \<and> \<not> is_expired now s k) \<and>
    settings_buffer (swept now s) =
      filter (\<lambda>p. has_key (fst p) (settings_buffer (swept now s))) (settings_buffer s) \<and>
    last_access (swept now s) =
      filter (\<lambda>p. has_key (fst p) (settings_buffer s) \<longrightarrow>
                   has_key (fst p) (settings_buffer (swept now s))) (last_access s) \<and>
    (int (length (unexpired now s)) \<le> MAX_CACHE_SIZE s \<longrightarrow>
       fst (cleanup_cache now s) = None \<and> settings_buffer (swept now s) = unexpired now s) \<and>
    (MAX_CACHE_SIZE s < int (length (unexpired now s)) \<and> fst (cleanup_cache now s) = None \<longrightarrow>
       int (length (settings_buffer (swept now s))) = MAX_CACHE_SIZE s) \<and>
    (\<forall>e. fst (cleanup_cache now s) = Some e \<longrightarrow>
       MAX_CACHE_SIZE s < int (length (settings_buffer (swept now s))) \<and>
       (e = ValueError \<and> last_access (swept now s) = [] \<or>
        e = KeyError \<and> last_access (swept now s) \<noteq> [] \<and>
        \<not> has_key (fst (min_by_time (hd (last_access (swept now s)))
                                     (tl (last_access (swept now s)))))
             (settings_buffer (swept now s)))) \<and>
    (\<forall>k. has_key k (settings_buffer s) \<and> \<not> is_expired now s k \<and>
         \<not> has_key k (settings_buffer (swept now s)) \<longrightarrow>
         (\<exists>t. map_of (last_access s) k = Some t \<and>
              (\<forall>k' t'. map_of (last_access (swept now s)) k' = Some t' \<longrightarrow> t \<le> t'))) \<and>
    (fst ` set (last_access s) = fst ` set (settings_buffer s) \<and> 0 \<le> MAX_CACHE_SIZE s \<longrightarrow>
       fst (cleanup_cache now s) = None)"
proof -
  let ?E = "set (expired_settings now s)"
  let ?U = "unexpired now s"
  let ?s' = "swept now s"
  from sweep_spec[OF dl ds, of now] obtain R where S:
    "snd (cleanup_cache now s) =
               s\<lparr>settings_buffer := filter (\<lambda>p. fst p \<notin> R) (unexpired now s),
                 last_access := filter (\<lambda>p. fst p \<notin> R)
                   (filter (\<lambda>p. fst p \<notin> set (expired_settings now s)) (last_access s))\<rparr> \<and>
             R \<subseteq> fst ` set (unexpired now s) \<inter> fst ` set (last_access s) \<and>
             (\<forall>k t k' t'. k \<in> R \<and> map_of (last_access s) k = Some t \<and>
                  map_of (last_access (snd (cleanup_cache now s))) k' = Some t' \<longrightarrow> t \<le> t') \<and>
             (fst (cleanup_cache now s) = None \<longrightarrow>
                (int (length (unexpired now s)) \<le> MAX_CACHE_SIZE s \<longrightarrow> R = {}) \<and>
                (MAX_CACHE_SIZE s < int (length (unexpired now s)) \<longrightarrow>
                   int (length (settings_buffer (snd (cleanup_cache now s)))) = MAX_CACHE_SIZE s)) \<and>
             (\<forall>e. fst (cleanup_cache now s) = Some e \<longrightarrow>
                MAX_CACHE_SIZE s < int (length (settings_buffer (snd (cleanup_cache now s)))) \<and>
                (e = ValueError \<and> last_access (snd (cleanup_cache now s)) = [] \<or>
                 e = KeyError \<and> last_access (snd (cleanup_cache now s)) \<noteq> [] \<and>
                 \<not> has_key
                      (fst (min_by_time (hd (last_access (snd (cleanup_cache now s))))
                                        (tl (last_access (snd (cleanup_cache now s))))))
                      (settings_buffer (snd (cleanup_cache now s)))))" ..
  note A = S[THEN conjunct1, folded swept_def]
  note B = S[THEN conjunct2, THEN conjunct1]
  note C = S[THEN conjunct2, THEN conjunct2, THEN conjunct1, folded swept_def]
  note D = S[THEN conjunct2, THEN conjunct2, THEN conjunct2, THEN conjunct1, folded swept_def]
  note E = S[THEN conjunct2, THEN conjunct2, THEN conjunct2, THEN conjunct2, folded swept_def]
  have sb': "settings_buffer ?s' = filter (\<lambda>p. fst p \<notin> R) ?U" using A by simp
  have la': "last_access ?s' = filter (\<lambda>p. fst p \<notin> R) (filter (\<lambda>p. fst p \<notin> ?E) (last_access s))"
    using A by simp
  have Ex: "k \<in> ?E \<longleftrightarrow> has_key k (settings_buffer s) \<and> is_expired now s k" for k
    by (rule expired_settings_is_expired[OF dl])
  have U: "has_key k ?U \<longleftrightarrow> has_key k (settings_buffer s) \<and> \<not> is_expired now s k" for k
    by (auto simp: unexpired_def has_key_iff)
  have kept: "has_key k (settings_buffer ?s') \<longleftrightarrow>
              has_key k (settings_buffer s) \<and> \<not> is_expired now s k \<and> k \<notin> R" for k
    by (simp add: sb' has_key_filter U)
  have gone: "k \<in> R \<union> ?E \<longleftrightarrow> has_key k (settings_buffer s) \<and> \<not> has_key k (settings_buffer ?s')"
    for k
  proof -
    have "has_key k ?U" if "k \<in> R" using B that by (auto simp: has_key_iff)
    with U[of k] kept[of k] Ex[of k] show ?thesis by blast
  qed
  have p1: "users_buffer ?s' = users_buffer s" using A by simp
  have p2: "\<forall>k. has_key k (settings_buffer ?s') \<longrightarrow>
           has_key k (settings_buffer s) \<and> \<not> is_expired now s k"
    by (simp add: kept)
  have p3: "settings_buffer ?s' =
      filter (\<lambda>p. has_key (fst p) (settings_buffer ?s')) (settings_buffer s)"
  proof -
    have "filter (\<lambda>p. fst p \<notin> R) ?U =
          filter (\<lambda>p. \<not> is_expired now s (fst p) \<and> fst p \<notin> R) (settings_buffer s)"
      by (simp add: unexpired_def conj_commute)
    also have "\<dots> = filter (\<lambda>p. has_key (fst p) (settings_buffer ?s')) (settings_buffer s)"
    proof (rule filter_cong[OF refl])
      fix p
      assume "p \<in> set (settings_buffer s)"
      then have "has_key (fst p) (settings_buffer s)" by (auto simp: has_key_iff)
      with kept[of "fst p"]
      show "(\<not> is_expired now s (fst p) \<and> fst p \<notin> R) = has_key (fst p) (settings_buffer ?s')"
        by blast
    qed
    finally show ?thesis by (simp add: sb')
  qed
  have p4: "last_access ?s' =
      filter (\<lambda>p. has_key (fst p) (settings_buffer s) \<longrightarrow>
                   has_key (fst p) (settings_buffer ?s')) (last_access s)"
  proof -
    have "filter (\<lambda>p. fst p \<notin> R) (filter (\<lambda>p. fst p \<notin> ?E) (last_access s)) =
          filter (\<lambda>p. fst p \<notin> R \<union> ?E) (last_access s)"
      by (simp add: conj_commute)
    also have "\<dots> = filter (\<lambda>p. has_key (fst p) (settings_buffer s) \<longrightarrow>
                   has_key (fst p) (settings_buffer ?s')) (last_access s)"
      by (rule filter_cong[OF refl]) (use gone in blast)
    finally show ?thesis by (simp add: la')
  qed
  have noerr: "fst (cleanup_cache now s) = None" if "int (length ?U) \<le> MAX_CACHE_SIZE s"
  proof (cases "fst (cleanup_cache now s)")
    case None
    then show ?thesis .
  next
    case (Some e)
    with E have "MAX_CACHE_SIZE s < int (length (settings_buffer ?s'))" by blast
    moreover have "length (settings_buffer ?s') \<le> length ?U" by (simp add: sb')
    ultimately show ?thesis using that by simp
  qed
  have p5: "int (length ?U) \<le> MAX_CACHE_SIZE s \<longrightarrow>
       fst (cleanup_cache now s) = None \<and> settings_buffer ?s' = ?U"
  proof
    assume fit: "int (length ?U) \<le> MAX_CACHE_SIZE s"
    from noerr[OF fit] D fit have "R = {}" by blast
    with noerr[OF fit] show "fst (cleanup_cache now s) = None \<and> settings_buffer ?s' = ?U"
      by (simp add: sb')
  qed
  have p6: "MAX_CACHE_SIZE s < int (length ?U) \<and> fst (cleanup_cache now s) = None \<longrightarrow>
       int (length (settings_buffer ?s')) = MAX_CACHE_SIZE s"
    using D by blast
  have p8: "\<forall>k. has_key k (settings_buffer s) \<and> \<not> is_expired now s k \<and>
         \<not> has_key k (settings_buffer ?s') \<longrightarrow>
         (\<exists>t. map_of (last_access s) k = Some t \<and>
              (\<forall>k' t'. map_of (last_access ?s') k' = Some t' \<longrightarrow> t \<le> t'))"
  proof (intro allI impI)
    fix k
    assume a: "has_key k (settings_buffer s) \<and> \<not> is_expired now s k \<and>
         \<not> has_key k (settings_buffer ?s')"
    with kept[of k] have kR: "k \<in> R" by simp
    with B have "k \<in> fst ` set (last_access s)" by auto
    then obtain t where t: "map_of (last_access s) k = Some t"
      by (metis has_key_def has_key_iff not_Some_eq)
    with C kR have "\<forall>k' t'. map_of (last_access ?s') k' = Some t' \<longrightarrow> t \<le> t'" by blast
    with t show "\<exists>t. map_of (last_access s) k = Some t \<and>
              (\<forall>k' t'. map_of (last_access ?s') k' = Some t' \<longrightarrow> t \<le> t')" by blast
  qed
  have p9: "fst ` set (last_access s) = fst ` set (settings_buffer s) \<and> 0 \<le> MAX_CACHE_SIZE s \<longrightarrow>
       fst (cleanup_cache now s) = None"
  proof
    assume h: "fst ` set (last_access s) = fst ` set (settings_buffer s) \<and> 0 \<le> MAX_CACHE_SIZE s"
    let ?s1 = "s\<lparr>settings_buffer := filter (\<lambda>p. fst p \<notin> ?E) (settings_buffer s),
               last_access := filter (\<lambda>p. fst p \<notin> ?E) (last_access s)\<rparr>"
    have c: "cleanup_cache now s = remove_oldest ?s1"
      by (simp add: cleanup_cache_def ttl_phase[OF dl])
    from h have "fst ` set (filter (\<lambda>p. fst p \<notin> ?E) (last_access s)) =
        fst ` set (filter (\<lambda>p. fst p \<notin> ?E) (settings_buffer s))"
      by (simp only: keys_filter_notin)
    then have i1: "fst ` set (last_access ?s1) = fst ` set (settings_buffer ?s1)" by simp
    have i2: "distinct (map fst (last_access ?s1))" using dl by (simp add: distinct_map_filter)
    have i3: "0 \<le> MAX_CACHE_SIZE ?s1" using h by simp
    from remove_oldest_trims[OF i1 i2 i3] show "fst (cleanup_cache now s) = None"
      by (simp add: c)
  qed
  show ?thesis
    by (intro conjI) (fact p1, fact p2, fact p3, fact p4, fact p5, fact p6, fact E, fact p8, fact p9)
qed




subsection \<open>The shared timestamp map and the sweep\<close>

lemma fetch_user_keys:
  assumes "fetch_user t k force s = (Inr u, s1)"
  shows "settings_buffer s1 = settings_buffer s \<and>
         (last_access s1 = last_access s \<or> last_access s1 = AList.update k t (last_access s))"
proof -
  obtain r sa where f: "db_find_one Users k s = (r, sa)" by (cases "db_find_one Users k s")
  obtain q sb where i: "db_insert_one Users (merge_into [(''_id'', PInt k)] user_base) sa = (q, sb)"
    by (cases "db_insert_one Users (merge_into [(''_id'', PInt k)] user_base) sa")
  from assms f i db_find_one_frame[OF f] db_insert_one_frame[OF i] show ?thesis
    by (auto simp: fetch_user_def split: sum.splits if_splits)
qed

lemma fetch_settings_keys:
  assumes "fetch_settings t k force s = (Inr u, s1)"
  shows "(last_access s1 = last_access s \<and> settings_buffer s1 = settings_buffer s) \<or>
         (\<exists>d. last_access s1 = AList.update k t (last_access s) \<and>
              settings_buffer s1 = AList.update k d (settings_buffer s))"
proof -
  obtain r sa where f: "db_find_one Settings k s = (r, sa)" by (cases "db_find_one Settings k s")
  obtain q sb where i: "db_insert_one Settings [(''_id'', PInt k)] sa = (q, sb)"
    by (cases "db_insert_one Settings [(''_id'', PInt k)] sa")
  from assms f i db_find_one_frame[OF f] db_insert_one_frame[OF i] show ?thesis
    by (auto simp: fetch_settings_def split: sum.splits if_splits)
qed

lemma update_settings_keys:
  assumes h: "has_key k (settings_buffer s)"
    and u: "update_settings t1 t2 k data up s = (Inr b, s')"
  shows "settings_buffer s' = settings_buffer s \<or>
         (\<exists>d. settings_buffer s' = AList.update k d (settings_buffer s))"
proof -
  let ?c = "Detached (PDict (cached (settings_buffer s) k))"
  obtain r s2 where d: "update_db t2 Settings ?c k data s = (r, s2)"
    by (cases "update_db t2 Settings ?c k data s")
  with u h obtain b2 where r: "r = Inr b2"
    by (cases r) (auto simp: update_settings_def get_settings_hit)
  from update_db_success[OF d[unfolded r]] have m: "settings_buffer s2 = settings_buffer s"
    by blast
  obtain q s3 where i: "db_insert_one Settings (merge_into [(''_id'', PInt k)] (get_default data ''$set'' [])) s2 = (q, s3)"
    by (cases "db_insert_one Settings (merge_into [(''_id'', PInt k)] (get_default data ''$set'' [])) s2")
  from u h d r i db_insert_one_frame[OF i] m show ?thesis
    by (auto simp: update_settings_def get_settings_hit split: if_splits sum.splits)
qed

text \<open>What each of the four operations leaves behind for the sweep.\<close>

lemma timestamp_written:
  assumes both: "has_key k (settings_buffer s)" "has_key k (users_buffer s)"
    and dl: "distinct (map fst (last_access s))"
    and ds: "distinct (map fst (settings_buffer s))"
    and op: "update_user t1 t k data up s = (Inr b, s') \<or>
             update_settings t1 t k data up s = (Inr b, s') \<or>
             get_user t k d_type nc True s = (Inr r, s') \<or>
             get_settings t k True s = (Inr r, s')"
  shows "map_of (last_access s') k = Some t \<and>
         has_key k (settings_buffer s') \<and> has_key k (users_buffer s') \<and>
         distinct (map fst (last_access s')) \<and> distinct (map fst (settings_buffer s'))"
  using op
proof (elim disjE)
  assume u: "update_user t1 t k data up s = (Inr b, s')"
  from update_user_success[OF both(2) u] both(1) dl ds show ?thesis
    by (simp add: update_conv' distinct_update)
next
  assume u: "update_settings t1 t k data up s = (Inr b, s')"
  from update_settings_success[OF both(1) u] update_settings_keys[OF both(1) u] both(2) dl ds
  show ?thesis by (auto simp: update_conv' distinct_update)
next
  assume g: "get_user t k d_type nc True s = (Inr r, s')"
  then obtain s1 where f: "fetch_user t k True s = (Inr (), s1)"
    by (auto simp: get_user_def split: prod.splits sum.splits)
  from get_user_last_access[OF f g] fetch_user_forced[OF f]
  have 1: "map_of (last_access s') k = Some t" by simp
  from g f have sb: "settings_buffer s' = settings_buffer s1"
    by (auto simp: get_user_def split: if_splits)
  from g f fetch_user_ok[OF f] have 3: "has_key k (users_buffer s')"
    by (auto simp: get_user_def has_key_update split: if_splits)
  from fetch_user_keys[OF f] get_user_last_access[OF f g] dl
  have 4: "distinct (map fst (last_access s'))" by (auto simp: distinct_update)
  from fetch_user_keys[OF f] sb both(1) ds 1 3 4 show ?thesis by simp
next
  assume g: "get_settings t k True s = (Inr r, s')"
  then have f: "fetch_settings t k True s = (Inr (), s')"
    by (auto simp: get_settings_def split: prod.splits sum.splits)
  from fetch_settings_forced[OF f] have 1: "map_of (last_access s') k = Some t" .
  from fetch_settings_ok[OF f] both(2) have 2: "has_key k (settings_buffer s')"
    "has_key k (users_buffer s')" by simp_all
  from fetch_settings_keys[OF f] dl ds
  have "distinct (map fst (last_access s')) \<and> distinct (map fst (settings_buffer s'))"
    by (auto simp: distinct_update)
  with 1 2 show ?thesis by simp
qed

text \<open>
  The sweep and the timestamp \<open>t\<close> under a cached guild \<open>k\<close>: the entry is removed when \<open>t\<close>
  is older than the TTL; otherwise it stays when the unexpired entries fit the maximum,
  it is trimmed only if \<open>t\<close> is no later than every timestamp that is left, and it is
  trimmed when the buffer exceeds the maximum and \<open>t\<close> is earlier than every other
  timestamp.
\<close>

lemma sweep_by_timestamp:
  assumes dl: "distinct (map fst (last_access s))"
    and ds: "distinct (map fst (settings_buffer s))"
    and hk: "has_key k (settings_buffer s)"
    and ts: "map_of (last_access s) k = Some t"
  shows "(real_of_int (CACHE_TTL s) < now - t \<longrightarrow>
           \<not> has_key k (settings_buffer (swept now s))) \<and>
         (\<not> real_of_int (CACHE_TTL s) < now - t \<and>
          int (length (unexpired now s)) \<le> MAX_CACHE_SIZE s \<longrightarrow>
           has_key k (settings_buffer (swept now s))) \<and>
         (\<not> real_of_int (CACHE_TTL s) < now - t \<and>
          \<not> has_key k (settings_buffer (swept now s)) \<longrightarrow>
           (\<forall>j tj. map_of (last_access (swept now s)) j = Some tj \<longrightarrow> t \<le> tj)) \<and>
         (\<not> real_of_int (CACHE_TTL s) < now - t \<and>
          MAX_CACHE_SIZE s < int (length (settings_buffer s)) \<and>
          (\<forall>j tj. j \<noteq> k \<and> map_of (last_access s) j = Some tj \<longrightarrow> t < tj) \<longrightarrow>
           \<not> has_key k (settings_buffer (swept now s))) \<and>
         users_buffer (swept now s) = users_buffer s"
proof -
  note F = sweep_facts[OF dl ds, of now]
  let ?s' = "swept now s"
  have ex: "is_expired now s k \<longleftrightarrow> real_of_int (CACHE_TTL s) < now - t"
    using ts by (simp add: is_expired_def)
  have p1: "real_of_int (CACHE_TTL s) < now - t \<longrightarrow> \<not> has_key k (settings_buffer ?s')"
    using F ex by blast
  have p2: "\<not> real_of_int (CACHE_TTL s) < now - t \<and>
          int (length (unexpired now s)) \<le> MAX_CACHE_SIZE s \<longrightarrow>
           has_key k (settings_buffer ?s')"
  proof
    assume a: "\<not> real_of_int (CACHE_TTL s) < now - t \<and>
          int (length (unexpired now s)) \<le> MAX_CACHE_SIZE s"
    with F have "settings_buffer ?s' = unexpired now s" by blast
    moreover from a ex hk have "has_key k (unexpired now s)"
      by (auto simp: unexpired_def has_key_iff)
    ultimately show "has_key k (settings_buffer ?s')" by simp
  qed
  have p3: "\<not> real_of_int (CACHE_TTL s) < now - t \<and>
          \<not> has_key k (settings_buffer ?s') \<longrightarrow>
           (\<forall>j tj. map_of (last_access ?s') j = Some tj \<longrightarrow> t \<le> tj)"
  proof
    assume a: "\<not> real_of_int (CACHE_TTL s) < now - t \<and> \<not> has_key k (settings_buffer ?s')"
    with F hk ex obtain t0 where "map_of (last_access s) k = Some t0"
      "\<forall>k' t'. map_of (last_access ?s') k' = Some t' \<longrightarrow> t0 \<le> t'" by blast
    with ts show "\<forall>j tj. map_of (last_access ?s') j = Some tj \<longrightarrow> t \<le> tj" by simp
  qed
  have p4: "\<not> real_of_int (CACHE_TTL s) < now - t \<and>
          MAX_CACHE_SIZE s < int (length (settings_buffer s)) \<and>
          (\<forall>j tj. j \<noteq> k \<and> map_of (last_access s) j = Some tj \<longrightarrow> t < tj) \<longrightarrow>
           \<not> has_key k (settings_buffer ?s')"
  proof (intro impI notI)
    assume a: "\<not> real_of_int (CACHE_TTL s) < now - t \<and>
          MAX_CACHE_SIZE s < int (length (settings_buffer s)) \<and>
          (\<forall>j tj. j \<noteq> k \<and> map_of (last_access s) j = Some tj \<longrightarrow> t < tj)"
      and kept: "has_key k (settings_buffer ?s')"
    \<comment> \<open>nothing is expired\<close>
    have ne: "\<not> is_expired now s j" for j
    proof (cases "map_of (last_access s) j")
      case None
      then show ?thesis by (simp add: is_expired_def)
    next
      case (Some tj)
      with a ts have "t \<le> tj" by (cases "j = k") force+
      with a Some show ?thesis by (simp add: is_expired_def)
    qed
    then have U: "unexpired now s = settings_buffer s" by (simp add: unexpired_def)
    from F have la': "last_access ?s' =
      filter (\<lambda>p. has_key (fst p) (settings_buffer s) \<longrightarrow>
                   has_key (fst p) (settings_buffer ?s')) (last_access s)" by blast
    note mf = map_of_filter_key[of "\<lambda>j. has_key j (settings_buffer s) \<longrightarrow>
                   has_key j (settings_buffer ?s')" "last_access s"]
    have k': "map_of (last_access ?s') k = Some t"
      unfolding la' using kept ts mf[of k] by simp
    \<comment> \<open>every timestamp that is left is the one of \<open>k\<close> or a later one\<close>
    have later: "t < tj" if "map_of (last_access ?s') j = Some tj" "j \<noteq> k" for j tj
    proof -
      from that(1) have "map_of (last_access s) j = Some tj"
        unfolding la' using mf[of j] by (simp split: if_splits)
      with a that(2) show ?thesis by blast
    qed
    show False
    proof (cases "fst (cleanup_cache now s)")
      case None
      with F a U have len: "int (length (settings_buffer ?s')) = MAX_CACHE_SIZE s" by simp
      have "settings_buffer ?s' =
              filter (\<lambda>p. has_key (fst p) (settings_buffer ?s')) (settings_buffer s)"
        using F by blast
      with len a have "length (filter (\<lambda>p. has_key (fst p) (settings_buffer ?s')) (settings_buffer s))
                        < length (settings_buffer s)" by simp
      then obtain p where p: "p \<in> set (settings_buffer s)"
        "\<not> has_key (fst p) (settings_buffer ?s')"
        by (metis filter_True less_irrefl)
      from p(1) have "has_key (fst p) (settings_buffer s)" by (auto simp: has_key_iff)
      with F p(2) ne[of "fst p"] obtain tp where tp: "map_of (last_access s) (fst p) = Some tp"
        "\<forall>k' t'. map_of (last_access ?s') k' = Some t' \<longrightarrow> tp \<le> t'" by blast
      from tp(2) k' have "tp \<le> t" by blast
      moreover from p(2) kept have "fst p \<noteq> k" by auto
      with a tp(1) have "t < tp" by blast
      ultimately show False by simp
    next
      case (Some e)
      with F have "e = ValueError \<and> last_access ?s' = [] \<or>
        e = KeyError \<and> last_access ?s' \<noteq> [] \<and>
        \<not> has_key (fst (min_by_time (hd (last_access ?s')) (tl (last_access ?s'))))
             (settings_buffer ?s')" by blast
      then show False
      proof (elim disjE conjE)
        assume "last_access ?s' = []"
        with k' show False by simp
      next
        assume n: "last_access ?s' \<noteq> []"
          and m: "\<not> has_key (fst (min_by_time (hd (last_access ?s')) (tl (last_access ?s'))))
             (settings_buffer ?s')"
        from n have c: "hd (last_access ?s') # tl (last_access ?s') = last_access ?s'" by simp
        have dl': "distinct (map fst (last_access ?s'))"
          unfolding la' using dl by (simp add: distinct_map_filter)
        have in_la: "(k, t) \<in> set (hd (last_access ?s') # tl (last_access ?s'))"
          using k' by (simp only: c) (rule map_of_SomeD)
        have "\<forall>p \<in> set (hd (last_access ?s') # tl (last_access ?s')). fst p \<noteq> k \<longrightarrow> t < snd p"
        proof (simp only: c, intro ballI impI)
          fix p assume p: "p \<in> set (last_access ?s')" "fst p \<noteq> k"
          with dl' have "map_of (last_access ?s') (fst p) = Some (snd p)"
            by (metis map_of_is_SomeI prod.collapse)
          from later[OF this p(2)] show "t < snd p" .
        qed
        from min_by_time_strict[OF in_la this] m kept show False by simp
      qed
    qed
  qed
  have p5: "users_buffer ?s' = users_buffer s" using F by blast
  show ?thesis by (intro conjI) (fact p1, fact p2, fact p3, fact p4, fact p5)
qed

text \<open>
  C9 as stated fails for a plain read and for the users entry. With guild 42 and user 42
  both cached since time 1, \<open>get_user(42)\<close> at time 500 is served from the cache, the
  timestamp under 42 is still 1, and the sweep at time 500 removes the settings entry of
  guild 42. And after \<open>get_settings(42, force_refresh=True)\<close> at time 2 the timestamp under
  42 is 2, expired at time 500, and the sweep leaves user 42 cached: the timestamp
  governs no eviction of a users entry.
\<close>

theorem cached_read_keeps_old_timestamp:
  "has_key 42 (settings_buffer both42) \<and> has_key 42 (users_buffer both42) \<and>
   map_of (last_access both42) 42 = Some 1 \<and>
   fst (get_user 500 42 None True False both42) = Inr (Detached (PDict user42_doc)) \<and>
   map_of (last_access (snd (get_user 500 42 None True False both42))) 42 = Some 1 \<and>
   map_of (settings_buffer (swept 500 (snd (get_user 500 42 None True False both42)))) 42 = None \<and>
   fst (get_settings 2 42 True both42) = Inr (Detached (PDict [(''_id'', PInt 42)])) \<and>
   map_of (last_access (snd (get_settings 2 42 True both42))) 42 = Some 2 \<and>
   is_expired 500 (snd (get_settings 2 42 True both42)) 42 \<and>
   has_key 42 (users_buffer (swept 500 (snd (get_settings 2 42 True both42))))"
  by code_simp

text \<open>
  C9 (amended): \<open>_last_access\<close> is one map keyed by the raw id. For an id \<open>k\<close> cached in both
  buffers, a successful \<open>update_user\<close> or \<open>update_settings\<close> of \<open>k\<close>, and a \<open>get_user\<close> or
  \<open>get_settings\<close> of \<open>k\<close> with \<open>force_refresh\<close>, overwrite the one timestamp under \<open>k\<close> and
  leave both entries cached. That timestamp governs the eviction of the settings entry
  of guild \<open>k\<close> by the next sweep. TTL: the entry is removed when \<open>now\<close> minus the timestamp
  exceeds the TTL, and stays when it does not and the unexpired entries fit the maximum.
  Least recently used: an unexpired entry \<open>k\<close> is trimmed only if its timestamp is no later
  than every timestamp left in the map, and it is trimmed when the buffer exceeds the
  maximum and its timestamp is earlier than every other one. The users entry of \<open>k\<close> stays
  cached whatever the timestamp, and a plain read of a cached \<open>k\<close> leaves the timestamp
  as it is.
\<close>

theorem shared_timestamp_map:
  assumes both: "has_key k (settings_buffer s)" "has_key k (users_buffer s)"
    and dl: "distinct (map fst (last_access s))"
    and ds: "distinct (map fst (settings_buffer s))"
  shows "(update_user t1 t k data up s = (Inr b, s') \<or>
          update_settings t1 t k data up s = (Inr b, s') \<or>
          get_user t k d_type nc True s = (Inr r, s') \<or>
          get_settings t k True s = (Inr r, s') \<longrightarrow>
            map_of (last_access s') k = Some t \<and>
            has_key k (settings_buffer s') \<and> has_key k (users_buffer s') \<and>
            (real_of_int (CACHE_TTL s') < now - t \<longrightarrow>
               \<not> has_key k (settings_buffer (swept now s'))) \<and>
            (\<not> real_of_int (CACHE_TTL s') < now - t \<and>
             int (length (unexpired now s')) \<le> MAX_CACHE_SIZE s' \<longrightarrow>
               has_key k (settings_buffer (swept now s'))) \<and>
            (\<not> real_of_int (CACHE_TTL s') < now - t \<and>
             \<not> has_key k (settings_buffer (swept now s')) \<longrightarrow>
               (\<forall>j tj. map_of (last_access (swept now s')) j = Some tj \<longrightarrow> t \<le> tj)) \<and>
            (\<not> real_of_int (CACHE_TTL s') < now - t \<and>
             MAX_CACHE_SIZE s' < int (length (settings_buffer s')) \<and>
             (\<forall>j tj. j \<noteq> k \<and> map_of (last_access s') j = Some tj \<longrightarrow> t < tj) \<longrightarrow>
               \<not> has_key k (settings_buffer (swept now s'))) \<and>
            has_key k (users_buffer (swept now s'))) \<and>
         last_access (snd (get_user t k d_type nc False s)) = last_access s \<and>
         last_access (snd (get_settings t k False s)) = last_access s"
proof (intro conjI impI)
  assume op: "update_user t1 t k data up s = (Inr b, s') \<or>
          update_settings t1 t k data up s = (Inr b, s') \<or>
          get_user t k d_type nc True s = (Inr r, s') \<or>
          get_settings t k True s = (Inr r, s')"
  note W = timestamp_written[OF both dl ds op]
  from W have w: "distinct (map fst (last_access s'))" "distinct (map fst (settings_buffer s'))"
    "has_key k (settings_buffer s')" "map_of (last_access s') k = Some t" by simp_all
  note S = sweep_by_timestamp[OF w, of now]
  from W show "map_of (last_access s') k = Some t" "has_key k (settings_buffer s')"
    "has_key k (users_buffer s')" by simp_all
  from S show "\<not> has_key k (settings_buffer (swept now s'))"
    if "real_of_int (CACHE_TTL s') < now - t" using that by blast
  from S show "has_key k (settings_buffer (swept now s'))"
    if "\<not> real_of_int (CACHE_TTL s') < now - t \<and>
        int (length (unexpired now s')) \<le> MAX_CACHE_SIZE s'" using that by blast
  from S show "\<forall>j tj. map_of (last_access (swept now s')) j = Some tj \<longrightarrow> t \<le> tj"
    if "\<not> real_of_int (CACHE_TTL s') < now - t \<and>
        \<not> has_key k (settings_buffer (swept now s'))" using that by blast
  from S show "\<not> has_key k (settings_buffer (swept now s'))"
    if "\<not> real_of_int (CACHE_TTL s') < now - t \<and>
        MAX_CACHE_SIZE s' < int (length (settings_buffer s')) \<and>
        (\<forall>j tj. j \<noteq> k \<and> map_of (last_access s') j = Some tj \<longrightarrow> t < tj)" using that by blast
  from S W show "has_key k (users_buffer (swept now s'))" by simp
next
  show "last_access (snd (get_user t k d_type nc False s)) = last_access s"
    using both(2) by (simp add: get_user_def fetch_user_hit)
  show "last_access (snd (get_settings t k False s)) = last_access s"
    using both(1) by (simp add: get_settings_hit)
qed

text \<open>
  User 42 and guild 42 read at time 2, guilds 5 and 6 at times 3 and 4, a maximum of 2. A
  sweep at time 10 trims guild 42. After \<open>update_user(42)\<close> at time 7 it trims guild 5
  instead, and a sweep at time 1000 removes guild 42 by the TTL and keeps user 42. After
  \<open>get_settings(42, force_refresh=True)\<close> at time 1 the sweep at time 10 trims guild 42.
\<close>

theorem shared_timestamp_map_witness:
  "has_key 42 (settings_buffer shared42) \<and> has_key 42 (users_buffer shared42) \<and>
   distinct (map fst (last_access shared42)) \<and> distinct (map fst (settings_buffer shared42)) \<and>
   last_access shared42 = [(42, 2), (5, 3), (6, 4)] \<and> MAX_CACHE_SIZE shared42 = 2 \<and>
   map fst (settings_buffer (swept 10 shared42)) = [5, 6] \<and>
   fst (update_user 6 7 42 set_rank False shared42) = Inr True \<and>
   last_access (snd (update_user 6 7 42 set_rank False shared42)) = [(42, 7), (5, 3), (6, 4)] \<and>
   map fst (settings_buffer (swept 10 (snd (update_user 6 7 42 set_rank False shared42)))) = [42, 6] \<and>
   \<not> has_key 42 (settings_buffer (swept 1000 (snd (update_user 6 7 42 set_rank False shared42)))) \<and>
   has_key 42 (users_buffer (swept 1000 (snd (update_user 6 7 42 set_rank False shared42)))) \<and>
   fst (get_settings 1 42 True shared42) = Inr (Detached (PDict [(''_id'', PInt 42)])) \<and>
   last_access (snd (get_settings 1 42 True shared42)) = [(42, 1), (5, 3), (6, 4)] \<and>
   \<not> has_key 42 (settings_buffer (swept 10 (snd (get_settings 1 42 True shared42)))) \<and>
   last_access (snd (get_user 9 42 None True False shared42)) = last_access shared42"
proof -
  let ?S1 = "snd (update_user 6 7 42 set_rank False shared42)"
  let ?S2 = "snd (get_settings 1 42 True shared42)"
  have h1: "has_key 42 (settings_buffer shared42)" by code_simp
  have h2: "has_key 42 (users_buffer shared42)" by code_simp
  have h3: "distinct (map fst (last_access shared42))" by code_simp
  have h4: "distinct (map fst (settings_buffer shared42))" by code_simp
  have c1: "last_access shared42 = [(42, 2), (5, 3), (6, 4)]" by code_simp
  have c2: "MAX_CACHE_SIZE shared42 = 2" by code_simp
  have c3: "map fst (settings_buffer (swept 10 shared42)) = [5, 6]" by code_simp
  have u: "update_user 6 7 42 set_rank False shared42 = (Inr True, ?S1)" by code_simp
  have u1: "fst (update_user 6 7 42 set_rank False shared42) = Inr True" by code_simp
  have u2: "last_access ?S1 = [(42, 7), (5, 3), (6, 4)]" by code_simp
  have u3: "map fst (settings_buffer (swept 10 ?S1)) = [42, 6]" by code_simp
  have ttl1: "CACHE_TTL ?S1 = 300" by code_simp
  from shared_timestamp_map[OF h1 h2 h3 h4, where ?t1.0 = 6 and t = 7 and data = set_rank
      and up = False and b = True and s' = ?S1 and now = 1000 and d_type = None and nc = True] u
  have U: "(real_of_int (CACHE_TTL ?S1) < 1000 - 7 \<longrightarrow>
               \<not> has_key 42 (settings_buffer (swept 1000 ?S1))) \<and>
           has_key 42 (users_buffer (swept 1000 ?S1)) \<and>
           last_access (snd (get_user 7 42 None True False shared42)) = last_access shared42"
    by blast
  then have u4: "\<not> has_key 42 (settings_buffer (swept 1000 ?S1))" by (simp add: ttl1)
  from U have u5: "has_key 42 (users_buffer (swept 1000 ?S1))" by blast
  have g: "get_settings 1 42 True shared42 = (Inr (Detached (PDict [(''_id'', PInt 42)])), ?S2)"
    by code_simp
  have g1: "fst (get_settings 1 42 True shared42) = Inr (Detached (PDict [(''_id'', PInt 42)]))"
    by code_simp
  have g2: "last_access ?S2 = [(42, 1), (5, 3), (6, 4)]" by code_simp
  have g3: "CACHE_TTL ?S2 = 300" "MAX_CACHE_SIZE ?S2 = 2" "length (settings_buffer ?S2) = 3"
    by code_simp+
  have least: "\<forall>j tj. j \<noteq> 42 \<and> map_of (last_access ?S2) j = Some tj \<longrightarrow> 1 < tj"
    by (auto simp: g2 split: if_splits)
  from shared_timestamp_map[OF h1 h2 h3 h4, where ?t1.0 = 1 and t = 1 and data = set_rank
      and up = False and r = "Detached (PDict [(''_id'', PInt 42)])" and s' = ?S2 and now = 10
      and d_type = None and nc = True] g
  have G: "\<not> real_of_int (CACHE_TTL ?S2) < 10 - 1 \<and>
             MAX_CACHE_SIZE ?S2 < int (length (settings_buffer ?S2)) \<and>
             (\<forall>j tj. j \<noteq> 42 \<and> map_of (last_access ?S2) j = Some tj \<longrightarrow> 1 < tj) \<longrightarrow>
               \<not> has_key 42 (settings_buffer (swept 10 ?S2))"
    by blast
  with least have g4: "\<not> has_key 42 (settings_buffer (swept 10 ?S2))" by (simp add: g3)
  from shared_timestamp_map[OF h1 h2 h3 h4, where t = 9 and d_type = None and nc = True]
  have r: "last_access (snd (get_user 9 42 None True False shared42)) = last_access shared42"
    by blast
  from h1 h2 h3 h4 c1 c2 c3 u1 u2 u3 u4 u5 g1 g2 g4 r show ?thesis by blast
qed

subsection \<open>Regions of the store\<close>

lemma cell_in_mono: "cell_in lo hi c \<Longrightarrow> lo' \<le> lo \<Longrightarrow> hi \<le> hi' \<Longrightarrow> cell_in lo' hi' c"
  by (auto simp: cell_in_def split: cell.splits)

lemma region_closed_nth:
  "region_closed lo hi h \<longleftrightarrow>
     hi \<le> length h \<and> (\<forall>a. lo \<le> a \<and> a < hi \<longrightarrow> list_all (cell_in lo hi) (cells_of (h ! a)))"
  by (auto simp: region_closed_def list_all_iff)

lemma region_closed_append: "region_closed lo hi h \<Longrightarrow> region_closed lo hi (h @ ext)"
  by (auto simp: region_closed_nth nth_append)

lemma region_closed_empty: "lo \<le> length h \<Longrightarrow> region_closed lo lo h"
  by (auto simp: region_closed_nth)

lemma region_closed_join:
  "region_closed a b h \<Longrightarrow> region_closed b c h \<Longrightarrow> a \<le> b \<Longrightarrow> b \<le> c \<Longrightarrow> region_closed a c h"
  unfolding region_closed_nth
  by (auto simp: list_all_iff intro: cell_in_mono) (meson cell_in_mono le_refl not_le_imp_less order.trans)+

lemma region_closed_snoc:
  assumes "region_closed lo (length h) h" "list_all (cell_in lo (Suc (length h))) (cells_of ob)"
  shows "region_closed lo (Suc (length h)) (h @ [ob])"
proof -
  have w: "cell_in lo (Suc (length h)) x" if "cell_in lo (length h) x" for x
    using that by (rule cell_in_mono) simp_all
  from assms show ?thesis
    by (auto simp: region_closed_nth nth_append list_all_iff less_Suc_eq intro: w)
qed

lemma region_closed_frame:
  assumes "region_closed lo hi h" "hi \<le> length h'" "\<forall>a. lo \<le> a \<and> a < hi \<longrightarrow> h' ! a = h ! a"
  shows "region_closed lo hi h'"
  using assms by (auto simp: region_closed_nth)

lemma region_closed_update:
  assumes rc: "region_closed 0 (length h) h" and a: "a < length h"
    and cs: "list_all (cell_in 0 (length h)) (cells_of ob)"
  shows "region_closed 0 (length h) (h[a := ob])"
  using assms by (auto simp: region_closed_nth nth_list_update)

lemma take_eq_nth: "take n h'' = take n h' \<Longrightarrow> a < n \<Longrightarrow> h'' ! a = h' ! a"
  by (metis nth_take)

lemma those_map_cong:
  "(\<And>x. x \<in> set xs \<Longrightarrow> f x = g x) \<Longrightarrow> those (map f xs) = those (map g xs)"
  by (induction xs) (auto split: option.splits)

lemma those_Cons:
  "those (x # xs) = Some vs \<longleftrightarrow> (\<exists>v vs'. x = Some v \<and> those xs = Some vs' \<and> vs = v # vs')"
  by (auto split: option.splits)

lemma list_all_update:
  "list_all P d \<Longrightarrow> P (k, v) \<Longrightarrow> list_all P (AList.update k v d)"
  by (induction d) auto

lemma map_of_list_all:
  "list_all P d \<Longrightarrow> map_of d k = Some v \<Longrightarrow> P (k, v)"
  by (auto simp: list_all_iff dest: map_of_SomeD)

text \<open>
  Reading a cell of a closed region looks at that region only: the value is the same in
  every store that agrees on it.
\<close>

lemma read_frame:
  assumes "region_closed lo hi h" "hi \<le> length h'" "\<forall>a. lo \<le> a \<and> a < hi \<longrightarrow> h' ! a = h ! a"
  shows "cell_in lo hi c \<Longrightarrow> read n h' c = read n h c"
proof (induction n arbitrary: c)
  case 0
  then show ?case by (cases c) auto
next
  case (Suc n)
  show ?case
  proof (cases c)
    case (Atom x)
    then show ?thesis by simp
  next
    case (Ref a)
    with Suc.prems have a: "lo \<le> a \<and> a < hi" by (simp add: cell_in_def)
    with assms have eq: "h' ! a = h ! a" and lt: "a < length h" "a < length h'"
      by (auto simp: region_closed_nth)
    from a assms(1) have "list_all (cell_in lo hi) (cells_of (h ! a))"
      by (simp add: region_closed_nth)
    then have "those (map (read n h') (cells_of (h ! a))) = those (map (read n h) (cells_of (h ! a)))"
      by (intro those_map_cong Suc.IH) (simp add: list_all_iff)
    with Ref eq lt show ?thesis by simp
  qed
qed

lemma read_append:
  "region_closed lo hi h \<Longrightarrow> cell_in lo hi c \<Longrightarrow> read n (h @ ext) c = read n h c"
  by (rule read_frame) (auto simp: region_closed_nth nth_append)

subsection \<open>Allocation and the deep copy\<close>

lemma copy_cells_length:
  "copy_cells f h cs = Inr (cs', h') \<Longrightarrow> length cs' = length cs"
  by (induction cs arbitrary: h cs' h') (auto split: sum.splits)

lemma cells_of_with_cells:
  "length cs = length (cells_of ob) \<Longrightarrow> cells_of (with_cells ob cs) = cs"
  by (cases ob) auto

lemma rebuild_with_cells:
  "length cs = length (cells_of ob) \<Longrightarrow> rebuild (with_cells ob cs) vs = rebuild ob vs"
  by (cases ob) (auto simp: map_fst_zip_take min_def)

lemma copy_cells_copies:
  assumes f: "copies n lo f"
  shows "region_closed 0 lo h \<Longrightarrow> list_all (cell_in 0 lo) cs \<Longrightarrow>
     those (map (read n h) cs) = Some vs \<Longrightarrow>
     \<exists>cs' ext. copy_cells f h cs = Inr (cs', h @ ext) \<and>
        list_all (cell_in (length h) (length h + length ext)) cs' \<and>
        region_closed (length h) (length h + length ext) (h @ ext) \<and>
        those (map (read n (h @ ext)) cs') = Some vs"
proof (induction cs arbitrary: h vs)
  case Nil
  then have "region_closed (length h) (length h) h" by (intro region_closed_empty) simp
  with Nil show ?case by (intro exI[of _ "[]"]) auto
next
  case (Cons c cs)
  from Cons.prems(3) obtain v vs' where
    v: "read n h c = Some v" and vs': "those (map (read n h) cs) = Some vs'" and
    vs: "vs = v # vs'"
    by (auto split: option.splits)
  from Cons.prems(2) have c: "cell_in 0 lo c" and cs: "list_all (cell_in 0 lo) cs" by simp_all
  from f Cons.prems(1) c v obtain c' e1 where
    1: "f h c = Inr (c', h @ e1)" "cell_in (length h) (length h + length e1) c'"
       "region_closed (length h) (length h + length e1) (h @ e1)"
       "read n (h @ e1) c' = Some v"
    unfolding copies_def by blast
  have r1: "region_closed 0 lo (h @ e1)" by (rule region_closed_append[OF Cons.prems(1)])
  have "those (map (read n (h @ e1)) cs) = those (map (read n h) cs)"
    using cs by (intro those_map_cong read_append[OF Cons.prems(1)]) (simp add: list_all_iff)
  with vs' have vs1: "those (map (read n (h @ e1)) cs) = Some vs'" by simp
  from Cons.IH[OF r1 cs vs1] obtain cs' e2 where
    2: "copy_cells f (h @ e1) cs = Inr (cs', (h @ e1) @ e2)"
       "list_all (cell_in (length (h @ e1)) (length (h @ e1) + length e2)) cs'"
       "region_closed (length (h @ e1)) (length (h @ e1) + length e2) ((h @ e1) @ e2)"
       "those (map (read n ((h @ e1) @ e2)) cs') = Some vs'"
    by blast
  have a: "copy_cells f h (c # cs) = Inr (c' # cs', h @ (e1 @ e2))"
    using 1(1) 2(1) by simp
  have b: "list_all (cell_in (length h) (length h + length (e1 @ e2))) (c' # cs')"
    using 1(2) 2(2) by (auto simp: list_all_iff intro: cell_in_mono)
  have "region_closed (length h) (length h + length e1) (h @ e1 @ e2)"
    using region_closed_append[OF 1(3), of e2] by simp
  moreover have "region_closed (length h + length e1) (length h + length e1 + length e2) (h @ e1 @ e2)"
    using 2(3) by simp
  ultimately have d: "region_closed (length h) (length h + length (e1 @ e2)) (h @ (e1 @ e2))"
    using region_closed_join[of "length h" "length h + length e1" "h @ e1 @ e2"
        "length h + length e1 + length e2"] by (simp add: add.assoc)
  have "read n ((h @ e1) @ e2) c' = read n (h @ e1) c'"
    by (rule read_append[OF 1(3) 1(2)])
  with 1(4) 2(4) vs have e: "those (map (read n (h @ (e1 @ e2))) (c' # cs')) = Some vs"
    by simp
  from a b d e show ?case by blast
qed

lemma deepcopy_copies: "copies n lo (deepcopy n)"
proof (induction n)
  case 0
  show ?case unfolding copies_def
  proof (intro allI impI)
    fix h c v
    assume a: "region_closed 0 lo h \<and> cell_in 0 lo c \<and> read 0 h c = Some v"
    then obtain x where c: "c = Atom x" by (cases c) auto
    from a have "region_closed (length h) (length h) h"
      by (intro region_closed_empty) simp
    with a c show "\<exists>c' ext. deepcopy 0 h c = Inr (c', h @ ext) \<and>
           cell_in (length h) (length h + length ext) c' \<and>
           region_closed (length h) (length h + length ext) (h @ ext) \<and>
           read 0 (h @ ext) c' = Some v"
      by (intro exI[of _ "Atom x"] exI[of _ "[]"]) (auto simp: cell_in_def)
  qed
next
  case (Suc n)
  show ?case unfolding copies_def
  proof (intro allI impI)
    fix h c v
    assume a: "region_closed 0 lo h \<and> cell_in 0 lo c \<and> read (Suc n) h c = Some v"
    show "\<exists>c' ext. deepcopy (Suc n) h c = Inr (c', h @ ext) \<and>
           cell_in (length h) (length h + length ext) c' \<and>
           region_closed (length h) (length h + length ext) (h @ ext) \<and>
           read (Suc n) (h @ ext) c' = Some v"
    proof (cases c)
      case (Atom x)
      from a have "region_closed (length h) (length h) h"
        by (intro region_closed_empty) simp
      with a Atom show ?thesis
        by (intro exI[of _ "Atom x"] exI[of _ "[]"]) (auto simp: cell_in_def)
    next
      case (Ref b)
      let ?ob = "h ! b"
      from a Ref have b: "b < lo" "lo \<le> length h" "b < length h"
        by (auto simp: cell_in_def region_closed_nth)
      with a have cs: "list_all (cell_in 0 lo) (cells_of ?ob)"
        by (auto simp: region_closed_nth)
      from a Ref b obtain vs where
        vs: "those (map (read n h) (cells_of ?ob)) = Some vs" and v: "v = rebuild ?ob vs"
        by auto
      from a have rc: "region_closed 0 lo h" by simp
      from copy_cells_copies[OF Suc rc cs vs] obtain cs' ext where
        1: "copy_cells (deepcopy n) h (cells_of ?ob) = Inr (cs', h @ ext)"
           "list_all (cell_in (length h) (length h + length ext)) cs'"
           "region_closed (length h) (length h + length ext) (h @ ext)"
           "those (map (read n (h @ ext)) cs') = Some vs"
        by blast
      let ?new = "with_cells ?ob cs'"
      let ?h' = "h @ (ext @ [?new])"
      have len: "length cs' = length (cells_of ?ob)" by (rule copy_cells_length[OF 1(1)])
      have d: "deepcopy (Suc n) h c = Inr (Ref (length h + length ext), ?h')"
        using Ref b 1(1) by simp
      have f: "cell_in (length h) (length h + length (ext @ [?new])) (Ref (length h + length ext))"
        by (simp add: cell_in_def)
      have "list_all (cell_in (length h) (Suc (length (h @ ext)))) (cells_of ?new)"
        using 1(2) len by (auto simp: cells_of_with_cells list_all_iff intro: cell_in_mono)
      moreover have "region_closed (length h) (length (h @ ext)) (h @ ext)"
        using 1(3) by simp
      ultimately have "region_closed (length h) (Suc (length (h @ ext))) ((h @ ext) @ [?new])"
        by (intro region_closed_snoc)
      then have g: "region_closed (length h) (length h + length (ext @ [?new])) ?h'"
        by simp
      have "those (map (read n ((h @ ext) @ [?new])) cs') = those (map (read n (h @ ext)) cs')"
        using 1(2) by (intro those_map_cong read_append[OF 1(3)]) (simp add: list_all_iff)
      with 1(4) have "those (map (read n ?h') cs') = Some vs" by simp
      then have r: "read (Suc n) ?h' (Ref (length h + length ext)) = Some v"
        using len v by (simp add: nth_append cells_of_with_cells rebuild_with_cells)
      from d f g r show ?thesis by blast
    qed
  qed
qed

lemma copy_cells_readable:
  assumes f: "copies n lo f" and g: "readable n lo f"
  shows "region_closed 0 lo h \<Longrightarrow> list_all (cell_in 0 lo) cs \<Longrightarrow>
     copy_cells f h cs = Inr r \<Longrightarrow> \<exists>vs. those (map (read n h) cs) = Some vs"
proof (induction cs arbitrary: h r)
  case Nil
  then show ?case by simp
next
  case (Cons c cs)
  from Cons.prems(3) obtain r1 rs where
    1: "f h c = Inr r1" and 2: "copy_cells f (snd r1) cs = Inr rs"
    by (auto split: sum.splits)
  from Cons.prems(2) have c: "cell_in 0 lo c" and cs: "list_all (cell_in 0 lo) cs" by simp_all
  from g Cons.prems(1) c 1 obtain v where v: "read n h c = Some v"
    unfolding readable_def by blast
  from f Cons.prems(1) c v 1 obtain e1 where e1: "snd r1 = h @ e1"
    unfolding copies_def by fastforce
  have r1: "region_closed 0 lo (h @ e1)" by (rule region_closed_append[OF Cons.prems(1)])
  from Cons.IH[OF r1 cs 2[unfolded e1]] obtain vs where
    "those (map (read n (h @ e1)) cs) = Some vs" by blast
  moreover have "those (map (read n (h @ e1)) cs) = those (map (read n h) cs)"
    using cs by (intro those_map_cong read_append[OF Cons.prems(1)]) (simp add: list_all_iff)
  ultimately show ?case using v by simp
qed

lemma deepcopy_readable: "readable n lo (deepcopy n)"
proof (induction n)
  case 0
  show ?case unfolding readable_def
  proof (intro allI impI)
    fix h c r
    assume "region_closed 0 lo h \<and> cell_in 0 lo c \<and> deepcopy 0 h c = Inr r"
    then show "\<exists>v. read 0 h c = Some v" by (cases c) auto
  qed
next
  case (Suc n)
  show ?case unfolding readable_def
  proof (intro allI impI)
    fix h c r
    assume a: "region_closed 0 lo h \<and> cell_in 0 lo c \<and> deepcopy (Suc n) h c = Inr r"
    show "\<exists>v. read (Suc n) h c = Some v"
    proof (cases c)
      case (Atom x)
      then show ?thesis by simp
    next
      case (Ref b)
      from a Ref have b: "b < lo" "b < length h"
        by (auto simp: cell_in_def region_closed_nth)
      with a have cs: "list_all (cell_in 0 lo) (cells_of (h ! b))"
        by (auto simp: region_closed_nth)
      from a Ref b obtain r' where "copy_cells (deepcopy n) h (cells_of (h ! b)) = Inr r'"
        by (auto split: sum.splits)
      from copy_cells_readable[OF deepcopy_copies Suc _ cs this] a
      obtain vs where "those (map (read n h) (cells_of (h ! b))) = Some vs" by blast
      with Ref b show ?thesis by simp
    qed
  qed
qed

text \<open>
  A deep copy that succeeds extends the store, returns a cell of the new part, which is
  closed, and that cell reads as the original does.
\<close>

lemma deepcopy_result:
  assumes "region_closed 0 lo h" "cell_in 0 lo c" "deepcopy n h c = Inr (c', h')"
  shows "\<exists>ext v. h' = h @ ext \<and> cell_in (length h) (length h') c' \<and>
           region_closed (length h) (length h') h' \<and>
           read n h c = Some v \<and> read n h' c' = Some v"
proof -
  from deepcopy_readable[of n lo] assms obtain v where v: "read n h c = Some v"
    unfolding readable_def by blast
  from deepcopy_copies[of n lo] assms(1,2) v obtain c2 ext where
    "deepcopy n h c = Inr (c2, h @ ext)" "cell_in (length h) (length h + length ext) c2"
    "region_closed (length h) (length h + length ext) (h @ ext)" "read n (h @ ext) c2 = Some v"
    unfolding copies_def by blast
  with assms(3) v show ?thesis by auto
qed

lemma deepcopy_of_readable:
  assumes "region_closed 0 lo h" "cell_in 0 lo c" "read n h c = Some v"
  shows "\<exists>c' h'. deepcopy n h c = Inr (c', h') \<and> read n h' c' = Some v"
  using deepcopy_copies[of n lo] assms unfolding copies_def by blast

lemma alloc_fresh:
  "alloc v h = (c, h') \<Longrightarrow>
     \<exists>ext. h' = h @ ext \<and> cell_in (length h) (length h') c \<and>
           region_closed (length h) (length h') h'"
  "alloc_list vs h = (cs, h') \<Longrightarrow>
     \<exists>ext. h' = h @ ext \<and> list_all (cell_in (length h) (length h')) cs \<and>
           region_closed (length h) (length h') h'"
  "alloc_items kvs h = (kcs, h') \<Longrightarrow>
     \<exists>ext. h' = h @ ext \<and> list_all (cell_in (length h) (length h')) (map snd kcs) \<and>
           region_closed (length h) (length h') h'"
proof (induction v h and vs h and kvs h arbitrary: c h' and cs h' and kcs h'
    rule: alloc_alloc_list_alloc_items.induct)
  case (6 vs h)
  obtain cs h1 where a: "alloc_list vs h = (cs, h1)" by (cases "alloc_list vs h")
  from "6.IH"[OF a] obtain ext where e: "h1 = h @ ext"
    "list_all (cell_in (length h) (length h1)) cs" "region_closed (length h) (length h1) h1"
    by blast
  from "6.prems" a have c: "c = Ref (length h1)" "h' = h1 @ [OList cs]" by simp_all
  have "list_all (cell_in (length h) (Suc (length h1))) (cells_of (OList cs))"
    using e(2) by (auto simp: list_all_iff intro: cell_in_mono)
  from region_closed_snoc[OF e(3) this] c e(1) show ?case
    by (auto simp: cell_in_def)
next
  case (7 kvs h)
  obtain kcs h1 where a: "alloc_items kvs h = (kcs, h1)" by (cases "alloc_items kvs h")
  from "7.IH"[OF a] obtain ext where e: "h1 = h @ ext"
    "list_all (cell_in (length h) (length h1)) (map snd kcs)"
    "region_closed (length h) (length h1) h1"
    by blast
  from "7.prems" a have c: "c = Ref (length h1)" "h' = h1 @ [ODict kcs]" by simp_all
  have "list_all (cell_in (length h) (Suc (length h1))) (cells_of (ODict kcs))"
    using e(2) by (auto simp: list_all_iff intro: cell_in_mono)
  from region_closed_snoc[OF e(3) this] c e(1) show ?case
    by (auto simp: cell_in_def)
next
  case (9 v vs h)
  obtain c1 h1 where a: "alloc v h = (c1, h1)" by (cases "alloc v h")
  obtain cs2 h2 where b: "alloc_list vs h1 = (cs2, h2)" by (cases "alloc_list vs h1")
  from "9.IH"(1)[OF a] obtain e1 where e1: "h1 = h @ e1" "cell_in (length h) (length h1) c1"
    "region_closed (length h) (length h1) h1" by blast
  from "9.IH"(2)[OF a[symmetric] b] obtain e2 where e2: "h2 = h1 @ e2"
    "list_all (cell_in (length h1) (length h2)) cs2" "region_closed (length h1) (length h2) h2"
    by blast
  from "9.prems" a b have r: "cs = c1 # cs2" "h' = h2" by simp_all
  have "region_closed (length h) (length h1) h2"
    using region_closed_append[OF e1(3), of e2] e2(1) by simp
  from region_closed_join[OF this e2(3)] e1(1) e2(1)
  have "region_closed (length h) (length h2) h2" by simp
  with r e1 e2 show ?case
    by (auto simp: list_all_iff intro: cell_in_mono)
next
  case (11 kv kvs h)
  obtain c1 h1 where a: "alloc (snd kv) h = (c1, h1)" by (cases "alloc (snd kv) h")
  obtain kcs2 h2 where b: "alloc_items kvs h1 = (kcs2, h2)" by (cases "alloc_items kvs h1")
  from "11.IH"(1)[OF a] obtain e1 where e1: "h1 = h @ e1" "cell_in (length h) (length h1) c1"
    "region_closed (length h) (length h1) h1" by blast
  from "11.IH"(2)[OF a[symmetric] b] obtain e2 where e2: "h2 = h1 @ e2"
    "list_all (cell_in (length h1) (length h2)) (map snd kcs2)"
    "region_closed (length h1) (length h2) h2"
    by blast
  from "11.prems" a b have r: "kcs = (fst kv, c1) # kcs2" "h' = h2" by simp_all
  have "region_closed (length h) (length h1) h2"
    using region_closed_append[OF e1(3), of e2] e2(1) by simp
  from region_closed_join[OF this e2(3)] e1(1) e2(1)
  have "region_closed (length h) (length h2) h2" by simp
  with r e1 e2 show ?case
    by (auto simp: list_all_iff intro: cell_in_mono)
qed (auto simp: cell_in_def region_closed_empty)

subsection \<open>The reads keep the store well formed\<close>

lemma wf_store_initial: "wf_store [] initial"
  by (simp add: wf_store_def initial_def region_closed_def)

lemma wf_store_buffers:
  "wf_store h s \<Longrightarrow> settings_buffer s1 = settings_buffer s \<Longrightarrow>
   users_buffer s1 = users_buffer s \<Longrightarrow> wf_store h s1"
  by (simp add: wf_store_def)

lemma wf_store_extend:
  assumes w: "wf_store h s" and rc: "region_closed 0 (length (h @ ext)) (h @ ext)"
  shows "wf_store (h @ ext) s"
proof -
  have "cell_in 0 (length (h @ ext)) x" if "cell_in 0 (length h) x" for x
    by (rule cell_in_mono[OF that]) simp_all
  with w rc show ?thesis by (auto simp: wf_store_def list_all_iff)
qed

lemma wf_store_alloc:
  assumes w: "wf_store h s" and a: "alloc v h = (c, h')"
  shows "region_closed 0 (length h') h' \<and> cell_in 0 (length h') c \<and> length h \<le> length h' \<and>
         list_all (\<lambda>kc. cell_in 0 (length h') (snd kc)) (settings_buffer s) \<and>
         list_all (\<lambda>kc. cell_in 0 (length h') (snd kc)) (users_buffer s)"
proof -
  from alloc_fresh(1)[OF a] obtain ext where e: "h' = h @ ext"
    "cell_in (length h) (length h') c" "region_closed (length h) (length h') h'" by blast
  from w have "region_closed 0 (length h) h'"
    using region_closed_append[of 0 "length h" h ext] e(1) by (simp add: wf_store_def)
  from region_closed_join[OF this e(3)] e(1) have "region_closed 0 (length h') h'" by simp
  moreover from e(2) have "cell_in 0 (length h') c" by (rule cell_in_mono) simp_all
  moreover have "cell_in 0 (length h') x" if "cell_in 0 (length h) x" for x
    using that e(1) by (intro cell_in_mono[OF that]) simp_all
  ultimately show ?thesis using w e(1) by (auto simp: wf_store_def list_all_iff)
qed

lemma fetch_settings_st_ok:
  assumes w: "wf_store h s" and f: "fetch_settings_st now gid force h s = (Inr u, h1, s1)"
  shows "wf_store h1 s1 \<and> has_key gid (settings_buffer s1)"
proof (cases "force \<or> \<not> has_key gid (settings_buffer s)")
  case False
  with f w show ?thesis by (simp add: fetch_settings_st_def)
next
  case True
  obtain r sa where a: "db_find_one Settings gid s = (r, sa)" by (cases "db_find_one Settings gid s")
  obtain q sb where i: "db_insert_one Settings [(''_id'', PInt gid)] sa = (q, sb)"
    by (cases "db_insert_one Settings [(''_id'', PInt gid)] sa")
  have step: "wf_store h1 s1 \<and> has_key gid (settings_buffer s1)"
    if h1: "h1 = snd (alloc (PDict d) h)"
      and s1: "s1 = s2\<lparr>settings_buffer :=
                        AList.update gid (fst (alloc (PDict d) h)) (settings_buffer s2),
                      last_access := AList.update gid now (last_access s2)\<rparr>"
      and b: "settings_buffer s2 = settings_buffer s" "users_buffer s2 = users_buffer s"
    for d s2
  proof -
    obtain c h' where al: "alloc (PDict d) h = (c, h')" by (cases "alloc (PDict d) h")
    from wf_store_alloc[OF w al] have
      "region_closed 0 (length h') h'" "cell_in 0 (length h') c"
      "list_all (\<lambda>kc. cell_in 0 (length h') (snd kc)) (settings_buffer s)"
      "list_all (\<lambda>kc. cell_in 0 (length h') (snd kc)) (users_buffer s)"
      by simp_all
    moreover from h1 s1 b al have "h1 = h'"
      "settings_buffer s1 = AList.update gid c (settings_buffer s)"
      "users_buffer s1 = users_buffer s"
      by simp_all
    ultimately show ?thesis
      by (simp add: wf_store_def has_key_update list_all_update)
  qed
  show ?thesis
  proof (cases r)
    case (Inl e)
    with f True a show ?thesis by (simp add: fetch_settings_st_def)
  next
    case (Inr found)
    show ?thesis
    proof (cases "found = None \<or> found = Some []")
      case n: True
      with f True a i Inr obtain u' where q: "q = Inr u'"
        by (cases q) (simp_all add: fetch_settings_st_def)
      from f True a i Inr n q have
        "h1 = snd (alloc (PDict [(''_id'', PInt gid)]) h)"
        "s1 = sb\<lparr>settings_buffer :=
                    AList.update gid (fst (alloc (PDict [(''_id'', PInt gid)]) h)) (settings_buffer sb),
                  last_access := AList.update gid now (last_access sb)\<rparr>"
        by (simp_all add: fetch_settings_st_def del: alloc.simps)
      moreover from db_find_one_frame[OF a] db_insert_one_frame[OF i] have
        "settings_buffer sb = settings_buffer s" "users_buffer sb = users_buffer s" by simp_all
      ultimately show ?thesis by (rule step)
    next
      case n: False
      from f True a Inr n have
        "h1 = snd (alloc (PDict (the found)) h)"
        "s1 = sa\<lparr>settings_buffer :=
                    AList.update gid (fst (alloc (PDict (the found)) h)) (settings_buffer sa),
                  last_access := AList.update gid now (last_access sa)\<rparr>"
        by (simp_all add: fetch_settings_st_def del: alloc.simps)
      moreover from db_find_one_frame[OF a] have
        "settings_buffer sa = settings_buffer s" "users_buffer sa = users_buffer s" by simp_all
      ultimately show ?thesis by (rule step)
    qed
  qed
qed

lemma fetch_settings_st_failed:
  assumes f: "fetch_settings_st now gid force h s = (Inl e, h1, s1)"
  shows "h1 = h \<and> settings_buffer s1 = settings_buffer s \<and> users_buffer s1 = users_buffer s"
proof -
  obtain r sa where a: "db_find_one Settings gid s = (r, sa)" by (cases "db_find_one Settings gid s")
  obtain q sb where i: "db_insert_one Settings [(''_id'', PInt gid)] sa = (q, sb)"
    by (cases "db_insert_one Settings [(''_id'', PInt gid)] sa")
  from f a i db_find_one_frame[OF a] db_insert_one_frame[OF i] show ?thesis
    by (auto simp: fetch_settings_st_def simp del: alloc.simps split: if_splits sum.splits)
qed

lemma fetch_user_st_ok:
  assumes w: "wf_store h s" and f: "fetch_user_st now uid force h s = (Inr u, h1, s1)"
  shows "wf_store h1 s1 \<and> has_key uid (users_buffer s1)"
proof (cases "force \<or> \<not> has_key uid (users_buffer s)")
  case False
  with f w show ?thesis by (simp add: fetch_user_st_def)
next
  case True
  let ?dflt = "merge_into [(''_id'', PInt uid)] user_base"
  obtain r sa where a: "db_find_one Users uid s = (r, sa)" by (cases "db_find_one Users uid s")
  obtain q sb where i: "db_insert_one Users ?dflt sa = (q, sb)"
    by (cases "db_insert_one Users ?dflt sa")
  have step: "wf_store h1 s1 \<and> has_key uid (users_buffer s1)"
    if h1: "h1 = snd (alloc (PDict d) h)"
      and s1: "s1 = s2\<lparr>users_buffer :=
                        AList.update uid (fst (alloc (PDict d) h)) (users_buffer s2),
                      last_access := AList.update uid now (last_access s2)\<rparr>"
      and b: "settings_buffer s2 = settings_buffer s" "users_buffer s2 = users_buffer s"
    for d s2
  proof -
    obtain c h' where al: "alloc (PDict d) h = (c, h')" by (cases "alloc (PDict d) h")
    from wf_store_alloc[OF w al] have
      "region_closed 0 (length h') h'" "cell_in 0 (length h') c"
      "list_all (\<lambda>kc. cell_in 0 (length h') (snd kc)) (settings_buffer s)"
      "list_all (\<lambda>kc. cell_in 0 (length h') (snd kc)) (users_buffer s)"
      by simp_all
    moreover from h1 s1 b al have "h1 = h'"
      "users_buffer s1 = AList.update uid c (users_buffer s)"
      "settings_buffer s1 = settings_buffer s"
      by simp_all
    ultimately show ?thesis
      by (simp add: wf_store_def has_key_update list_all_update)
  qed
  show ?thesis
  proof (cases r)
    case (Inl e)
    with f True a show ?thesis by (simp add: fetch_user_st_def)
  next
    case (Inr found)
    show ?thesis
    proof (cases "found = None \<or> found = Some []")
      case n: True
      with f True a i Inr obtain u' where q: "q = Inr u'"
        by (cases q) (simp_all add: fetch_user_st_def)
      from f True a i Inr n q have
        "h1 = snd (alloc (PDict ?dflt) h)"
        "s1 = sb\<lparr>users_buffer :=
                    AList.update uid (fst (alloc (PDict ?dflt) h)) (users_buffer sb),
                  last_access := AList.update uid now (last_access sb)\<rparr>"
        by (simp_all add: fetch_user_st_def del: alloc.simps)
      moreover from db_find_one_frame[OF a] db_insert_one_frame[OF i] have
        "settings_buffer sb = settings_buffer s" "users_buffer sb = users_buffer s" by simp_all
      ultimately show ?thesis by (rule step)
    next
      case n: False
      from f True a Inr n have
        "h1 = snd (alloc (PDict (the found)) h)"
        "s1 = sa\<lparr>users_buffer :=
                    AList.update uid (fst (alloc (PDict (the found)) h)) (users_buffer sa),
                  last_access := AList.update uid now (last_access sa)\<rparr>"
        by (simp_all add: fetch_user_st_def del: alloc.simps)
      moreover from db_find_one_frame[OF a] have
        "settings_buffer sa = settings_buffer s" "users_buffer sa = users_buffer s" by simp_all
      ultimately show ?thesis by (rule step)
    qed
  qed
qed

lemma fetch_user_st_failed:
  assumes f: "fetch_user_st now uid force h s = (Inl e, h1, s1)"
  shows "h1 = h \<and> settings_buffer s1 = settings_buffer s \<and> users_buffer s1 = users_buffer s"
proof -
  let ?d = "merge_into [(''_id'', PInt uid)] user_base"
  obtain r sa where a: "db_find_one Users uid s = (r, sa)" by (cases "db_find_one Users uid s")
  obtain q sb where i: "db_insert_one Users ?d sa = (q, sb)"
    by (cases "db_insert_one Users ?d sa")
  from f a i db_find_one_frame[OF a] db_insert_one_frame[OF i] show ?thesis
    by (auto simp: fetch_user_st_def simp del: alloc.simps split: if_splits sum.splits)
qed

lemma setdefault_st_ok:
  assumes rc: "region_closed 0 (length h) h" and e: "cell_in 0 (length h) entry"
    and sd: "setdefault_st entry f dflt h = Inr (c, h1)"
  shows "region_closed 0 (length h1) h1 \<and> length h \<le> length h1 \<and> cell_in 0 (length h1) c \<and>
         (\<forall>x. cell_in 0 (length h) x \<longrightarrow> cell_in 0 (length h1) x) \<and>
         (\<exists>a kcs. entry = Ref a \<and> a < length h \<and> h1 ! a = ODict kcs \<and> map_of kcs f = Some c)"
proof -
  from sd obtain a where en: "entry = Ref a" by (cases entry) auto
  with sd have a: "a < length h" by (auto split: if_splits)
  with sd en obtain kcs where ob: "h ! a = ODict kcs"
    by (cases "h ! a") (auto simp del: alloc.simps)
  obtain g hg where al: "alloc dflt h = (g, hg)" by (cases "alloc dflt h")
  from alloc_fresh(1)[OF al] obtain ext where x: "hg = h @ ext"
    "cell_in (length h) (length hg) g" "region_closed (length h) (length hg) hg" by blast
  have "region_closed 0 (length h) hg" using region_closed_append[OF rc, of ext] x(1) by simp
  from region_closed_join[OF this x(3)] x(1) have rg: "region_closed 0 (length hg) hg" by simp
  have mono: "cell_in 0 (length hg) y" if "cell_in 0 (length h) y" for y
    using that x(1) by (intro cell_in_mono[OF that]) simp_all
  have g0: "cell_in 0 (length hg) g" using x(2) by (rule cell_in_mono) simp_all
  from rc a ob have old: "list_all (cell_in 0 (length h)) (map snd kcs)"
    by (auto simp: region_closed_nth)
  show ?thesis
  proof (cases "map_of kcs f")
    case (Some c0)
    with sd en a ob al have r: "c = c0" "h1 = hg" by (simp_all del: alloc.simps)
    from Some have "c0 \<in> set (map snd kcs)" by (force dest: map_of_SomeD)
    with old have "cell_in 0 (length h) c0" by (auto simp: list_all_iff)
    with r rg x(1) a ob Some en mono show ?thesis
      by (auto simp: nth_append)
  next
    case None
    with sd en a ob al have r: "c = g" "h1 = hg[a := ODict (kcs @ [(f, g)])]"
      by (auto simp del: alloc.simps)
    have "list_all (cell_in 0 (length hg)) (cells_of (ODict (kcs @ [(f, g)])))"
      using old g0 mono by (auto simp: list_all_iff)
    from region_closed_update[OF rg _ this, of a] a x(1)
    have "region_closed 0 (length hg) (hg[a := ODict (kcs @ [(f, g)])])" by simp
    moreover have "map_of (kcs @ [(f, g)]) f = Some g" using None by (simp add: map_add_def)
    ultimately show ?thesis using r g0 x(1) a en mono by auto
  qed
qed

lemma setdefault_st_again:
  assumes "a < length h" "h ! a = ODict kcs" "map_of kcs f = Some c"
  shows "\<exists>ext. setdefault_st (Ref a) f dflt h = Inr (c, h @ ext)"
proof -
  obtain g hg where al: "alloc dflt h = (g, hg)" by (cases "alloc dflt h")
  from alloc_fresh(1)[OF al] obtain ext where "hg = h @ ext" by blast
  with assms al show ?thesis by (auto simp del: alloc.simps)
qed

lemma deepcopy_keeps_wf:
  assumes w: "wf_store h s" and c: "cell_in 0 (length h) x" and d: "deepcopy limit h x = Inr (y, h')"
  shows "wf_store h' s"
proof -
  from w have rc: "region_closed 0 (length h) h" by (simp add: wf_store_def)
  from deepcopy_result[OF rc c d] obtain ext where
    r: "h' = h @ ext" "region_closed (length h) (length h') h'" by blast
  have "region_closed 0 (length h) h'" using region_closed_append[OF rc, of ext] r(1) by simp
  from region_closed_join[OF this r(2)] r(1) have "region_closed 0 (length h') h'" by simp
  with wf_store_extend[OF w, of ext] r(1) show ?thesis by simp
qed

lemma get_settings_st_keeps_wf:
  assumes w: "wf_store h s" and g: "get_settings_st limit now gid force h s = (r, h', s')"
  shows "wf_store h' s'"
proof -
  obtain q h1 s1 where f: "fetch_settings_st now gid force h s = (q, h1, s1)"
    by (cases "fetch_settings_st now gid force h s")
  show ?thesis
  proof (cases q)
    case (Inl e)
    with f g have "h' = h1" "s' = s1" by (simp_all add: get_settings_st_def)
    with fetch_settings_st_failed[OF f[unfolded Inl]] w show ?thesis
      by (auto intro: wf_store_buffers)
  next
    case (Inr u)
    from fetch_settings_st_ok[OF w f[unfolded Inr]]
    have w1: "wf_store h1 s1" and k: "has_key gid (settings_buffer s1)" by simp_all
    from k obtain entry where e: "map_of (settings_buffer s1) gid = Some entry"
      by (auto simp: has_key_def)
    from w1 e have ce: "cell_in 0 (length h1) entry"
      using map_of_list_all[of "\<lambda>kc. cell_in 0 (length h1) (snd kc)" "settings_buffer s1" gid entry]
      by (simp add: wf_store_def)
    show ?thesis
    proof (cases "deepcopy limit h1 entry")
      case (Inl e')
      with f g Inr e w1 show ?thesis by (simp add: get_settings_st_def)
    next
      case d: (Inr p)
      with f g Inr e have "h' = snd p" "s' = s1" by (simp_all add: get_settings_st_def)
      with deepcopy_keeps_wf[OF w1 ce, of limit "fst p" "snd p"] d show ?thesis by simp
    qed
  qed
qed

lemma get_user_st_keeps_wf:
  assumes w: "wf_store h s"
    and g: "get_user_st limit now uid d_type need_copy force h s = (r, h', s')"
  shows "wf_store h' s'"
proof -
  let ?f = "the d_type"
  let ?dflt = "get_default user_base ?f PNone"
  obtain q h1 s1 where f: "fetch_user_st now uid force h s = (q, h1, s1)"
    by (cases "fetch_user_st now uid force h s")
  show ?thesis
  proof (cases q)
    case (Inl e)
    with f g have "h' = h1" "s' = s1" by (simp_all add: get_user_st_def)
    with fetch_user_st_failed[OF f[unfolded Inl]] w show ?thesis
      by (auto intro: wf_store_buffers)
  next
    case (Inr u)
    from fetch_user_st_ok[OF w f[unfolded Inr]]
    have w1: "wf_store h1 s1" and k: "has_key uid (users_buffer s1)" by simp_all
    from k obtain entry where e: "map_of (users_buffer s1) uid = Some entry"
      by (auto simp: has_key_def)
    from w1 e have ce: "cell_in 0 (length h1) entry"
      using map_of_list_all[of "\<lambda>kc. cell_in 0 (length h1) (snd kc)" "users_buffer s1" uid entry]
      by (simp add: wf_store_def)
    from w1 have rc1: "region_closed 0 (length h1) h1" by (simp add: wf_store_def)
    let ?u = "if d_type \<noteq> None \<and> d_type \<noteq> Some [] then
                (if \<not> has_key ?f user_base then Inl ValueError
                 else setdefault_st entry ?f ?dflt h1)
              else Inr (entry, h1)"
    show ?thesis
    proof (cases ?u)
      case (Inl e')
      with f g Inr e w1 show ?thesis by (simp add: get_user_st_def del: setdefault_st.simps)
    next
      case u: (Inr p)
      have w2: "wf_store (snd p) s1 \<and> cell_in 0 (length (snd p)) (fst p)"
      proof (cases "d_type \<noteq> None \<and> d_type \<noteq> Some []")
        case False
        with u w1 ce show ?thesis by auto
      next
        case True
        with u have sd: "setdefault_st entry ?f ?dflt h1 = Inr (fst p, snd p)"
          by (auto split: if_splits)
        from setdefault_st_ok[OF rc1 ce sd] w1 show ?thesis
          by (auto simp: wf_store_def list_all_iff)
      qed
      show ?thesis
      proof (cases need_copy)
        case False
        with f g Inr e u have "h' = snd p" "s' = s1"
          by (simp_all add: get_user_st_def del: setdefault_st.simps)
        with w2 show ?thesis by simp
      next
        case True
        show ?thesis
        proof (cases "deepcopy limit (snd p) (fst p)")
          case (Inl e')
          with f g Inr e u True have "h' = snd p" "s' = s1"
            by (simp_all add: get_user_st_def del: setdefault_st.simps)
          with w2 show ?thesis by simp
        next
          case d: (Inr p')
          with f g Inr e u True have "h' = snd p'" "s' = s1"
            by (simp_all add: get_user_st_def del: setdefault_st.simps)
          with deepcopy_keeps_wf[of "snd p" s1 "fst p" limit "fst p'" "snd p'"] w2 d
          show ?thesis by simp
        qed
      qed
    qed
  qed
qed

subsection \<open>Reads return fresh copies\<close>

theorem settings_copy_is_independent:
  assumes w: "wf_store h s"
    and g: "get_settings_st limit now gid force h s = (Inr c, h', s')"
  shows "\<exists>n entry v.
           map_of (settings_buffer s') gid = Some entry \<and>
           n \<le> length h' \<and> cell_in 0 n entry \<and> region_closed 0 n h' \<and>
           cell_in n (length h') c \<and> region_closed n (length h') h' \<and>
           read limit h' entry = Some v \<and> read limit h' c = Some v \<and>
           (\<forall>h''. n \<le> length h'' \<and> take n h'' = take n h' \<longrightarrow>
              (\<forall>k. read k h'' entry = read k h' entry) \<and>
              (\<exists>c2 h2. get_settings_st limit now' gid False h'' s' = (Inr c2, h2, s') \<and>
                        read limit h2 c2 = Some v))"
proof -
  from g obtain h1 where f: "fetch_settings_st now gid force h s = (Inr (), h1, s')"
    by (auto simp: get_settings_st_def split: prod.splits sum.splits option.splits)
  from fetch_settings_st_ok[OF w f] have w1: "wf_store h1 s'" and k: "has_key gid (settings_buffer s')"
    by simp_all
  from k obtain entry where e: "map_of (settings_buffer s') gid = Some entry"
    by (auto simp: has_key_def)
  from w1 e have ce: "cell_in 0 (length h1) entry"
    using map_of_list_all[of "\<lambda>kc. cell_in 0 (length h1) (snd kc)" "settings_buffer s'" gid entry]
    by (simp add: wf_store_def)
  from w1 have rc: "region_closed 0 (length h1) h1" by (simp add: wf_store_def)
  from g f e have d: "deepcopy limit h1 entry = Inr (c, h')"
    by (auto simp: get_settings_st_def split: sum.splits)
  from deepcopy_result[OF rc ce d] obtain ext v where
    r: "h' = h1 @ ext" "cell_in (length h1) (length h') c"
       "region_closed (length h1) (length h') h'"
       "read limit h1 entry = Some v" "read limit h' c = Some v"
    by blast
  let ?n = "length h1"
  have rc': "region_closed 0 ?n h'" using region_closed_append[OF rc, of ext] r(1) by simp
  have re: "read limit h' entry = Some v"
    using read_append[OF rc ce, of limit ext] r(1,4) by simp
  have fr: "(\<forall>k. read k h'' entry = read k h' entry) \<and>
            (\<exists>c2 h2. get_settings_st limit now' gid False h'' s' = (Inr c2, h2, s') \<and>
                      read limit h2 c2 = Some v)"
    if m: "?n \<le> length h'' \<and> take ?n h'' = take ?n h'" for h''
  proof -
    from m have same: "\<forall>a. 0 \<le> a \<and> a < ?n \<longrightarrow> h'' ! a = h' ! a"
      by (auto intro: take_eq_nth)
    from m have le: "?n \<le> length h''" by simp
    have 1: "read k h'' entry = read k h' entry" for k
      by (rule read_frame[OF rc' le same ce])
    have rc'': "region_closed 0 ?n h''" by (rule region_closed_frame[OF rc' le same])
    from 1[of limit] re have "read limit h'' entry = Some v" by simp
    from deepcopy_of_readable[OF rc'' ce this] obtain c2 h2 where
      "deepcopy limit h'' entry = Inr (c2, h2)" "read limit h2 c2 = Some v" by blast
    with k e have "get_settings_st limit now' gid False h'' s' = (Inr c2, h2, s') \<and>
                      read limit h2 c2 = Some v"
      by (simp add: get_settings_st_def fetch_settings_st_def)
    with 1 show ?thesis by blast
  qed
  have nle: "?n \<le> length h'" by (simp add: r(1))
  from e nle ce rc' r(2,3) re r(5) fr show ?thesis by blast
qed

lemma user_copy_is_independent:
  assumes w: "wf_store h s"
    and g: "get_user_st limit now uid d_type True force h s = (Inr c, h', s')"
  shows "\<exists>n entry src v.
           map_of (users_buffer s') uid = Some entry \<and>
           n \<le> length h' \<and> cell_in 0 n entry \<and> cell_in 0 n src \<and> region_closed 0 n h' \<and>
           cell_in n (length h') c \<and> region_closed n (length h') h' \<and>
           read limit h' src = Some v \<and> read limit h' c = Some v \<and>
           ((d_type = None \<or> d_type = Some []) \<and> src = entry \<or>
            (\<exists>a kcs. entry = Ref a \<and> a < n \<and> h' ! a = ODict kcs \<and>
                     map_of kcs (the d_type) = Some src)) \<and>
           (\<forall>h''. n \<le> length h'' \<and> take n h'' = take n h' \<longrightarrow>
              (\<forall>k. read k h'' entry = read k h' entry) \<and>
              (\<forall>k. read k h'' src = read k h' src) \<and>
              (\<exists>c2 h2. get_user_st limit now' uid d_type True False h'' s' = (Inr c2, h2, s') \<and>
                        read limit h2 c2 = Some v))"
proof -
  let ?plain = "d_type = None \<or> d_type = Some []"
  let ?f = "the d_type"
  let ?dflt = "get_default user_base ?f PNone"
  from g obtain h1 where f: "fetch_user_st now uid force h s = (Inr (), h1, s')"
    by (auto simp: get_user_st_def split: prod.splits sum.splits option.splits if_splits)
  from fetch_user_st_ok[OF w f] have w1: "wf_store h1 s'" and k: "has_key uid (users_buffer s')"
    by simp_all
  from k obtain entry where e: "map_of (users_buffer s') uid = Some entry"
    by (auto simp: has_key_def)
  from w1 e have ce1: "cell_in 0 (length h1) entry"
    using map_of_list_all[of "\<lambda>kc. cell_in 0 (length h1) (snd kc)" "users_buffer s'" uid entry]
    by (simp add: wf_store_def)
  from w1 have rc1: "region_closed 0 (length h1) h1" by (simp add: wf_store_def)
  \<comment> \<open>the object that is copied, and the store it is copied in\<close>
  obtain src h2 where u:
    "(if \<not> ?plain then
        (if \<not> has_key ?f user_base then Inl ValueError else setdefault_st entry ?f ?dflt h1)
      else Inr (entry, h1)) = Inr (src, h2)"
    and d: "deepcopy limit h2 src = Inr (c, h')"
    using g f e
    by (auto simp: get_user_st_def simp del: setdefault_st.simps split: sum.splits if_splits)
  have base: "region_closed 0 (length h2) h2 \<and> cell_in 0 (length h2) entry \<and>
              cell_in 0 (length h2) src \<and>
              (?plain \<and> src = entry \<or>
               (\<not> ?plain \<and> has_key ?f user_base \<and>
                (\<exists>a kcs. entry = Ref a \<and> a < length h2 \<and> h2 ! a = ODict kcs \<and>
                         map_of kcs ?f = Some src)))"
  proof (cases ?plain)
    case True
    with u rc1 ce1 show ?thesis by auto
  next
    case False
    with u have hk: "has_key ?f user_base" and sd: "setdefault_st entry ?f ?dflt h1 = Inr (src, h2)"
      by (auto split: if_splits)
    from setdefault_st_ok[OF rc1 ce1 sd] False hk ce1 show ?thesis by fastforce
  qed
  let ?n = "length h2"
  from base have rc: "region_closed 0 ?n h2" and ce: "cell_in 0 ?n entry"
    and cs: "cell_in 0 ?n src" by simp_all
  from deepcopy_result[OF rc cs d] obtain ext v where
    r: "h' = h2 @ ext" "cell_in ?n (length h') c" "region_closed ?n (length h') h'"
       "read limit h2 src = Some v" "read limit h' c = Some v"
    by blast
  have rc': "region_closed 0 ?n h'" using region_closed_append[OF rc, of ext] r(1) by simp
  have rs: "read limit h' src = Some v"
    using read_append[OF rc cs, of limit ext] r(1,4) by simp
  have nle: "?n \<le> length h'" by (simp add: r(1))
  have rel: "(?plain \<and> src = entry) \<or>
            (\<exists>a kcs. entry = Ref a \<and> a < ?n \<and> h' ! a = ODict kcs \<and> map_of kcs ?f = Some src)"
    using base r(1) by (auto simp: nth_append)
  have fr: "(\<forall>k. read k h'' entry = read k h' entry) \<and>
            (\<forall>k. read k h'' src = read k h' src) \<and>
            (\<exists>c2 h3. get_user_st limit now' uid d_type True False h'' s' = (Inr c2, h3, s') \<and>
                      read limit h3 c2 = Some v)"
    if m: "?n \<le> length h'' \<and> take ?n h'' = take ?n h'" for h''
  proof -
    from m have same: "\<forall>a. 0 \<le> a \<and> a < ?n \<longrightarrow> h'' ! a = h' ! a"
      by (auto intro: take_eq_nth)
    from m have le: "?n \<le> length h''" by simp
    have 1: "read k h'' x = read k h' x" if "cell_in 0 ?n x" for k x
      by (rule read_frame[OF rc' le same that])
    have rc'': "region_closed 0 ?n h''" by (rule region_closed_frame[OF rc' le same])
    have hit: "fetch_user_st now' uid False h'' s' = (Inr (), h'', s')"
      using k by (simp add: fetch_user_st_def)
    \<comment> \<open>the second call reaches the same object, in a store that extends \<open>h''\<close>\<close>
    have "\<exists>ext2.
        (if \<not> ?plain then
           (if \<not> has_key ?f user_base then Inl ValueError else setdefault_st entry ?f ?dflt h'')
         else Inr (entry, h'')) = Inr (src, h'' @ ext2)"
    proof (cases ?plain)
      case True
      with base show ?thesis by (intro exI[of _ "[]"]) auto
    next
      case False
      with base obtain a kcs where ak: "has_key ?f user_base" "entry = Ref a" "a < ?n"
        "h2 ! a = ODict kcs" "map_of kcs ?f = Some src" by auto
      from ak(3,4) r(1) same have "h'' ! a = ODict kcs" by (simp add: nth_append)
      from setdefault_st_again[OF _ this ak(5), of ?dflt] ak(3) le
      obtain ext2 where "setdefault_st (Ref a) ?f ?dflt h'' = Inr (src, h'' @ ext2)" by auto
      with False ak(1,2) show ?thesis by (auto simp del: setdefault_st.simps)
    qed
    then obtain ext2 where u2:
      "(if \<not> ?plain then
           (if \<not> has_key ?f user_base then Inl ValueError else setdefault_st entry ?f ?dflt h'')
         else Inr (entry, h'')) = Inr (src, h'' @ ext2)" ..
    have rc3: "region_closed 0 ?n (h'' @ ext2)" by (rule region_closed_append[OF rc''])
    have "read limit (h'' @ ext2) src = read limit h'' src" by (rule read_append[OF rc'' cs])
    with 1[OF cs, of limit] rs have "read limit (h'' @ ext2) src = Some v" by simp
    from deepcopy_of_readable[OF rc3 cs this] obtain c2 h3 where
      d2: "deepcopy limit (h'' @ ext2) src = Inr (c2, h3)" "read limit h3 c2 = Some v" by blast
    have "get_user_st limit now' uid d_type True False h'' s' = (Inr c2, h3, s')"
      unfolding get_user_st_def hit using e u2 d2(1) by (simp del: setdefault_st.simps)
    with d2(2) 1[OF ce] 1[OF cs] show ?thesis by blast
  qed
  from e nle ce cs rc' r(2,3) rs r(5) rel fr show ?thesis by blast
qed

text \<open>
  C8: a read with the default copy behaviour returns a deep, independent copy.
  Let \<open>get_settings\<close>, or \<open>get_user\<close> with \<open>need_copy=True\<close>, return the cell \<open>c\<close> in the
  store \<open>h'\<close>. Then the store splits at an address \<open>n\<close>: the cached document \<open>entry\<close>
  (and the field \<open>src\<close> of it that a \<open>d_type\<close> selects) lies on the cache side with all it
  reaches, the returned object lies on the fresh side with all it reaches, and both read
  as the same value \<open>v\<close>. Whatever is then done to objects of the fresh side, and
  whatever is allocated (\<open>same_below n h' h''\<close>), the cached document reads as before at
  every depth, and the same read, served from the cache, returns a cell that reads as
  \<open>v\<close> again and leaves the handler as it was.
\<close>

theorem reads_return_fresh_copies:
  assumes w: "wf_store h s"
  shows "(get_settings_st limit now gid force h s = (Inr c, h', s') \<longrightarrow>
          (\<exists>n entry v.
             map_of (settings_buffer s') gid = Some entry \<and>
             cache_side n h' entry \<and> fresh_side n h' c \<and>
             read limit h' entry = Some v \<and> read limit h' c = Some v \<and>
             (\<forall>h''. same_below n h' h'' \<longrightarrow>
                (\<forall>k. read k h'' entry = read k h' entry) \<and>
                (\<exists>c2 h2. get_settings_st limit now' gid False h'' s' = (Inr c2, h2, s') \<and>
                          read limit h2 c2 = Some v)))) \<and>
         (get_user_st limit now uid d_type True force h s = (Inr c, h', s') \<longrightarrow>
          (\<exists>n entry src v.
             map_of (users_buffer s') uid = Some entry \<and>
             cache_side n h' entry \<and> cache_side n h' src \<and> fresh_side n h' c \<and>
             read limit h' src = Some v \<and> read limit h' c = Some v \<and>
             ((d_type = None \<or> d_type = Some []) \<and> src = entry \<or>
              (\<exists>a kcs. entry = Ref a \<and> h' ! a = ODict kcs \<and>
                       map_of kcs (the d_type) = Some src)) \<and>
             (\<forall>h''. same_below n h' h'' \<longrightarrow>
                (\<forall>k. read k h'' entry = read k h' entry) \<and>
                (\<forall>k. read k h'' src = read k h' src) \<and>
                (\<exists>c2 h2. get_user_st limit now' uid d_type True False h'' s' = (Inr c2, h2, s') \<and>
                          read limit h2 c2 = Some v))))"
proof (intro conjI impI)
  assume g: "get_settings_st limit now gid force h s = (Inr c, h', s')"
  from settings_copy_is_independent[OF w g, of now']
  show "\<exists>n entry v.
             map_of (settings_buffer s') gid = Some entry \<and>
             cache_side n h' entry \<and> fresh_side n h' c \<and>
             read limit h' entry = Some v \<and> read limit h' c = Some v \<and>
             (\<forall>h''. same_below n h' h'' \<longrightarrow>
                (\<forall>k. read k h'' entry = read k h' entry) \<and>
                (\<exists>c2 h2. get_settings_st limit now' gid False h'' s' = (Inr c2, h2, s') \<and>
                          read limit h2 c2 = Some v))"
    unfolding cache_side_def fresh_side_def same_below_def by blast
next
  assume g: "get_user_st limit now uid d_type True force h s = (Inr c, h', s')"
  from user_copy_is_independent[OF w g, of now']
  show "\<exists>n entry src v.
             map_of (users_buffer s') uid = Some entry \<and>
             cache_side n h' entry \<and> cache_side n h' src \<and> fresh_side n h' c \<and>
             read limit h' src = Some v \<and> read limit h' c = Some v \<and>
             ((d_type = None \<or> d_type = Some []) \<and> src = entry \<or>
              (\<exists>a kcs. entry = Ref a \<and> h' ! a = ODict kcs \<and>
                       map_of kcs (the d_type) = Some src)) \<and>
             (\<forall>h''. same_below n h' h'' \<longrightarrow>
                (\<forall>k. read k h'' entry = read k h' entry) \<and>
                (\<forall>k. read k h'' src = read k h' src) \<and>
                (\<exists>c2 h2. get_user_st limit now' uid d_type True False h'' s' = (Inr c2, h2, s') \<and>
                          read limit h2 c2 = Some v))"
    unfolding cache_side_def fresh_side_def same_below_def
    apply (elim exE conjE)
    subgoal for n entry src v
      apply (rule exI[of _ n], rule exI[of _ entry], rule exI[of _ src], rule exI[of _ v])
      apply (intro conjI; (assumption)?)
      apply blast
      done
    done
qed

text \<open>
  Guild 7: the caller empties the dictionary it was given. User 42: the caller adds a
  playlist to the \<open>playlist\<close> dictionary inside the document it was given. The next read
  returns the documents as they are cached.
\<close>

theorem reads_return_fresh_copies_witness:
  "wf_store [] (initial :: cell handler_state) \<and>
   fst store7 = Inr (Ref 1) \<and>
   (\<exists>c2 h2. get_settings_st 100 5 7 False ((fst (snd store7))[1 := ODict []]) (snd (snd store7)) =
               (Inr c2, h2, snd (snd store7)) \<and>
            read 100 h2 c2 = Some (PDict [(''_id'', PInt 7)])) \<and>
   wf_store [] (initial\<lparr>users_db := [user42_doc]\<rparr>) \<and>
   fst store42_all = Inr (Ref 7) \<and>
   (\<exists>c2 h2. get_user_st 100 5 42 None True False
               ((fst (snd store42_all))[4 := ODict [(''201'', Atom (AStr ''Road Trip''))]])
               (snd (snd store42_all)) =
               (Inr c2, h2, snd (snd store42_all)) \<and>
            read 100 h2 c2 = Some (PDict user42_doc))"
proof -
  let ?H = "fst (snd store7)" and ?S = "snd (snd store7)"
  let ?K = "fst (snd store42_all)" and ?T = "snd (snd store42_all)"
  have w7: "wf_store [] (initial :: cell handler_state)" by code_simp
  have w42: "wf_store [] (initial\<lparr>users_db := [user42_doc]\<rparr>)" by code_simp
  have f7: "fst store7 = Inr (Ref 1)" by code_simp
  have f42: "fst store42_all = Inr (Ref 7)" by code_simp
  have g7: "get_settings_st 100 1 7 False [] initial = (Inr (Ref 1), ?H, ?S)"
    unfolding store7_def by code_simp
  have g42: "get_user_st 100 1 42 None True False [] (initial\<lparr>users_db := [user42_doc]\<rparr>) =
               (Inr (Ref 7), ?K, ?T)"
    unfolding store42_all_def by code_simp
  have r7: "read 100 ?H (Ref 1) = Some (PDict [(''_id'', PInt 7)])" by code_simp
  have r42: "read 100 ?K (Ref 7) = Some (PDict user42_doc)" by code_simp
  have l7: "length ?H = 2" by code_simp
  have l42: "length ?K = 8" by code_simp
  have o42: "cells_of (?K ! 7) = [Atom (AInt 42), Ref 4, Ref 5, Ref 6, Atom (AStr ''ann'')]"
    by code_simp
  \<comment> \<open>settings\<close>
  from reads_return_fresh_copies[OF w7, THEN conjunct1, THEN mp, OF g7, of 5]
  obtain n v where
    a: "fresh_side n ?H (Ref 1)" "read 100 ?H (Ref 1) = Some v"
      "\<forall>h''. same_below n ?H h'' \<longrightarrow>
         (\<exists>c2 h2. get_settings_st 100 5 7 False h'' ?S = (Inr c2, h2, ?S) \<and>
                   read 100 h2 c2 = Some v)"
    by blast
  from a(1) have "n \<le> 1" by (simp add: fresh_side_def cell_in_def)
  then have "same_below n ?H (?H[1 := ODict []])" by (simp add: same_below_def l7)
  with a(3) a(2) r7 have A:
    "\<exists>c2 h2. get_settings_st 100 5 7 False (?H[1 := ODict []]) ?S = (Inr c2, h2, ?S) \<and>
             read 100 h2 c2 = Some (PDict [(''_id'', PInt 7)])"
    by auto
  \<comment> \<open>users\<close>
  from reads_return_fresh_copies[OF w42, THEN conjunct2, THEN mp, OF g42, of 5]
  obtain m u where
    b: "fresh_side m ?K (Ref 7)" "read 100 ?K (Ref 7) = Some u"
      "\<forall>h''. same_below m ?K h'' \<longrightarrow>
         (\<exists>c2 h2. get_user_st 100 5 42 None True False h'' ?T = (Inr c2, h2, ?T) \<and>
                   read 100 h2 c2 = Some u)"
    by blast
  from b(1) have "m \<le> 7" "region_closed m 8 ?K"
    by (simp_all add: fresh_side_def cell_in_def l42)
  then have "list_all (cell_in m 8) (cells_of (?K ! 7))"
    by (simp add: region_closed_nth)
  then have "m \<le> 4" by (simp add: o42 cell_in_def)
  then have "same_below m ?K (?K[4 := ODict [(''201'', Atom (AStr ''Road Trip''))]])"
    by (simp add: same_below_def l42)
  with b(3) b(2) r42 have B:
    "\<exists>c2 h2. get_user_st 100 5 42 None True False
               (?K[4 := ODict [(''201'', Atom (AStr ''Road Trip''))]]) ?T = (Inr c2, h2, ?T) \<and>
             read 100 h2 c2 = Some (PDict user42_doc)"
    by auto
  from w7 f7 A w42 f42 B show ?thesis by blast
qed

subsection \<open>Reading more deeply, and reading what was allocated\<close>

lemma those_map_mono:
  "(\<And>x v. x \<in> set xs \<Longrightarrow> f x = Some v \<Longrightarrow> g x = Some v) \<Longrightarrow>
   those (map f xs) = Some vs \<Longrightarrow> those (map g xs) = Some vs"
proof (induction xs arbitrary: vs)
  case Nil
  then show ?case by simp
next
  case (Cons x xs)
  from Cons.prems(2) obtain v ws where s: "f x = Some v" "those (map f xs) = Some ws" "vs = v # ws"
    by (auto split: option.splits)
  from Cons.prems(1)[of x v] s(1) have "g x = Some v" by simp
  moreover from Cons.IH[OF Cons.prems(1) s(2)] have "those (map g xs) = Some ws" by simp
  ultimately show ?case using s(3) by simp
qed

lemma those_map_Some:
  "those (map f xs) = Some vs \<Longrightarrow> x \<in> set xs \<Longrightarrow> \<exists>v. f x = Some v"
  by (induction xs arbitrary: vs) (auto split: option.splits)

lemma those_map_length: "those (map f xs) = Some vs \<Longrightarrow> length vs = length xs"
  by (induction xs arbitrary: vs) (auto split: option.splits)

lemma those_map_snoc:
  "those (map f xs) = Some vs \<Longrightarrow> f y = Some v \<Longrightarrow> those (map f (xs @ [y])) = Some (vs @ [v])"
  by (induction xs arbitrary: vs) (auto split: option.splits)

lemma read_mono: "read n h c = Some v \<Longrightarrow> n \<le> m \<Longrightarrow> read m h c = Some v"
proof (induction n arbitrary: c v m)
  case 0
  then show ?case by (cases c) simp_all
next
  case (Suc n)
  show ?case
  proof (cases c)
    case (Atom x)
    with Suc.prems show ?thesis by simp
  next
    case (Ref a)
    from Suc.prems(2) obtain m' where m: "m = Suc m'" "n \<le> m'" by (cases m) simp_all
    from Suc.prems(1) Ref obtain vs where
      a: "a < length h" "those (map (read n h) (cells_of (h ! a))) = Some vs"
        "v = rebuild (h ! a) vs"
      by (auto split: if_splits)
    have "those (map (read m' h) (cells_of (h ! a))) = Some vs"
      by (rule those_map_mono[OF _ a(2)]) (rule Suc.IH[OF _ m(2)])
    with a Ref m show ?thesis by simp
  qed
qed

lemma read_det: "read n h c = Some v \<Longrightarrow> read m h c = Some w \<Longrightarrow> v = w"
  using read_mono[of n h c v "max n m"] read_mono[of m h c w "max n m"] by simp

lemma those_read_append:
  assumes "region_closed lo hi h" "list_all (cell_in lo hi) cs"
  shows "those (map (read n (h @ ext)) cs) = those (map (read n h) cs)"
  by (rule those_map_cong) (use assms in \<open>auto simp: list_all_iff intro: read_append\<close>)

text \<open>The objects built for a value read as that value.\<close>

lemma alloc_read:
  "alloc v h = (c, h') \<Longrightarrow> \<exists>n. read n h' c = Some v"
  "alloc_list vs h = (cs, h') \<Longrightarrow> \<exists>n. those (map (read n h') cs) = Some vs"
  "alloc_items kvs h = (kcs, h') \<Longrightarrow>
     map fst kcs = map fst kvs \<and>
     (\<exists>n. those (map (read n h') (map snd kcs)) = Some (map snd kvs))"
proof (induction v h and vs h and kvs h arbitrary: c h' and cs h' and kcs h'
    rule: alloc_alloc_list_alloc_items.induct)
  case (6 vs h)
  obtain cs h1 where a: "alloc_list vs h = (cs, h1)" by (cases "alloc_list vs h")
  from "6.IH"[OF a] obtain n where n: "those (map (read n h1) cs) = Some vs" by blast
  from alloc_fresh(2)[OF a] have f: "list_all (cell_in (length h) (length h1)) cs"
    "region_closed (length h) (length h1) h1" by auto
  from "6.prems" a have c: "c = Ref (length h1)" "h' = h1 @ [OList cs]" by simp_all
  have "those (map (read n h') cs) = Some vs"
    using those_read_append[OF f(2,1), of n "[OList cs]"] n c(2) by simp
  with c have "read (Suc n) h' c = Some (PList vs)" by simp
  then show ?case ..
next
  case (7 kvs h)
  obtain kcs h1 where a: "alloc_items kvs h = (kcs, h1)" by (cases "alloc_items kvs h")
  from "7.IH"[OF a] obtain n where n: "map fst kcs = map fst kvs"
    "those (map (read n h1) (map snd kcs)) = Some (map snd kvs)" by blast
  from alloc_fresh(3)[OF a] have f: "list_all (cell_in (length h) (length h1)) (map snd kcs)"
    "region_closed (length h) (length h1) h1" by auto
  from "7.prems" a have c: "c = Ref (length h1)" "h' = h1 @ [ODict kcs]" by simp_all
  have "those (map (read n h') (map snd kcs)) = Some (map snd kvs)"
    using those_read_append[OF f(2,1), of n "[ODict kcs]"] n(2) c(2) by simp
  with c n(1) have "read (Suc n) h' c = Some (PDict kvs)" by (simp add: zip_map_fst_snd)
  then show ?case ..
next
  case (9 v vs h)
  obtain c1 h1 where a: "alloc v h = (c1, h1)" by (cases "alloc v h")
  obtain cs2 h2 where b: "alloc_list vs h1 = (cs2, h2)" by (cases "alloc_list vs h1")
  from "9.IH"(1)[OF a] obtain n1 where n1: "read n1 h1 c1 = Some v" by blast
  from "9.IH"(2)[OF a[symmetric] b] obtain n2 where n2: "those (map (read n2 h2) cs2) = Some vs"
    by blast
  from alloc_fresh(1)[OF a] have f: "cell_in (length h) (length h1) c1"
    "region_closed (length h) (length h1) h1" by auto
  from alloc_fresh(2)[OF b] obtain e2 where e2: "h2 = h1 @ e2" by blast
  from "9.prems" a b have r: "cs = c1 # cs2" "h' = h2" by simp_all
  have "read n1 h2 c1 = Some v" using read_append[OF f(2,1), of n1 e2] n1 e2 by simp
  then have 1: "read (max n1 n2) h2 c1 = Some v" by (rule read_mono) simp
  have 2: "those (map (read (max n1 n2) h2) cs2) = Some vs"
    by (rule those_map_mono[OF _ n2]) (erule read_mono, simp)
  from 1 2 r have "those (map (read (max n1 n2) h') cs) = Some (v # vs)" by simp
  then show ?case ..
next
  case (11 kv kvs h)
  obtain c1 h1 where a: "alloc (snd kv) h = (c1, h1)" by (cases "alloc (snd kv) h")
  obtain kcs2 h2 where b: "alloc_items kvs h1 = (kcs2, h2)" by (cases "alloc_items kvs h1")
  from "11.IH"(1)[OF a] obtain n1 where n1: "read n1 h1 c1 = Some (snd kv)" by blast
  from "11.IH"(2)[OF a[symmetric] b] obtain n2 where n2: "map fst kcs2 = map fst kvs"
    "those (map (read n2 h2) (map snd kcs2)) = Some (map snd kvs)"
    by blast
  from alloc_fresh(1)[OF a] have f: "cell_in (length h) (length h1) c1"
    "region_closed (length h) (length h1) h1" by auto
  from alloc_fresh(3)[OF b] obtain e2 where e2: "h2 = h1 @ e2" by blast
  from "11.prems" a b have r: "kcs = (fst kv, c1) # kcs2" "h' = h2" by simp_all
  have "read n1 h2 c1 = Some (snd kv)" using read_append[OF f(2,1), of n1 e2] n1 e2 by simp
  then have 1: "read (max n1 n2) h2 c1 = Some (snd kv)" by (rule read_mono) simp
  have 2: "those (map (read (max n1 n2) h2) (map snd kcs2)) = Some (map snd kvs)"
    by (rule those_map_mono[OF _ n2(2)]) (erule read_mono, simp)
  from 1 2 r have "those (map (read (max n1 n2) h') (map snd kcs)) = Some (map snd (kv # kvs))"
    by simp
  with r n2(1) show ?case by auto
qed (auto intro: exI[of _ 0])

lemma read_dict:
  assumes "read n h c = Some (PDict d)"
  shows "\<exists>a kcs m vs. c = Ref a \<and> a < length h \<and> h ! a = ODict kcs \<and> n = Suc m \<and>
           those (map (read m h) (map snd kcs)) = Some vs \<and> d = zip (map fst kcs) vs"
proof -
  from assms obtain a where c: "c = Ref a" by (cases c; cases n) (auto elim: atom_value.elims)
  with assms obtain m where n: "n = Suc m" by (cases n) auto
  from assms c n have lt: "a < length h" by (auto split: if_splits)
  from assms c n lt obtain vs where v: "those (map (read m h) (cells_of (h ! a))) = Some vs"
    "rebuild (h ! a) vs = PDict d" by auto
  from v(2) obtain kcs where k: "h ! a = ODict kcs" by (cases "h ! a") auto
  with v c n lt show ?thesis by auto
qed

lemma map_of_zip_read:
  "those (map rd (map snd kcs)) = Some vs \<Longrightarrow> map_of kcs f = Some c0 \<Longrightarrow>
     \<exists>v0. map_of (zip (map fst kcs) vs) f = Some v0 \<and> rd c0 = Some v0"
  by (induction kcs arbitrary: vs) (auto split: option.splits if_splits)

lemma map_of_zip_None:
  "length vs = length kcs \<Longrightarrow> map_of kcs f = None \<Longrightarrow> map_of (zip (map fst kcs) vs) f = None"
  by (induction kcs arbitrary: vs) (auto simp: length_Suc_conv split: if_splits)

lemma update_absent: "map_of d f = None \<Longrightarrow> AList.update f v d = d @ [(f, v)]"
  by (induction d) (auto split: if_splits)

subsection \<open>Reachable addresses\<close>

lemma reach_update:
  "a \<notin> reach n h c \<Longrightarrow> reach n (h[a := ob]) c = reach n h c"
proof (induction n arbitrary: c)
  case 0
  then show ?case by (cases c) auto
next
  case (Suc n)
  show ?case
  proof (cases c)
    case (Atom x)
    then show ?thesis by simp
  next
    case (Ref b)
    with Suc.prems have ne: "b \<noteq> a" by auto
    show ?thesis
    proof (cases "b < length h")
      case False
      with Ref show ?thesis by simp
    next
      case True
      with Suc.prems Ref have "\<forall>x \<in> set (cells_of (h ! b)). a \<notin> reach n h x" by auto
      with Suc.IH have "\<forall>x \<in> set (cells_of (h ! b)). reach n (h[a := ob]) x = reach n h x"
        by blast
      with Ref ne True show ?thesis by simp
    qed
  qed
qed

lemma read_update:
  "a \<notin> reach n h c \<Longrightarrow> read n (h[a := ob]) c = read n h c"
proof (induction n arbitrary: c)
  case 0
  then show ?case by (cases c) auto
next
  case (Suc n)
  show ?case
  proof (cases c)
    case (Atom x)
    then show ?thesis by simp
  next
    case (Ref b)
    with Suc.prems have ne: "b \<noteq> a" by auto
    show ?thesis
    proof (cases "b < length h")
      case False
      with Ref show ?thesis by simp
    next
      case True
      with Suc.prems Ref have "\<forall>x \<in> set (cells_of (h ! b)). a \<notin> reach n h x" by auto
      with Suc.IH have "\<forall>x \<in> set (cells_of (h ! b)). read n (h[a := ob]) x = read n h x"
        by blast
      then have "those (map (read n (h[a := ob])) (cells_of (h ! b))) =
                 those (map (read n h) (cells_of (h ! b)))"
        by (intro those_map_cong) simp
      with Ref ne True show ?thesis by simp
    qed
  qed
qed

lemma reach_frame:
  assumes "region_closed lo hi h" "hi \<le> length h'" "\<forall>a. lo \<le> a \<and> a < hi \<longrightarrow> h' ! a = h ! a"
  shows "cell_in lo hi c \<Longrightarrow> reach n h' c = reach n h c \<and> reach n h c \<subseteq> {lo..<hi}"
proof (induction n arbitrary: c)
  case 0
  then show ?case by (cases c) (auto simp: cell_in_def)
next
  case (Suc n)
  show ?case
  proof (cases c)
    case (Atom x)
    then show ?thesis by simp
  next
    case (Ref a)
    with Suc.prems have a: "lo \<le> a \<and> a < hi" by (simp add: cell_in_def)
    with assms have eq: "h' ! a = h ! a" and lt: "a < length h" "a < length h'"
      by (auto simp: region_closed_nth)
    from a assms(1) have "list_all (cell_in lo hi) (cells_of (h ! a))"
      by (simp add: region_closed_nth)
    with Suc.IH have "\<forall>x \<in> set (cells_of (h ! a)).
        reach n h' x = reach n h x \<and> reach n h x \<subseteq> {lo..<hi}"
      by (simp add: list_all_iff)
    with Ref eq lt a show ?thesis by auto
  qed
qed

lemma reach_append:
  "region_closed lo hi h \<Longrightarrow> cell_in lo hi c \<Longrightarrow> reach n (h @ ext) c = reach n h c"
  using reach_frame[of lo hi h "h @ ext" c n]
  by (auto simp: region_closed_nth nth_append)

lemma reach_bounded:
  "region_closed lo hi h \<Longrightarrow> cell_in lo hi c \<Longrightarrow> reach n h c \<subseteq> {lo..<hi}"
  using reach_frame[of lo hi h h c n] by (auto simp: region_closed_nth)

text \<open>
  An object that can be read is not reachable from what it holds: the documents are
  trees.
\<close>

lemma reached_is_readable:
  "read k h x = Some vx \<Longrightarrow> a \<in> reach m h x \<Longrightarrow> \<exists>w. read k h (Ref a) = Some w"
proof (induction m arbitrary: x k vx)
  case 0
  then show ?case by (cases x) auto
next
  case (Suc m)
  show ?case
  proof (cases x)
    case (Atom y)
    with Suc.prems show ?thesis by simp
  next
    case (Ref b)
    show ?thesis
    proof (cases "a = b")
      case True
      with Suc.prems Ref show ?thesis by auto
    next
      case False
      with Suc.prems(2) Ref obtain y where y: "b < length h" "y \<in> set (cells_of (h ! b))"
        "a \<in> reach m h y" by (auto split: if_splits)
      from Suc.prems(1) Ref obtain k' vs where k: "k = Suc k'"
        "those (map (read k' h) (cells_of (h ! b))) = Some vs"
        by (cases k) (auto split: if_splits)
      from those_map_Some[OF k(2) y(2)] obtain vy where "read k' h y = Some vy" by blast
      from Suc.IH[OF this y(3)] obtain w where "read k' h (Ref a) = Some w" by blast
      from read_mono[OF this, of k] k(1) show ?thesis by auto
    qed
  qed
qed

lemma readable_is_acyclic:
  assumes r: "read n h (Ref a) = Some v" and x: "x \<in> set (cells_of (h ! a))"
  shows "a \<notin> reach m h x"
proof
  assume in_x: "a \<in> reach m h x"
  define P where "P k \<longleftrightarrow> (\<exists>w. read k h (Ref a) = Some w)" for k
  from r have "P n" by (auto simp: P_def)
  define n0 where "n0 = (LEAST k. P k)"
  from \<open>P n\<close> have p0: "P n0" unfolding n0_def by (rule LeastI)
  have least: "\<not> P k" if "k < n0" for k using that not_less_Least unfolding n0_def by blast
  from p0 obtain w k where k: "n0 = Suc k" "those (map (read k h) (cells_of (h ! a))) = Some w"
    unfolding P_def by (cases n0) (auto split: if_splits)
  from those_map_Some[OF k(2) x] obtain vx where "read k h x = Some vx" by blast
  from reached_is_readable[OF this in_x] have "P k" by (simp add: P_def)
  with least[of k] k(1) show False by simp
qed

lemma reach_extended:
  assumes a: "a < length hg" and ob: "hg ! a = ODict kcs"
    and kids: "\<And>x m. x \<in> set (map snd kcs) \<Longrightarrow> a \<notin> reach m hg x"
    and g: "\<And>m. a \<notin> reach m hg g"
  shows "reach n (hg[a := ODict (kcs @ [(f, g)])]) (Ref a) \<subseteq>
           reach n hg (Ref a) \<union> (\<Union>m. reach m hg g)"
proof (cases n)
  case 0
  then show ?thesis by simp
next
  case (Suc m)
  have "reach m (hg[a := ODict (kcs @ [(f, g)])]) x = reach m hg x"
    if "x \<in> set (map snd kcs) \<or> x = g" for x
    using that kids[of x m] g[of m] by (intro reach_update) auto
  with Suc a ob show ?thesis by auto
qed

subsection \<open>The state over the store and the state over values\<close>

lemma same_cache_map_of:
  "same_cache h cs ds \<Longrightarrow>
     (case map_of cs k of
        None \<Rightarrow> map_of ds k = None
      | Some c \<Rightarrow> (\<exists>d n. map_of ds k = Some d \<and> read n h c = Some (PDict d)))"
  unfolding same_cache_def
  by (induction cs ds rule: list_all2_induct) (auto split: option.splits)

lemma same_cache_has_key: "same_cache h cs ds \<Longrightarrow> has_key k ds = has_key k cs"
  using same_cache_map_of[of h cs ds k] by (auto simp: has_key_def split: option.splits)

lemma same_cache_update:
  "same_cache h cs ds \<Longrightarrow> read n h c = Some (PDict d) \<Longrightarrow>
     same_cache h (AList.update k c cs) (AList.update k d ds)"
  unfolding same_cache_def
  by (induction cs ds rule: list_all2_induct) auto

lemma same_cache_append:
  assumes rc: "region_closed 0 (length h) h"
  shows "same_cache h cs ds \<Longrightarrow> list_all (\<lambda>kc. cell_in 0 (length h) (snd kc)) cs \<Longrightarrow>
         same_cache (h @ ext) cs ds"
  unfolding same_cache_def
proof (induction cs ds rule: list_all2_induct)
  case Nil
  then show ?case by simp
next
  case (Cons x xs y ys)
  from Cons.hyps(1) obtain n where n: "fst x = fst y" "read n h (snd x) = Some (PDict (snd y))"
    by blast
  from Cons.prems have c: "cell_in 0 (length h) (snd x)" by simp
  from read_append[OF rc c, of n ext] n(2) have "read n (h @ ext) (snd x) = Some (PDict (snd y))"
    by simp
  with n(1) Cons show ?case by auto
qed

lemma same_cache_cong:
  "same_cache h cs ds \<Longrightarrow> (\<And>k c n. (k, c) \<in> set cs \<Longrightarrow> read n h' c = read n h c) \<Longrightarrow>
     same_cache h' cs ds"
  unfolding same_cache_def
proof (induction cs ds rule: list_all2_induct)
  case Nil
  then show ?case by simp
next
  case (Cons x xs y ys)
  from Cons.prems[of "fst x" "snd x"] have "read n h' (snd x) = read n h (snd x)" for n by simp
  with Cons show ?case by auto
qed

lemma same_cache_mutate:
  "same_cache h cs ds \<Longrightarrow> distinct (map fst cs) \<Longrightarrow> (k, c) \<in> set cs \<Longrightarrow>
   read n h' c = Some (PDict d') \<Longrightarrow>
   (\<And>k' c' m. (k', c') \<in> set cs \<Longrightarrow> k' \<noteq> k \<Longrightarrow> read m h' c' = read m h c') \<Longrightarrow>
     same_cache h' cs (AList.update k d' ds)"
  unfolding same_cache_def
proof (induction cs ds rule: list_all2_induct)
  case Nil
  then show ?case by simp
next
  case (Cons x xs y ys)
  show ?case
  proof (cases "fst x = k")
    case True
    with Cons.prems(1,2) have xc: "snd x = c" by (cases x) (auto simp: rev_image_eqI)
    have "list_all2 (\<lambda>kc kd. fst kc = fst kd \<and> (\<exists>n. read n h' (snd kc) = Some (PDict (snd kd)))) xs ys"
      using same_cache_cong[of h xs ys h', unfolded same_cache_def] Cons.hyps(2) Cons.prems(1,4) True
      by (metis (no_types, lifting) distinct.simps(2) fst_conv image_eqI list.set_intros(2) list.simps(9) set_map)
    with True xc Cons.hyps(1) Cons.prems(3) show ?thesis by (cases y) auto
  next
    case False
    with Cons.prems(2) have in_xs: "(k, c) \<in> set xs" by auto
    from Cons.prems(1) have dx: "distinct (map fst xs)" by simp
    have tl: "list_all2 (\<lambda>kc kd. fst kc = fst kd \<and> (\<exists>n. read n h' (snd kc) = Some (PDict (snd kd))))
                xs (AList.update k d' ys)"
      by (rule Cons.IH[OF dx in_xs Cons.prems(3)]) (rule Cons.prems(4), simp_all)
    from Cons.prems(4)[of "fst x" "snd x"] False have "read m h' (snd x) = read m h (snd x)" for m
      by simp
    with Cons.hyps(1) False tl show ?thesis by (cases y) auto
  qed
qed

lemma db_find_one_abs:
  "abstracts h s sv \<Longrightarrow> db_find_one c k s = (r, s1) \<Longrightarrow>
     fst (db_find_one c k sv) = r \<and> abstracts h s1 (snd (db_find_one c k sv))"
  by (auto simp: abstracts_def db_find_one_def backend_call_def db_of_def
      split: list.splits bool.splits coll.splits)

lemma db_insert_one_abs:
  "abstracts h s sv \<Longrightarrow> db_insert_one c d s = (r, s1) \<Longrightarrow>
     fst (db_insert_one c d sv) = r \<and> abstracts h s1 (snd (db_insert_one c d sv))"
  by (auto simp: abstracts_def db_insert_one_def backend_call_def db_of_def db_put_def
      split: list.splits bool.splits coll.splits sum.splits)

lemma abstracts_wf:
  "abstracts h s sv \<Longrightarrow> wf_store h s \<Longrightarrow> alloc v h = (c, h1) \<Longrightarrow> abstracts h1 s sv"
proof -
  assume a: "abstracts h s sv" and w: "wf_store h s" and al: "alloc v h = (c, h1)"
  from alloc_fresh(1)[OF al] obtain ext where e: "h1 = h @ ext" by blast
  from w have rc: "region_closed 0 (length h) h" by (simp add: wf_store_def)
  from a w e same_cache_append[OF rc, of _ _ ext] show ?thesis
    by (simp add: abstracts_def wf_store_def)
qed

lemma abstracts_append:
  assumes a: "abstracts h s sv" and w: "wf_store h s"
  shows "abstracts (h @ ext) s sv"
proof -
  from w have rc: "region_closed 0 (length h) h" by (simp add: wf_store_def)
  from a w same_cache_append[OF rc, of _ _ ext] show ?thesis
    by (simp add: abstracts_def wf_store_def)
qed

lemma abstracts_cache_settings:
  assumes a: "abstracts h s sv" and w: "wf_store h s" and al: "alloc (PDict d) h = (c, h1)"
  shows "abstracts h1
           (s\<lparr>settings_buffer := AList.update k c (settings_buffer s),
              last_access := AList.update k now (last_access s)\<rparr>)
           (sv\<lparr>settings_buffer := AList.update k d (settings_buffer sv),
               last_access := AList.update k now (last_access sv)\<rparr>)"
proof -
  from abstracts_wf[OF a w al] have a1: "abstracts h1 s sv" .
  from alloc_read(1)[OF al] obtain n where "read n h1 c = Some (PDict d)" by blast
  with a1 show ?thesis by (simp add: abstracts_def same_cache_update)
qed

lemma abstracts_cache_user:
  assumes a: "abstracts h s sv" and w: "wf_store h s" and al: "alloc (PDict d) h = (c, h1)"
  shows "abstracts h1
           (s\<lparr>users_buffer := AList.update k c (users_buffer s),
              last_access := AList.update k now (last_access s)\<rparr>)
           (sv\<lparr>users_buffer := AList.update k d (users_buffer sv),
               last_access := AList.update k now (last_access sv)\<rparr>)"
proof -
  from abstracts_wf[OF a w al] have a1: "abstracts h1 s sv" .
  from alloc_read(1)[OF al] obtain n where "read n h1 c = Some (PDict d)" by blast
  with a1 show ?thesis by (simp add: abstracts_def same_cache_update)
qed

lemma set_update_subset: "set (AList.update k v d) \<subseteq> insert (k, v) (set d)"
  by (induction d) auto

lemma set_update_distinct:
  "distinct (map fst d) \<Longrightarrow> set (AList.update k v d) = insert (k, v) {x \<in> set d. fst x \<noteq> k}"
  by (induction d) (auto simp: rev_image_eqI)

lemma unshared_buffers:
  "unshared h s \<Longrightarrow> settings_buffer s1 = settings_buffer s \<Longrightarrow>
   users_buffer s1 = users_buffer s \<Longrightarrow> unshared h s1"
  by (simp add: unshared_def)

lemma wf_store_entry:
  "wf_store h s \<Longrightarrow> (k, c) \<in> set (users_buffer s) \<or> (k, c) \<in> set (settings_buffer s) \<Longrightarrow>
     cell_in 0 (length h) c"
  by (auto simp: wf_store_def list_all_iff)

lemma unshared_append:
  assumes u: "unshared h s" and w: "wf_store h s"
  shows "unshared (h @ ext) s"
proof -
  from w have rc: "region_closed 0 (length h) h" by (simp add: wf_store_def)
  have "reach n (h @ ext) c = reach n h c"
    if "(k, c) \<in> set (users_buffer s) \<or> (k, c) \<in> set (settings_buffer s)" for k c n
    by (rule reach_append[OF rc wf_store_entry[OF w that]])
  with u show ?thesis unfolding unshared_def by blast
qed

lemma unshared_cache_user:
  assumes u: "unshared h s" and w: "wf_store h s" and al: "alloc v h = (c, h1)"
  shows "unshared h1 (s\<lparr>users_buffer := AList.update k c (users_buffer s),
                         last_access := la\<rparr>)"
proof -
  from w have rc: "region_closed 0 (length h) h" by (simp add: wf_store_def)
  from alloc_fresh(1)[OF al] obtain ext where e: "h1 = h @ ext"
    "cell_in (length h) (length h1) c" "region_closed (length h) (length h1) h1" by blast
  from u have d: "distinct (map fst (users_buffer s))" by (simp add: unshared_def)
  have old: "reach n h1 c' = reach n h c' \<and> reach n h c' \<subseteq> {0..<length h}"
    if "(k', c') \<in> set (users_buffer s) \<or> (k', c') \<in> set (settings_buffer s)" for k' c' n
    using reach_append[OF rc wf_store_entry[OF w that], of n ext]
      reach_bounded[OF rc wf_store_entry[OF w that], of n] e(1) by simp
  have new: "reach n h1 c \<subseteq> {length h..<length h1}" for n
    by (rule reach_bounded[OF e(3,2)])
  have olda: "a < length h" if "(k', Ref a) \<in> set (users_buffer s)" for k' a
    using wf_store_entry[OF w, of k' "Ref a"] that by (simp add: cell_in_def)
  have newa: "length h \<le> a" if "c = Ref a" for a
    using e(2) that by (simp add: cell_in_def)
  let ?ub = "AList.update k c (users_buffer s)"
  have ub: "set ?ub = insert (k, c) {x \<in> set (users_buffer s). fst x \<noteq> k}"
    by (rule set_update_distinct[OF d])
  have "distinct (map fst ?ub)" using d by (rule distinct_update)
  moreover have "a \<notin> reach n h1 c'"
    if "(k1, Ref a) \<in> set ?ub" "(k', c') \<in> set ?ub" "k' \<noteq> k1" for k1 a k' c' n
  proof (cases "(k1, Ref a) = (k, c)")
    case True
    with that ub have "(k', c') \<in> set (users_buffer s)" by auto
    from old[of k' c' n] this newa[of a] True show ?thesis by auto
  next
    case False
    with that ub have o: "(k1, Ref a) \<in> set (users_buffer s)" by auto
    show ?thesis
    proof (cases "(k', c') = (k, c)")
      case True
      with new[of n] olda[OF o] show ?thesis by auto
    next
      case False
      with that ub have "(k', c') \<in> set (users_buffer s)" by auto
      with u o that(3) old[of k' c' n] show ?thesis unfolding unshared_def by blast
    qed
  qed
  moreover have "a \<notin> reach n h1 c'"
    if "(k1, Ref a) \<in> set ?ub" "(k', c') \<in> set (settings_buffer s)" for k1 a k' c' n
  proof (cases "(k1, Ref a) = (k, c)")
    case True
    from old[of k' c' n] that(2) newa[of a] True show ?thesis by auto
  next
    case False
    with that ub have o: "(k1, Ref a) \<in> set (users_buffer s)" by auto
    with u that(2) old[of k' c' n] show ?thesis unfolding unshared_def by blast
  qed
  ultimately show ?thesis unfolding unshared_def by simp blast
qed

lemma unshared_cache_settings:
  assumes u: "unshared h s" and w: "wf_store h s" and al: "alloc v h = (c, h1)"
  shows "unshared h1 (s\<lparr>settings_buffer := AList.update k c (settings_buffer s),
                         last_access := la\<rparr>)"
proof -
  from w have rc: "region_closed 0 (length h) h" by (simp add: wf_store_def)
  from alloc_fresh(1)[OF al] obtain ext where e: "h1 = h @ ext"
    "cell_in (length h) (length h1) c" "region_closed (length h) (length h1) h1" by blast
  have old: "reach n h1 c' = reach n h c' \<and> reach n h c' \<subseteq> {0..<length h}"
    if "(k', c') \<in> set (users_buffer s) \<or> (k', c') \<in> set (settings_buffer s)" for k' c' n
    using reach_append[OF rc wf_store_entry[OF w that], of n ext]
      reach_bounded[OF rc wf_store_entry[OF w that], of n] e(1) by simp
  have new: "reach n h1 c \<subseteq> {length h..<length h1}" for n
    by (rule reach_bounded[OF e(3,2)])
  have olda: "a < length h" if "(k', Ref a) \<in> set (users_buffer s)" for k' a
    using wf_store_entry[OF w, of k' "Ref a"] that by (simp add: cell_in_def)
  let ?sb = "AList.update k c (settings_buffer s)"
  have sb: "set ?sb \<subseteq> insert (k, c) (set (settings_buffer s))" by (rule set_update_subset)
  have "a \<notin> reach n h1 c'"
    if "(k1, Ref a) \<in> set (users_buffer s)" "(k', c') \<in> set (users_buffer s)" "k' \<noteq> k1"
    for k1 a k' c' n
    using u that old[of k' c' n] unfolding unshared_def by blast
  moreover have "a \<notin> reach n h1 c'"
    if o: "(k1, Ref a) \<in> set (users_buffer s)" and t: "(k', c') \<in> set ?sb" for k1 a k' c' n
  proof (cases "(k', c') = (k, c)")
    case True
    with new[of n] olda[OF o] show ?thesis by auto
  next
    case False
    with t sb have "(k', c') \<in> set (settings_buffer s)" by auto
    with u o old[of k' c' n] show ?thesis unfolding unshared_def by blast
  qed
  ultimately show ?thesis using u unfolding unshared_def by simp blast
qed

lemma initial_states_agree:
  "wf_store [] initial \<and> abstracts [] initial initial \<and> unshared [] initial"
  by (simp add: wf_store_def abstracts_def unshared_def same_cache_def initial_def
      region_closed_def)

text \<open>The block that loads a document on a miss does the same in both.\<close>

lemma fetch_settings_st_shape:
  assumes f: "fetch_settings_st now gid force h s = (Inr u, h1, s1)"
  shows "(h1 = h \<and> s1 = s) \<or>
         (\<exists>d s2. h1 = snd (alloc (PDict d) h) \<and>
            s1 = s2\<lparr>settings_buffer :=
                       AList.update gid (fst (alloc (PDict d) h)) (settings_buffer s2),
                     last_access := AList.update gid now (last_access s2)\<rparr> \<and>
            settings_buffer s2 = settings_buffer s \<and> users_buffer s2 = users_buffer s)"
proof (cases "force \<or> \<not> has_key gid (settings_buffer s)")
  case False
  with f show ?thesis by (simp add: fetch_settings_st_def)
next
  case True
  let ?new = "[(''_id'', PInt gid)]"
  obtain r sa where a: "db_find_one Settings gid s = (r, sa)" by (cases "db_find_one Settings gid s")
  obtain q sb where i: "db_insert_one Settings ?new sa = (q, sb)"
    by (cases "db_insert_one Settings ?new sa")
  note fr = db_find_one_frame[OF a] db_insert_one_frame[OF i]
  show ?thesis
  proof (cases r)
    case (Inl e)
    with f True a show ?thesis by (simp add: fetch_settings_st_def)
  next
    case (Inr found)
    show ?thesis
    proof (cases "found = None \<or> found = Some []")
      case n: True
      with f True a i Inr obtain u' where q: "q = Inr u'"
        by (cases q) (simp_all add: fetch_settings_st_def)
      from f True a i Inr n q have
        "h1 = snd (alloc (PDict ?new) h)"
        "s1 = sb\<lparr>settings_buffer := AList.update gid (fst (alloc (PDict ?new) h)) (settings_buffer sb),
                  last_access := AList.update gid now (last_access sb)\<rparr>"
        by (simp_all add: fetch_settings_st_def del: alloc.simps)
      moreover from fr have "settings_buffer sb = settings_buffer s" "users_buffer sb = users_buffer s"
        by simp_all
      ultimately show ?thesis by blast
    next
      case n: False
      from f True a Inr n have
        "h1 = snd (alloc (PDict (the found)) h)"
        "s1 = sa\<lparr>settings_buffer :=
                    AList.update gid (fst (alloc (PDict (the found)) h)) (settings_buffer sa),
                  last_access := AList.update gid now (last_access sa)\<rparr>"
        by (simp_all add: fetch_settings_st_def del: alloc.simps)
      moreover from fr have "settings_buffer sa = settings_buffer s" "users_buffer sa = users_buffer s"
        by simp_all
      ultimately show ?thesis by blast
    qed
  qed
qed

lemma fetch_user_st_shape:
  assumes f: "fetch_user_st now uid force h s = (Inr u, h1, s1)"
  shows "(h1 = h \<and> s1 = s) \<or>
         (\<exists>d s2. h1 = snd (alloc (PDict d) h) \<and>
            s1 = s2\<lparr>users_buffer :=
                       AList.update uid (fst (alloc (PDict d) h)) (users_buffer s2),
                     last_access := AList.update uid now (last_access s2)\<rparr> \<and>
            settings_buffer s2 = settings_buffer s \<and> users_buffer s2 = users_buffer s)"
proof (cases "force \<or> \<not> has_key uid (users_buffer s)")
  case False
  with f show ?thesis by (simp add: fetch_user_st_def)
next
  case True
  let ?new = "merge_into [(''_id'', PInt uid)] user_base"
  obtain r sa where a: "db_find_one Users uid s = (r, sa)" by (cases "db_find_one Users uid s")
  obtain q sb where i: "db_insert_one Users ?new sa = (q, sb)"
    by (cases "db_insert_one Users ?new sa")
  note fr = db_find_one_frame[OF a] db_insert_one_frame[OF i]
  show ?thesis
  proof (cases r)
    case (Inl e)
    with f True a show ?thesis by (simp add: fetch_user_st_def)
  next
    case (Inr found)
    show ?thesis
    proof (cases "found = None \<or> found = Some []")
      case n: True
      with f True a i Inr obtain u' where q: "q = Inr u'"
        by (cases q) (simp_all add: fetch_user_st_def)
      from f True a i Inr n q have
        "h1 = snd (alloc (PDict ?new) h)"
        "s1 = sb\<lparr>users_buffer := AList.update uid (fst (alloc (PDict ?new) h)) (users_buffer sb),
                  last_access := AList.update uid now (last_access sb)\<rparr>"
        by (simp_all add: fetch_user_st_def del: alloc.simps)
      moreover from fr have "settings_buffer sb = settings_buffer s" "users_buffer sb = users_buffer s"
        by simp_all
      ultimately show ?thesis by blast
    next
      case n: False
      from f True a Inr n have
        "h1 = snd (alloc (PDict (the found)) h)"
        "s1 = sa\<lparr>users_buffer :=
                    AList.update uid (fst (alloc (PDict (the found)) h)) (users_buffer sa),
                  last_access := AList.update uid now (last_access sa)\<rparr>"
        by (simp_all add: fetch_user_st_def del: alloc.simps)
      moreover from fr have "settings_buffer sa = settings_buffer s" "users_buffer sa = users_buffer s"
        by simp_all
      ultimately show ?thesis by blast
    qed
  qed
qed

lemma fetch_settings_st_unshared:
  assumes w: "wf_store h s" and u: "unshared h s"
    and f: "fetch_settings_st now gid force h s = (r, h1, s1)"
  shows "unshared h1 s1"
proof (cases r)
  case (Inl e)
  from fetch_settings_st_failed[OF f[unfolded Inl]] u show ?thesis
    by (auto intro: unshared_buffers)
next
  case (Inr x)
  from fetch_settings_st_shape[OF f[unfolded Inr]] show ?thesis
  proof (elim disjE exE conjE)
    assume "h1 = h" "s1 = s"
    with u show ?thesis by simp
  next
    fix d s2
    assume h1: "h1 = snd (alloc (PDict d) h)"
      and s1: "s1 = s2\<lparr>settings_buffer :=
                       AList.update gid (fst (alloc (PDict d) h)) (settings_buffer s2),
                     last_access := AList.update gid now (last_access s2)\<rparr>"
      and b: "settings_buffer s2 = settings_buffer s" "users_buffer s2 = users_buffer s"
    from b have u2: "unshared h s2" and w2: "wf_store h s2"
      using u w by (auto intro: unshared_buffers wf_store_buffers)
    obtain c hh where al: "alloc (PDict d) h = (c, hh)" by (cases "alloc (PDict d) h")
    from unshared_cache_settings[OF u2 w2 al, where k = gid] h1 s1 al show ?thesis by simp
  qed
qed

lemma fetch_user_st_unshared:
  assumes w: "wf_store h s" and u: "unshared h s"
    and f: "fetch_user_st now uid force h s = (r, h1, s1)"
  shows "unshared h1 s1"
proof (cases r)
  case (Inl e)
  from fetch_user_st_failed[OF f[unfolded Inl]] u show ?thesis
    by (auto intro: unshared_buffers)
next
  case (Inr x)
  from fetch_user_st_shape[OF f[unfolded Inr]] show ?thesis
  proof (elim disjE exE conjE)
    assume "h1 = h" "s1 = s"
    with u show ?thesis by simp
  next
    fix d s2
    assume h1: "h1 = snd (alloc (PDict d) h)"
      and s1: "s1 = s2\<lparr>users_buffer :=
                       AList.update uid (fst (alloc (PDict d) h)) (users_buffer s2),
                     last_access := AList.update uid now (last_access s2)\<rparr>"
      and b: "settings_buffer s2 = settings_buffer s" "users_buffer s2 = users_buffer s"
    from b have u2: "unshared h s2" and w2: "wf_store h s2"
      using u w by (auto intro: unshared_buffers wf_store_buffers)
    obtain c hh where al: "alloc (PDict d) h = (c, hh)" by (cases "alloc (PDict d) h")
    from unshared_cache_user[OF u2 w2 al, where k = uid] h1 s1 al show ?thesis by simp
  qed
qed

lemma fetch_settings_abs:
  assumes w: "wf_store h s" and a: "abstracts h s sv"
    and f: "fetch_settings_st now gid force h s = (r, h1, s1)"
  shows "fst (fetch_settings now gid force sv) = r \<and>
         abstracts h1 s1 (snd (fetch_settings now gid force sv))"
proof (cases "force \<or> \<not> has_key gid (settings_buffer s)")
  case False
  moreover from a have "has_key gid (settings_buffer sv) = has_key gid (settings_buffer s)"
    using same_cache_has_key[of h "settings_buffer s" "settings_buffer sv" gid]
    by (simp add: abstracts_def)
  ultimately show ?thesis using f a by (simp add: fetch_settings_st_def fetch_settings_def)
next
  case True
  from a have hk: "has_key gid (settings_buffer sv) = has_key gid (settings_buffer s)"
    using same_cache_has_key[of h "settings_buffer s" "settings_buffer sv" gid]
    by (simp add: abstracts_def)
  let ?new = "[(''_id'', PInt gid)]"
  obtain q sa where fo: "db_find_one Settings gid s = (q, sa)"
    by (cases "db_find_one Settings gid s")
  obtain qv sva where fov: "db_find_one Settings gid sv = (qv, sva)"
    by (cases "db_find_one Settings gid sv")
  from db_find_one_abs[OF a fo] fov have qa: "qv = q" "abstracts h sa sva" by simp_all
  from db_find_one_frame[OF fo] w have wa: "wf_store h sa" by (auto intro: wf_store_buffers)
  obtain p sb where io: "db_insert_one Settings ?new sa = (p, sb)"
    by (cases "db_insert_one Settings ?new sa")
  obtain pv svb where iov: "db_insert_one Settings ?new sva = (pv, svb)"
    by (cases "db_insert_one Settings ?new sva")
  from db_insert_one_abs[OF qa(2) io] iov have pa: "pv = p" "abstracts h sb svb" by simp_all
  from db_insert_one_frame[OF io] wa have wb: "wf_store h sb" by (auto intro: wf_store_buffers)
  show ?thesis
  proof (cases q)
    case (Inl e)
    with f True fo fov qa hk show ?thesis
      by (simp add: fetch_settings_st_def fetch_settings_def)
  next
    case (Inr found)
    show ?thesis
    proof (cases "found = None \<or> found = Some []")
      case n: True
      show ?thesis
      proof (cases p)
        case (Inl e)
        with f True fo fov qa hk Inr n io iov pa show ?thesis
          by (simp add: fetch_settings_st_def fetch_settings_def)
      next
        case u: (Inr u)
        obtain c hh where al: "alloc (PDict ?new) h = (c, hh)" by (cases "alloc (PDict ?new) h")
        from f True fo Inr n io u al have
          "r = Inr ()" "h1 = hh"
          "s1 = sb\<lparr>settings_buffer := AList.update gid c (settings_buffer sb),
                   last_access := AList.update gid now (last_access sb)\<rparr>"
          by (simp_all add: fetch_settings_st_def del: alloc.simps)
        moreover from True hk fov qa Inr n iov pa u have
          "fetch_settings now gid force sv =
             (Inr (), svb\<lparr>settings_buffer := AList.update gid ?new (settings_buffer svb),
                         last_access := AList.update gid now (last_access svb)\<rparr>)"
          by (simp add: fetch_settings_def)
        ultimately show ?thesis using abstracts_cache_settings[OF pa(2) wb al, of gid now]
          by simp
      qed
    next
      case n: False
      obtain c hh where al: "alloc (PDict (the found)) h = (c, hh)"
        by (cases "alloc (PDict (the found)) h")
      from f True fo Inr n al have
        "r = Inr ()" "h1 = hh"
        "s1 = sa\<lparr>settings_buffer := AList.update gid c (settings_buffer sa),
                 last_access := AList.update gid now (last_access sa)\<rparr>"
        by (simp_all add: fetch_settings_st_def del: alloc.simps)
      moreover from True hk fov qa Inr n have
        "fetch_settings now gid force sv =
           (Inr (), sva\<lparr>settings_buffer := AList.update gid (the found) (settings_buffer sva),
                       last_access := AList.update gid now (last_access sva)\<rparr>)"
        by (auto simp: fetch_settings_def)
      ultimately show ?thesis using abstracts_cache_settings[OF qa(2) wa al, of gid now]
        by simp
    qed
  qed
qed

lemma fetch_user_abs:
  assumes w: "wf_store h s" and a: "abstracts h s sv"
    and f: "fetch_user_st now uid force h s = (r, h1, s1)"
  shows "fst (fetch_user now uid force sv) = r \<and>
         abstracts h1 s1 (snd (fetch_user now uid force sv))"
proof (cases "force \<or> \<not> has_key uid (users_buffer s)")
  case False
  moreover from a have "has_key uid (users_buffer sv) = has_key uid (users_buffer s)"
    using same_cache_has_key[of h "users_buffer s" "users_buffer sv" uid]
    by (simp add: abstracts_def)
  ultimately show ?thesis using f a by (simp add: fetch_user_st_def fetch_user_def)
next
  case True
  from a have hk: "has_key uid (users_buffer sv) = has_key uid (users_buffer s)"
    using same_cache_has_key[of h "users_buffer s" "users_buffer sv" uid]
    by (simp add: abstracts_def)
  let ?new = "merge_into [(''_id'', PInt uid)] user_base"
  obtain q sa where fo: "db_find_one Users uid s = (q, sa)"
    by (cases "db_find_one Users uid s")
  obtain qv sva where fov: "db_find_one Users uid sv = (qv, sva)"
    by (cases "db_find_one Users uid sv")
  from db_find_one_abs[OF a fo] fov have qa: "qv = q" "abstracts h sa sva" by simp_all
  from db_find_one_frame[OF fo] w have wa: "wf_store h sa" by (auto intro: wf_store_buffers)
  obtain p sb where io: "db_insert_one Users ?new sa = (p, sb)"
    by (cases "db_insert_one Users ?new sa")
  obtain pv svb where iov: "db_insert_one Users ?new sva = (pv, svb)"
    by (cases "db_insert_one Users ?new sva")
  from db_insert_one_abs[OF qa(2) io] iov have pa: "pv = p" "abstracts h sb svb" by simp_all
  from db_insert_one_frame[OF io] wa have wb: "wf_store h sb" by (auto intro: wf_store_buffers)
  show ?thesis
  proof (cases q)
    case (Inl e)
    with f True fo fov qa hk show ?thesis
      by (simp add: fetch_user_st_def fetch_user_def)
  next
    case (Inr found)
    show ?thesis
    proof (cases "found = None \<or> found = Some []")
      case n: True
      show ?thesis
      proof (cases p)
        case (Inl e)
        with f True fo fov qa hk Inr n io iov pa show ?thesis
          by (simp add: fetch_user_st_def fetch_user_def)
      next
        case u: (Inr u)
        obtain c hh where al: "alloc (PDict ?new) h = (c, hh)" by (cases "alloc (PDict ?new) h")
        from f True fo Inr n io u al have
          "r = Inr ()" "h1 = hh"
          "s1 = sb\<lparr>users_buffer := AList.update uid c (users_buffer sb),
                   last_access := AList.update uid now (last_access sb)\<rparr>"
          by (simp_all add: fetch_user_st_def del: alloc.simps)
        moreover from True hk fov qa Inr n iov pa u have
          "fetch_user now uid force sv =
             (Inr (), svb\<lparr>users_buffer := AList.update uid ?new (users_buffer svb),
                         last_access := AList.update uid now (last_access svb)\<rparr>)"
          by (simp add: fetch_user_def)
        ultimately show ?thesis using abstracts_cache_user[OF pa(2) wb al, of uid now]
          by simp
      qed
    next
      case n: False
      obtain c hh where al: "alloc (PDict (the found)) h = (c, hh)"
        by (cases "alloc (PDict (the found)) h")
      from f True fo Inr n al have
        "r = Inr ()" "h1 = hh"
        "s1 = sa\<lparr>users_buffer := AList.update uid c (users_buffer sa),
                 last_access := AList.update uid now (last_access sa)\<rparr>"
        by (simp_all add: fetch_user_st_def del: alloc.simps)
      moreover from True hk fov qa Inr n have
        "fetch_user now uid force sv =
           (Inr (), sva\<lparr>users_buffer := AList.update uid (the found) (users_buffer sva),
                       last_access := AList.update uid now (last_access sva)\<rparr>)"
        by (auto simp: fetch_user_def)
      ultimately show ?thesis using abstracts_cache_user[OF qa(2) wa al, of uid now]
        by simp
    qed
  qed
qed

text \<open>
  \<open>setdefault\<close> on the cached dictionary: the cell it returns reads as the value that the
  operation on values takes from the cached document, and a key that it adds in place is
  the key that the operation on values adds.
\<close>

lemma setdefault_st_abs:
  assumes w: "wf_store h1 s1" and a: "abstracts h1 s1 sv1" and u: "unshared h1 s1"
    and e: "map_of (users_buffer s1) uid = Some entry"
    and sd: "setdefault_st entry f dflt h1 = Inr (src, h2)"
  shows "(\<exists>n. read n h2 src = Some (get_default (cached (users_buffer sv1) uid) f dflt)) \<and>
         abstracts h2 s1
           (if has_key f (cached (users_buffer sv1) uid) then sv1
            else sv1\<lparr>users_buffer :=
                   AList.update uid (AList.update f dflt (cached (users_buffer sv1) uid))
                     (users_buffer sv1)\<rparr>) \<and>
         unshared h2 s1"
proof -
  from w have rc1: "region_closed 0 (length h1) h1" by (simp add: wf_store_def)
  from a have sc: "same_cache h1 (users_buffer s1) (users_buffer sv1)"
    and ss: "same_cache h1 (settings_buffer s1) (settings_buffer sv1)"
    by (simp_all add: abstracts_def)
  from same_cache_map_of[OF sc, of uid] e obtain d n where
    dv: "map_of (users_buffer sv1) uid = Some d" and rd: "read n h1 entry = Some (PDict d)"
    by auto
  from dv have cd: "cached (users_buffer sv1) uid = d" by (simp add: cached_def get_default_def)
  from read_dict[OF rd] obtain ad kcs m vs where
    en: "entry = Ref ad" and lt: "ad < length h1" and ob: "h1 ! ad = ODict kcs"
    and n: "n = Suc m" and th: "those (map (read m h1) (map snd kcs)) = Some vs"
    and d: "d = zip (map fst kcs) vs" by blast
  from e en have mem: "(uid, Ref ad) \<in> set (users_buffer s1)" by (auto dest: map_of_SomeD)
  from rc1 lt ob have kin: "list_all (cell_in 0 (length h1)) (map snd kcs)"
    by (auto simp: region_closed_nth)
  obtain g hg where al: "alloc dflt h1 = (g, hg)" by (cases "alloc dflt h1")
  from alloc_fresh(1)[OF al] obtain ext where x: "hg = h1 @ ext"
    "cell_in (length h1) (length hg) g" "region_closed (length h1) (length hg) hg" by blast
  from abstracts_wf[OF a w al] have ag: "abstracts hg s1 sv1" .
  from unshared_append[OF u w, of ext] x(1) have ug: "unshared hg s1" by simp
  have rd_old: "read k hg c = read k h1 c" if "cell_in 0 (length h1) c" for k c
    using read_append[OF rc1 that, of k ext] x(1) by simp
  show ?thesis
  proof (cases "map_of kcs f")
    case (Some c0)
    with sd en lt ob al have r: "src = c0" "h2 = hg" by (simp_all del: alloc.simps)
    from map_of_zip_read[OF th Some] d obtain v0 where
      v0: "map_of d f = Some v0" "read m h1 c0 = Some v0" by blast
    from Some have "c0 \<in> set (map snd kcs)" by (force dest: map_of_SomeD)
    with kin have "cell_in 0 (length h1) c0" by (auto simp: list_all_iff)
    from rd_old[OF this, of m] v0(2) have "read m hg c0 = Some v0" by simp
    moreover from v0(1) have "has_key f d" "get_default d f dflt = v0"
      by (simp_all add: has_key_def get_default_def)
    ultimately show ?thesis using r cd ag ug by auto
  next
    case None
    let ?ob = "ODict (kcs @ [(f, g)])"
    from None sd en lt ob al have r: "src = g" "h2 = hg[ad := ?ob]"
      by (auto simp del: alloc.simps)
    from those_map_length[OF th] have len: "length vs = length kcs" by simp
    from map_of_zip_None[OF len None] d have nf: "map_of d f = None" by simp
    then have nk: "\<not> has_key f d" "get_default d f dflt = dflt"
      by (simp_all add: has_key_def get_default_def)
    from lt x(1) have ltg: "ad < length hg" and obg: "hg ! ad = ODict kcs"
      using ob by (simp_all add: nth_append)
    \<comment> \<open>the new object is out of reach of the old ones, and the other way round\<close>
    have g_reach: "ad \<notin> reach k hg g" for k
      using reach_bounded[OF x(3,2), of k] lt by auto
    from alloc_read(1)[OF al] obtain ng where ng: "read ng hg g = Some dflt" by blast
    from read_update[OF g_reach, of ng ?ob] ng r have rg: "read ng h2 g = Some dflt" by simp
    from rd en have "read n hg (Ref ad) = Some (PDict d)"
      using rd_old[of "Ref ad" n] lt by (simp add: cell_in_def)
    then have kid_reach: "ad \<notin> reach k hg y" if "y \<in> set (map snd kcs)" for k y
      using readable_is_acyclic[of n hg ad "PDict d" y k] that obg by simp
    have kid_read: "read m h2 y = read m h1 y" if "y \<in> set (map snd kcs)" for y
    proof -
      from that kin have "cell_in 0 (length h1) y" by (auto simp: list_all_iff)
      from rd_old[OF this, of m] read_update[OF kid_reach[OF that], of m ?ob] r show ?thesis
        by simp
    qed
    have "those (map (read m h2) (map snd kcs)) = those (map (read m h1) (map snd kcs))"
      by (rule those_map_cong) (rule kid_read)
    with th have th2: "those (map (read m h2) (map snd kcs)) = Some vs" by simp
    let ?M = "max m ng"
    have "those (map (read ?M h2) (map snd kcs)) = Some vs"
      by (rule those_map_mono[OF _ th2]) (erule read_mono, simp)
    moreover have "read ?M h2 g = Some dflt" by (rule read_mono[OF rg]) simp
    ultimately have "those (map (read ?M h2) (map snd kcs @ [g])) = Some (vs @ [dflt])"
      by (rule those_map_snoc)
    moreover have "h2 ! ad = ?ob" "ad < length h2" using r ltg by simp_all
    ultimately have "read (Suc ?M) h2 (Ref ad) = Some (PDict (zip (map fst kcs @ [f]) (vs @ [dflt])))"
      by simp
    also have "zip (map fst kcs @ [f]) (vs @ [dflt]) = d @ [(f, dflt)]"
      using len d by simp
    also have "\<dots> = AList.update f dflt d" using update_absent[OF nf] by simp
    finally have new: "read (Suc ?M) h2 (Ref ad) = Some (PDict (AList.update f dflt d))" .
    \<comment> \<open>the other entries\<close>
    have other_u: "ad \<notin> reach k hg c'" if "(k', c') \<in> set (users_buffer s1)" "k' \<noteq> uid"
      for k k' c'
      using ug mem that unfolding unshared_def by blast
    have other_s: "ad \<notin> reach k hg c'" if "(k', c') \<in> set (settings_buffer s1)" for k k' c'
      using ug mem that unfolding unshared_def by blast
    from ag have scg: "same_cache hg (users_buffer s1) (users_buffer sv1)"
      and ssg: "same_cache hg (settings_buffer s1) (settings_buffer sv1)"
      by (simp_all add: abstracts_def)
    from ug have dist: "distinct (map fst (users_buffer s1))" by (simp add: unshared_def)
    have su: "same_cache h2 (users_buffer s1) (AList.update uid (AList.update f dflt d) (users_buffer sv1))"
      by (rule same_cache_mutate[OF scg dist mem new])
         (use other_u r in \<open>auto intro: read_update\<close>)
    have st: "same_cache h2 (settings_buffer s1) (settings_buffer sv1)"
      by (rule same_cache_cong[OF ssg]) (use other_s r in \<open>auto intro: read_update\<close>)
    from ag su st have A: "abstracts h2 s1
        (sv1\<lparr>users_buffer := AList.update uid (AList.update f dflt d) (users_buffer sv1)\<rparr>)"
      by (simp add: abstracts_def)
    \<comment> \<open>no sharing\<close>
    have own: "c' = Ref ad" if "(uid, c') \<in> set (users_buffer s1)" for c'
      using dist mem that by (meson eq_key_imp_eq_value)
    have olda: "a1 < length h1" if "(k1, Ref a1) \<in> set (users_buffer s1)" for k1 a1
      using wf_store_entry[OF w, of k1 "Ref a1"] that by (simp add: cell_in_def)
    have U1: "a1 \<notin> reach k h2 c'"
      if p: "(k1, Ref a1) \<in> set (users_buffer s1)" "(k', c') \<in> set (users_buffer s1)" "k' \<noteq> k1"
      for k1 a1 k' c' k
    proof (cases "k' = uid")
      case True
      with own p(2) have c': "c' = Ref ad" by simp
      from reach_extended[OF ltg obg kid_reach g_reach, of k f] r c'
      have sub: "reach k h2 c' \<subseteq> reach k hg (Ref ad) \<union> (\<Union>j. reach j hg g)" by simp
      from ug p(1) mem p(3) True have "a1 \<notin> reach k hg (Ref ad)"
        unfolding unshared_def by blast
      moreover have "a1 \<notin> reach j hg g" for j
        using reach_bounded[OF x(3,2), of j] olda[OF p(1)] by auto
      ultimately show ?thesis using sub by blast
    next
      case False
      from reach_update[OF other_u[OF p(2) False], of k ?ob] r
      have "reach k h2 c' = reach k hg c'" by simp
      with ug p show ?thesis unfolding unshared_def by blast
    qed
    have U2: "a1 \<notin> reach k h2 c'"
      if p: "(k1, Ref a1) \<in> set (users_buffer s1)" "(k', c') \<in> set (settings_buffer s1)"
      for k1 a1 k' c' k
    proof -
      from reach_update[OF other_s[OF p(2)], of k ?ob] r
      have "reach k h2 c' = reach k hg c'" by simp
      with ug p show ?thesis unfolding unshared_def by blast
    qed
    from dist U1 U2 have U: "unshared h2 s1" unfolding unshared_def by blast
    from rg r cd nk A U show ?thesis by auto
  qed
qed

subsection \<open>The reads over the store and over values agree\<close>

text \<open>
  From states that agree, a read over the store that returns an object corresponds to
  the read over values: the latter returns a reference to the value the object reads as
  (a \<open>Detached\<close> one when a copy was asked for, read within the limit of the copy), and
  the states agree again. With \<open>initial_states_agree\<close> this covers every sequence of
  reads of an empty handler.
\<close>

theorem get_settings_agrees:
  assumes w: "wf_store h s" and a: "abstracts h s sv" and u: "unshared h s"
    and g: "get_settings_st limit now gid force h s = (Inr c, h', s')"
  shows "\<exists>v sv'. get_settings now gid force sv = (Inr (Detached v), sv') \<and>
           read limit h' c = Some v \<and>
           wf_store h' s' \<and> abstracts h' s' sv' \<and> unshared h' s'"
proof -
  from g obtain h1 where f: "fetch_settings_st now gid force h s = (Inr (), h1, s')"
    by (auto simp: get_settings_st_def split: prod.splits sum.splits option.splits)
  obtain sv1 where fv: "fetch_settings now gid force sv = (Inr (), sv1)"
    and a1: "abstracts h1 s' sv1"
    using fetch_settings_abs[OF w a f] by (cases "fetch_settings now gid force sv") auto
  from fetch_settings_st_ok[OF w f] have w1: "wf_store h1 s'"
    and k: "has_key gid (settings_buffer s')" by simp_all
  from fetch_settings_st_unshared[OF w u f] have u1: "unshared h1 s'" .
  from k obtain entry where e: "map_of (settings_buffer s') gid = Some entry"
    by (auto simp: has_key_def)
  from a1 have "same_cache h1 (settings_buffer s') (settings_buffer sv1)"
    by (simp add: abstracts_def)
  from same_cache_map_of[OF this, of gid] e obtain d n where
    dv: "map_of (settings_buffer sv1) gid = Some d" and rd: "read n h1 entry = Some (PDict d)"
    by auto
  from w1 e have ce: "cell_in 0 (length h1) entry"
    using map_of_list_all[of "\<lambda>kc. cell_in 0 (length h1) (snd kc)" "settings_buffer s'" gid entry]
    by (simp add: wf_store_def)
  from w1 have rc: "region_closed 0 (length h1) h1" by (simp add: wf_store_def)
  from g f e have dc: "deepcopy limit h1 entry = Inr (c, h')"
    by (auto simp: get_settings_st_def split: sum.splits)
  from deepcopy_result[OF rc ce dc] obtain ext v where
    r: "h' = h1 @ ext" "read limit h1 entry = Some v" "read limit h' c = Some v" by blast
  from read_det[OF r(2) rd] have v: "v = PDict d" .
  from fv dv have "get_settings now gid force sv = (Inr (Detached (PDict d)), sv1)"
    by (simp add: get_settings_def cached_def get_default_def)
  moreover from abstracts_append[OF a1 w1, of ext] r(1) have "abstracts h' s' sv1" by simp
  moreover from unshared_append[OF u1 w1, of ext] r(1) have "unshared h' s'" by simp
  moreover from get_settings_st_keeps_wf[OF w g] have "wf_store h' s'" .
  ultimately show ?thesis using r(3) v by blast
qed

theorem get_user_agrees:
  assumes w: "wf_store h s" and a: "abstracts h s sv" and u: "unshared h s"
    and g: "get_user_st limit now uid d_type need_copy force h s = (Inr c, h', s')"
  shows "\<exists>r v n sv'. get_user now uid d_type need_copy force sv = (Inr r, sv') \<and>
           deref sv' r = Some v \<and> read n h' c = Some v \<and>
           (need_copy \<longrightarrow> r = Detached v \<and> n = limit) \<and>
           wf_store h' s' \<and> abstracts h' s' sv' \<and> unshared h' s'"
proof -
  let ?plain = "d_type = None \<or> d_type = Some []"
  let ?f = "the d_type"
  let ?dflt = "get_default user_base ?f PNone"
  from g obtain h1 where f: "fetch_user_st now uid force h s = (Inr (), h1, s')"
    by (auto simp: get_user_st_def split: prod.splits sum.splits option.splits if_splits)
  obtain sv1 where fv: "fetch_user now uid force sv = (Inr (), sv1)"
    and a1: "abstracts h1 s' sv1"
    using fetch_user_abs[OF w a f] by (cases "fetch_user now uid force sv") auto
  from fetch_user_st_ok[OF w f] have w1: "wf_store h1 s'"
    and k: "has_key uid (users_buffer s')" by simp_all
  from fetch_user_st_unshared[OF w u f] have u1: "unshared h1 s'" .
  from k obtain entry where e: "map_of (users_buffer s') uid = Some entry"
    by (auto simp: has_key_def)
  from a1 have sc: "same_cache h1 (users_buffer s') (users_buffer sv1)"
    by (simp add: abstracts_def)
  from same_cache_map_of[OF sc, of uid] e obtain d n0 where
    dv: "map_of (users_buffer sv1) uid = Some d" and rd: "read n0 h1 entry = Some (PDict d)"
    by auto
  from dv have cd: "cached (users_buffer sv1) uid = d" by (simp add: cached_def get_default_def)
  from w1 e have ce: "cell_in 0 (length h1) entry"
    using map_of_list_all[of "\<lambda>kc. cell_in 0 (length h1) (snd kc)" "users_buffer s'" uid entry]
    by (simp add: wf_store_def)
  from w1 have rc1: "region_closed 0 (length h1) h1" by (simp add: wf_store_def)
  \<comment> \<open>the object that is returned or copied, the store it lies in, and the abstract side\<close>
  obtain src h2 where st:
    "(if \<not> ?plain then
        (if \<not> has_key ?f user_base then Inl ValueError else setdefault_st entry ?f ?dflt h1)
      else Inr (entry, h1)) = Inr (src, h2)"
    and res: "(if need_copy then
                 (case deepcopy limit h2 src of
                    Inl e \<Rightarrow> (Inl ConnectionError, h2, s')
                  | Inr r \<Rightarrow> (Inr (fst r), snd r, s'))
               else (Inr src, h2, s')) = (Inr c, h', s')"
    using g f e
    by (auto simp: get_user_st_def simp del: setdefault_st.simps split: sum.splits if_splits)
  define sv2 where "sv2 =
     (if ?plain \<or> has_key ?f (cached (users_buffer sv1) uid) then sv1
      else sv1\<lparr>users_buffer :=
             AList.update uid (AList.update ?f ?dflt (cached (users_buffer sv1) uid))
               (users_buffer sv1)\<rparr>)"
  define val where "val = (if ?plain then PDict d else get_default d ?f ?dflt)"
  have mid: "(\<exists>n. read n h2 src = Some val) \<and> abstracts h2 s' sv2 \<and> unshared h2 s' \<and>
             wf_store h2 s' \<and> cell_in 0 (length h2) src \<and> (?plain \<or> has_key ?f user_base)"
  proof (cases ?plain)
    case True
    with st have "src = entry" "h2 = h1" by auto
    with True rd a1 u1 w1 ce show ?thesis by (auto simp: sv2_def val_def)
  next
    case False
    with st have hk: "has_key ?f user_base"
      and sd: "setdefault_st entry ?f ?dflt h1 = Inr (src, h2)"
      by (auto split: if_splits)
    from setdefault_st_abs[OF w1 a1 u1 e sd] False cd
    have "\<exists>n. read n h2 src = Some val" "abstracts h2 s' sv2" "unshared h2 s'"
      by (auto simp: sv2_def val_def)
    moreover from setdefault_st_ok[OF rc1 ce sd] w1
    have "wf_store h2 s'" "cell_in 0 (length h2) src"
      by (auto simp: wf_store_def list_all_iff)
    ultimately show ?thesis using hk by blast
  qed
  \<comment> \<open>what the operation on values returns\<close>
  have gv: "get_user now uid d_type need_copy force sv =
              (Inr (if need_copy then Detached val
                    else if ?plain then Live uid else Live_field uid ?f), sv2)"
    using fv mid cd by (auto simp: get_user_def sv2_def val_def)
  have dr: "deref sv2 (if ?plain then Live uid else Live_field uid ?f) = Some val"
  proof (cases ?plain)
    case True
    with dv show ?thesis by (auto simp: deref_def sv2_def val_def)
  next
    case False
    show ?thesis
    proof (cases "has_key ?f d")
      case True
      with False dv cd show ?thesis
        by (auto simp: deref_def sv2_def val_def has_key_def get_default_def)
    next
      case nk: False
      with False dv cd show ?thesis
        by (auto simp: deref_def sv2_def val_def has_key_def get_default_def update_conv')
    qed
  qed
  show ?thesis
  proof (cases need_copy)
    case False
    with res have "c = src" "h' = h2" by simp_all
    with mid gv dr False show ?thesis by (auto simp: deref_def)
  next
    case True
    with res obtain p where dc: "deepcopy limit h2 src = Inr p" and p: "c = fst p" "h' = snd p"
      by (cases "deepcopy limit h2 src") auto
    from mid have rc2: "region_closed 0 (length h2) h2" and w2: "wf_store h2 s'"
      and cs: "cell_in 0 (length h2) src" by (simp_all add: wf_store_def)
    from dc p have dc': "deepcopy limit h2 src = Inr (c, h')" by simp
    from deepcopy_result[OF rc2 cs dc'] obtain ext v where
      r: "h' = h2 @ ext" "read limit h2 src = Some v" "read limit h' c = Some v" by blast
    from mid obtain n where "read n h2 src = Some val" by blast
    from read_det[OF r(2) this] have v: "v = val" .
    from mid abstracts_append[OF _ w2, of sv2 ext] r(1) have A: "abstracts h' s' sv2" by simp
    from mid unshared_append[OF _ w2, of ext] r(1) have U: "unshared h' s'" by simp
    from get_user_st_keeps_wf[OF w g] have W: "wf_store h' s'" .
    from gv True r(3) v A U W show ?thesis by (auto simp: deref_def)
  qed
qed

end
